(* ===== verification/Prelude.thy ===== *)
theory Prelude
  imports Main "HOL-Library.Word" "HOL-Library.Monad_Syntax"
begin

unbundle bit_operations_syntax

text \<open>
  Shared vocabulary of the development.

  \<^item> A C string is the list of its characters before the terminating NUL (\<open>cstring\<close>); a byte
    buffer is the list of all the bytes that were allocated (\<open>buffer\<close>).
  \<^item> A value of C type \<open>size_t\<close> is a \<open>nat\<close> below \<open>2 ^ 64\<close>; \<open>size_add\<close> and \<open>size_sub\<close> are its
    wrapping operations.
  \<^item> Undefined behaviour (an access outside an allocated block, a dereference of NULL or of a
    freed pointer), a failed \<open>assert\<close> and a thread that can never go on are the value
    \<open>None\<close> of an option type; a reported error is a value of \<open>errno\<close>.
\<close>

section \<open>Types\<close>

type_synonym cstring = "char list"
type_synonym buffer = "char list"
type_synonym fd = int
type_synonym ptr = nat

abbreviation (input) NULL :: ptr where "NULL \<equiv> 0"

abbreviation NUL :: char where "NUL \<equiv> CHR 0x00"

text \<open>The values of \<open>errno\<close> that the program sets or tests.\<close>

datatype errno = ENOENT | EACCES | EPERM | E2BIG | EINVAL | ENOMEM | EAGAIN | EBADE | ERANGE

text \<open>Hints of the development: facts about pointer lists, about buffers and about stores.\<close>

named_theorems buf_simps "reads and writes of buffers"
named_theorems dll_simps "pointer-linked lists"
named_theorems store_simps "field updates of the storage"

section \<open>Machine arithmetic\<close>

definition size_max :: nat where
  "size_max = 2 ^ 64"

definition size_add :: "nat \<Rightarrow> nat \<Rightarrow> nat" where
  "size_add a b = (a + b) mod size_max"

definition size_sub :: "nat \<Rightarrow> nat \<Rightarrow> nat" where
  "size_sub a b = (a + (size_max - b mod size_max)) mod size_max"

lemma size_add_small: "a + b < size_max \<Longrightarrow> size_add a b = a + b"
  by (simp add: size_add_def)

lemma size_sub_small:
  assumes "b \<le> a" and "a < size_max"
  shows "size_sub a b = a - b"
proof -
  have "b mod size_max = b" and "a + (size_max - b) = (a - b) + size_max"
    using assms by (simp, linarith)
  then have "size_sub a b = ((a - b) + size_max) mod size_max"
    by (simp only: size_sub_def)
  also have "\<dots> = (a - b) mod size_max"
    by (rule mod_add_self2)
  also have "\<dots> = a - b"
    using assms by (intro mod_less) linarith
  finally show ?thesis .
qed

lemma size_max_pos [simp]: "0 < size_max"
  by (simp add: size_max_def)

lemma size_add_bound: "size_add a b < size_max"
  by (simp add: size_add_def)

lemma size_sub_bound: "size_sub a b < size_max"
  by (simp add: size_sub_def)

text \<open>The conversion of a \<open>long\<close> to the \<open>int\<close> a function returns keeps the low 32 bits.\<close>

definition int_of_long :: "int \<Rightarrow> int" where
  "int_of_long x = sint (word_of_int x :: 32 word)"

lemma int_of_long_small: "- (2 ^ 31) \<le> x \<Longrightarrow> x < 2 ^ 31 \<Longrightarrow> int_of_long x = x"
  by (simp add: int_of_long_def sint_uint uint_word_of_int_eq signed_take_bit_take_bit
      signed_take_bit_int_eq_self)

text \<open>A difference of two \<open>size_t\<close> that is converted to \<open>int\<close> is the signed difference when both
  are small.\<close>

lemma int_of_long_mod: "int_of_long (x mod 2 ^ 64) = int_of_long x"
proof -
  have "(word_of_int (take_bit 64 x) :: 32 word) = word_of_int x"
    by (rule bit_word_eqI) (simp add: bit_simps)
  then have "(word_of_int (x mod 2 ^ 64) :: 32 word) = word_of_int x"
    by (simp only: take_bit_eq_mod)
  then show ?thesis by (simp only: int_of_long_def)
qed

lemma int_size_sub: "int (size_sub a b) = (int a - int b) mod 2 ^ 64"
proof -
  have "b mod size_max \<le> size_max" by (simp add: less_imp_le)
  then have "int (size_sub a b) = (int a + (2 ^ 64 - int b mod 2 ^ 64)) mod 2 ^ 64"
    by (simp add: size_sub_def size_max_def zmod_int of_nat_diff algebra_simps)
  also have "\<dots> = ((int a - int b mod 2 ^ 64) + 2 ^ 64) mod 2 ^ 64"
    by (simp only: algebra_simps)
  also have "\<dots> = (int a - int b mod 2 ^ 64) mod 2 ^ 64"
    by (rule mod_add_self2)
  finally show ?thesis by (simp only: mod_diff_right_eq)
qed

lemma int_of_long_size_sub:
  assumes "a < 2 ^ 31" and "b < 2 ^ 31"
  shows "int_of_long (int (size_sub a b)) = int a - int b"
  unfolding int_size_sub int_of_long_mod using assms by (intro int_of_long_small) simp_all

text \<open>A plain \<open>char\<close> is signed in the code's C implementation.\<close>

definition schar :: "char \<Rightarrow> int" where
  "schar c = (let n = of_char c in if n < 128 then n else n - 256)"

section \<open>Buffers\<close>

text \<open>An access outside the allocated block is \<open>None\<close>.\<close>

definition peek :: "buffer \<Rightarrow> nat \<Rightarrow> char option" where
  "peek b i = (if i < length b then Some (b ! i) else None)"

definition poke :: "buffer \<Rightarrow> nat \<Rightarrow> char \<Rightarrow> buffer option" where
  "poke b i c = (if i < length b then Some (b[i := c]) else None)"

definition memcpy :: "buffer \<Rightarrow> nat \<Rightarrow> char list \<Rightarrow> buffer option" where
  "memcpy b i cs =
     (if i + length cs \<le> length b then Some (take i b @ cs @ drop (i + length cs) b) else None)"

text \<open>\<open>calloc\<close> gives a block of zero bytes.\<close>

definition calloc :: "nat \<Rightarrow> buffer" where
  "calloc n = replicate n NUL"

lemma length_calloc [simp]: "length (calloc n) = n"
  by (simp add: calloc_def)

lemma peek_Some_iff: "peek b i = Some c \<longleftrightarrow> i < length b \<and> b ! i = c"
  by (auto simp: peek_def)

lemma peek_append_right [buf_simps]: "peek (xs @ ys) (length xs + i) = peek ys i"
  by (simp add: peek_def)

lemma peek_append_here [buf_simps]: "peek (xs @ y # ys) (length xs) = Some y"
  by (simp add: peek_def)

lemma poke_append_here [buf_simps]: "poke (xs @ y # ys) (length xs) c = Some (xs @ c # ys)"
  by (simp add: poke_def)

lemma length_poke: "poke b i c = Some b' \<Longrightarrow> length b' = length b"
  by (auto simp: poke_def split: if_splits)

lemma calloc_Suc: "calloc (Suc n) = NUL # calloc n"
  by (simp add: calloc_def)

lemma calloc_add: "calloc (m + n) = calloc m @ calloc n"
  by (simp add: calloc_def replicate_add)

lemma poke_calloc [buf_simps]:
  assumes "0 < n"
  shows "poke (xs @ calloc n) (length xs) c = Some ((xs @ [c]) @ calloc (n - 1))"
proof -
  from assms obtain m where "n = Suc m" by (cases n) auto
  then show ?thesis by (simp add: calloc_Suc poke_append_here)
qed

lemma memcpy_calloc [buf_simps]:
  "length cs \<le> n \<Longrightarrow> memcpy (xs @ calloc n) (length xs) cs = Some (xs @ cs @ calloc (n - length cs))"
  by (simp add: memcpy_def calloc_def)

section \<open>Lists and options\<close>

lemma map_of_filter_neq:
  "map_of (filter (\<lambda>(k, v). k \<noteq> a) kvs) = (map_of kvs)(a := None)"
  by (induction kvs) (auto simp: fun_eq_iff)

lemma length_remove1_eq: "x \<in> set xs \<Longrightarrow> length (remove1 x xs) = length xs - 1"
  by (simp add: length_remove1)

lemma sum_list_remove1:
  fixes f :: "'a \<Rightarrow> nat"
  shows "x \<in> set xs \<Longrightarrow> sum_list (map f (remove1 x xs)) = sum_list (map f xs) - f x"
  by (induction xs) (auto simp: member_le_sum_list)

lemma sum_list_member_le:
  fixes f :: "'a \<Rightarrow> nat"
  shows "x \<in> set xs \<Longrightarrow> f x \<le> sum_list (map f xs)"
  by (simp add: member_le_sum_list)

lemma sum_list_map_cong:
  "(\<And>x. x \<in> set xs \<Longrightarrow> f x = g x) \<Longrightarrow> sum_list (map f xs) = sum_list (map g xs)"
  by (simp cong: map_cong)

end
