(* ===== verification/BoundedBuffer.thy ===== *)
theory BoundedBuffer
  imports Prelude
begin

text \<open>
  The bounded buffer of \<^verbatim>\<open>src/src/boundedbuffer.c\<close>, the queue between the manager thread and the
  workers and between the handlers and the log writer. \<open>struct _node\<close> is the record \<open>node\<close>,
  \<open>struct _boundedBuffer\<close> the record \<open>bounded_buffer\<close> with an explicit heap \<open>nodes\<close> of the nodes
  it owns; an element is a block of \<open>dataSize\<close> bytes.

  The first part is the pointer work of the critical sections of \<open>enqueue\<close> and \<open>dequeue\<close>, refined
  to operations on a list by \<open>bb_rep\<close>. The second part is the monitor: any number of threads, each
  outside, parked on one of the two condition variables or woken and about to take the mutex again;
  a step is one critical section, from taking the mutex to releasing it or to waiting.
\<close>

section \<open>Data\<close>

record node =
  data :: buffer
  nextPtr :: ptr

record bounded_buffer =
  capacity :: nat
  numElements :: nat
  dataSize :: nat
  headPtr :: ptr
  tailPtr :: ptr
  nodes :: "ptr \<rightharpoonup> node"

section \<open>Operations\<close>

definition allocBoundedBuffer :: "bool \<Rightarrow> nat \<Rightarrow> nat \<Rightarrow> errno + bounded_buffer" where
  "allocBoundedBuffer mem cap sz =
     (if cap \<le> 0 then Inl EINVAL
      else if \<not> mem then Inl ENOMEM
      else Inr \<lparr>capacity = cap, numElements = 0, dataSize = sz, headPtr = NULL, tailPtr = NULL,
                nodes = Map.empty\<rparr>)"

text \<open>
  \<open>_allocNode\<close> copies \<open>upTo\<close> bytes, or \<open>dataSize\<close> if that is 0, into a block of \<open>dataSize\<close> bytes
  fresh from \<open>malloc\<close>, whose bytes (\<open>block\<close>) are arbitrary.
\<close>

definition allocNode :: "buffer \<Rightarrow> buffer \<Rightarrow> nat \<Rightarrow> nat \<Rightarrow> node option" where
  "allocNode block src sz upTo =
     (let n = (if upTo \<noteq> 0 then upTo else sz) in
      if length src < n then None
      else do {
        d \<leftarrow> memcpy (take sz block) 0 (take n src);
        Some \<lparr>data = d, nextPtr = NULL\<rparr>
      })"

text \<open>The critical section of \<open>enqueue\<close> once there is room; \<open>a\<close> is the address of the new node.\<close>

definition enqueue_node :: "bounded_buffer \<Rightarrow> ptr \<Rightarrow> node \<Rightarrow> bounded_buffer option" where
  "enqueue_node buf a newNode = do {
     buf \<leftarrow>
       (if numElements buf \<noteq> 0 then do {
          t \<leftarrow> nodes buf (tailPtr buf);
          Some (buf\<lparr>nodes := (nodes buf)(tailPtr buf \<mapsto> t\<lparr>nextPtr := a\<rparr>, a \<mapsto> newNode)\<rparr>)
        } else Some (buf\<lparr>headPtr := a, nodes := (nodes buf)(a \<mapsto> newNode)\<rparr>));
     Some (buf\<lparr>tailPtr := a, numElements := numElements buf + 1\<rparr>)
   }"

text \<open>The critical section of \<open>dequeue\<close> once there is an element: the buffer and the block of its
  first node, which is then freed.\<close>

definition dequeue_node :: "bounded_buffer \<Rightarrow> (bounded_buffer \<times> buffer) option" where
  "dequeue_node buf = do {
     n \<leftarrow> nodes buf (headPtr buf);
     let buf1 = buf\<lparr>headPtr := nextPtr n, numElements := numElements buf - 1,
                    nodes := (nodes buf)(headPtr buf := None)\<rparr>;
     let buf2 = (if numElements buf1 = 0 then buf1\<lparr>tailPtr := NULL\<rparr> else buf1);
     Some (buf2, data n)
   }"

text \<open>What \<open>dequeue\<close> copies out of the block into a destination of \<open>destSize\<close> bytes.\<close>

definition copy_out :: "nat \<Rightarrow> nat \<Rightarrow> buffer \<Rightarrow> buffer" where
  "copy_out sz destSize block = take (if sz \<le> destSize then sz else destSize) block"

lemma dequeue_node_numElements:
  "dequeue_node buf = Some (buf', d) \<Longrightarrow> numElements buf' = numElements buf - 1"
  by (auto simp: dequeue_node_def Let_def bind_eq_Some_conv split: if_splits)

text \<open>\<open>destroyBoundedBuffer\<close> dequeues what is left; the result is the emptied buffer it frees.\<close>

function destroyBoundedBuffer :: "bounded_buffer \<Rightarrow> bounded_buffer option" where
  "destroyBoundedBuffer buf =
     (if numElements buf \<noteq> 0
      then do { (buf, d) \<leftarrow> dequeue_node buf; destroyBoundedBuffer buf }
      else Some buf)"
  by pat_completeness auto
termination
  by (relation "measure numElements") (auto dest: dequeue_node_numElements)

declare destroyBoundedBuffer.simps [simp del]

section \<open>The buffer as a list\<close>

fun linked :: "(ptr \<rightharpoonup> node) \<Rightarrow> ptr \<Rightarrow> ptr list \<Rightarrow> bool" where
  "linked h p [] \<longleftrightarrow> p = NULL"
| "linked h p (a # as) \<longleftrightarrow> p = a \<and> a \<noteq> NULL \<and> (\<exists>n. h a = Some n \<and> linked h (nextPtr n) as)"

definition bb_rep :: "bounded_buffer \<Rightarrow> ptr list \<Rightarrow> buffer list \<Rightarrow> bool" where
  "bb_rep buf as xs \<longleftrightarrow>
     linked (nodes buf) (headPtr buf) as \<and> distinct as \<and> dom (nodes buf) = set as \<and>
     map (\<lambda>a. data (the (nodes buf a))) as = xs \<and> numElements buf = length as \<and>
     length as \<le> capacity buf \<and> 0 < capacity buf \<and> (as \<noteq> [] \<longrightarrow> tailPtr buf = last as)"

lemma linked_upd [simp]: "a \<notin> set as \<Longrightarrow> linked (h(a := v)) p as = linked h p as"
  by (induction as arbitrary: p) auto

lemma linked_snoc:
  assumes "linked h p as" and "as \<noteq> []" and "distinct as" and "h (last as) = Some t"
    and "a \<notin> set as" and "a \<noteq> NULL" and "nextPtr n = NULL"
  shows "linked (h(last as \<mapsto> t\<lparr>nextPtr := a\<rparr>, a \<mapsto> n)) p (as @ [a])"
  using assms
proof (induction as arbitrary: p)
  case Nil
  then show ?case by simp
next
  case (Cons b as)
  show ?case
  proof (cases "as = []")
    case True
    then show ?thesis using Cons.prems by auto
  next
    case False
    then have "last (b # as) = last as" "last as \<in> set as" by simp_all
    moreover have "b \<noteq> last as" using Cons.prems(3) False by (metis distinct.simps(2) last_in_set)
    ultimately show ?thesis using Cons False by auto
  qed
qed

lemma bb_rep_alloc: "allocBoundedBuffer mem cap sz = Inr buf \<Longrightarrow> bb_rep buf [] [] \<and> capacity buf = cap"
  by (auto simp: allocBoundedBuffer_def bb_rep_def split: if_splits)

lemma bb_rep_enqueue:
  assumes "bb_rep buf as xs" and "length as < capacity buf"
    and "a \<noteq> NULL" and "nodes buf a = None" and "nextPtr n = NULL"
  shows "\<exists>buf'. enqueue_node buf a n = Some buf' \<and> bb_rep buf' (as @ [a]) (xs @ [data n]) \<and>
           capacity buf' = capacity buf \<and> numElements buf' = numElements buf + 1 \<and>
           dom (nodes buf') = insert a (dom (nodes buf))"
proof (cases "as = []")
  case True
  then show ?thesis
    using assms by (auto simp: bb_rep_def enqueue_node_def)
next
  case False
  have a: "a \<notin> set as" using assms(1,4) by (auto simp: bb_rep_def)
  have l: "last as \<in> set as" "tailPtr buf = last as" and nz: "numElements buf \<noteq> 0"
    using assms(1) False by (auto simp: bb_rep_def)
  then obtain t where t: "nodes buf (last as) = Some t"
    using assms(1) unfolding bb_rep_def by blast
  let ?h = "(nodes buf)(last as \<mapsto> t\<lparr>nextPtr := a\<rparr>, a \<mapsto> n)"
  have eq: "enqueue_node buf a n =
      Some (buf\<lparr>nodes := ?h, tailPtr := a, numElements := numElements buf + 1\<rparr>)"
    by (simp add: enqueue_node_def nz l t)
  have "linked ?h (headPtr buf) (as @ [a])"
    using assms False a t by (intro linked_snoc) (auto simp: bb_rep_def)
  moreover have "map (\<lambda>b. data (the (?h b))) (as @ [a]) = xs @ [data n]"
    using a t assms(1) by (auto simp: bb_rep_def)
  moreover have "dom ?h = insert a (dom (nodes buf))"
    using t by auto
  ultimately show ?thesis
    using assms(1,2) a by (auto simp: bb_rep_def eq)
qed

lemma bb_rep_dequeue:
  assumes "bb_rep buf as xs" and "as \<noteq> []"
  shows "\<exists>buf'. dequeue_node buf = Some (buf', hd xs) \<and> bb_rep buf' (tl as) (tl xs) \<and>
           capacity buf' = capacity buf \<and> numElements buf' = numElements buf - 1 \<and>
           dom (nodes buf') \<subseteq> dom (nodes buf)"
proof -
  obtain a as' where as: "as = a # as'" using assms(2) by (cases as) auto
  then obtain n where n: "headPtr buf = a" "nodes buf a = Some n" "linked (nodes buf) (nextPtr n) as'"
      "a \<notin> set as'"
    using assms(1) by (auto simp: bb_rep_def)
  have xs: "hd xs = data n" "tl xs = map (\<lambda>a. data (the (nodes buf a))) as'"
    using assms(1) n(2) by (auto simp: bb_rep_def as)
  have "map (\<lambda>b. data (the (((nodes buf)(a := None)) b))) as' = tl xs"
    using n(4) unfolding xs by (intro map_cong) auto
  moreover have "(nodes buf)(a := None) = Map.empty" if "as' = []"
  proof -
    have "dom ((nodes buf)(a := None)) = {}" using assms(1) that by (simp add: bb_rep_def as)
    then show ?thesis by (simp only: dom_eq_empty_conv)
  qed
  ultimately show ?thesis
    using assms(1) n xs(1) by (cases as') (auto simp: bb_rep_def dequeue_node_def Let_def as)
qed

lemma bb_rep_destroy: "bb_rep buf as xs \<Longrightarrow> \<exists>buf'. destroyBoundedBuffer buf = Some buf' \<and> nodes buf' = Map.empty"
proof (induction as arbitrary: buf xs)
  case Nil
  then show ?case by (subst destroyBoundedBuffer.simps) (simp add: bb_rep_def)
next
  case (Cons a as)
  then obtain buf1 where b: "dequeue_node buf = Some (buf1, hd xs)" "bb_rep buf1 as (tl xs)"
    using bb_rep_dequeue [OF Cons.prems] by auto
  have "numElements buf \<noteq> 0" using Cons.prems by (simp add: bb_rep_def)
  then show ?case
    using Cons.IH [OF b(2)] b(1) by (subst destroyBoundedBuffer.simps) simp
qed

section \<open>The monitor\<close>

text \<open>
  Where a thread is: outside the buffer, inside \<open>enqueue\<close> with its node made (waiting on \<open>full\<close>, or
  woken), inside \<open>dequeue\<close> (waiting on \<open>empty\<close>, or woken). A broadcast moves every thread that waits
  on its condition to the woken state; POSIX allows a thread to wake up by itself as well.
\<close>

datatype bb_thread = Outside | WaitFull ptr node | WokenEnq ptr node | WaitEmpty | WokenDeq

record bb_monitor =
  bbuf :: bounded_buffer
  threads :: "nat \<Rightarrow> bb_thread"
  entered :: "buffer list"
  left :: "buffer list"

definition broadcast_empty :: "(nat \<Rightarrow> bb_thread) \<Rightarrow> nat \<Rightarrow> bb_thread" where
  "broadcast_empty ths t = (case ths t of WaitEmpty \<Rightarrow> WokenDeq | x \<Rightarrow> x)"

definition broadcast_full :: "(nat \<Rightarrow> bb_thread) \<Rightarrow> nat \<Rightarrow> bb_thread" where
  "broadcast_full ths t = (case ths t of WaitFull a n \<Rightarrow> WokenEnq a n | x \<Rightarrow> x)"

text \<open>The critical section of \<open>enqueue\<close>, entered afresh or after a wake-up.\<close>

definition enqueue_section :: "nat \<Rightarrow> ptr \<Rightarrow> node \<Rightarrow> bb_monitor \<Rightarrow> bb_monitor option" where
  "enqueue_section t a n s =
     (if numElements (bbuf s) = capacity (bbuf s)
      then Some (s\<lparr>threads := (threads s)(t := WaitFull a n)\<rparr>)
      else do {
        buf \<leftarrow> enqueue_node (bbuf s) a n;
        let ths = (if numElements buf = 1 then broadcast_empty (threads s) else threads s);
        Some (s\<lparr>bbuf := buf, threads := ths(t := Outside), entered := entered s @ [data n]\<rparr>)
      })"

definition dequeue_section :: "nat \<Rightarrow> bb_monitor \<Rightarrow> bb_monitor option" where
  "dequeue_section t s =
     (if numElements (bbuf s) = 0
      then Some (s\<lparr>threads := (threads s)(t := WaitEmpty)\<rparr>)
      else do {
        (buf, d) \<leftarrow> dequeue_node (bbuf s);
        let ths = (if numElements buf = capacity buf - 1 then broadcast_full (threads s) else threads s);
        Some (s\<lparr>bbuf := buf, threads := ths(t := Outside), left := left s @ [d]\<rparr>)
      })"

text \<open>A node that a thread holds but has not linked yet.\<close>

definition holds :: "bb_thread \<Rightarrow> ptr \<Rightarrow> bool" where
  "holds th a \<longleftrightarrow> (\<exists>n. th = WaitFull a n \<or> th = WokenEnq a n)"

inductive bb_step :: "bb_monitor \<Rightarrow> bb_monitor \<Rightarrow> bool" where
  enqueue_call: "threads s t = Outside \<Longrightarrow> a \<noteq> NULL \<Longrightarrow> nodes (bbuf s) a = None \<Longrightarrow>
    (\<forall>t'. \<not> holds (threads s t') a) \<Longrightarrow> allocNode block src (dataSize (bbuf s)) upTo = Some n \<Longrightarrow>
    enqueue_section t a n s = Some s' \<Longrightarrow> bb_step s s'"
| enqueue_again: "threads s t = WokenEnq a n \<Longrightarrow> enqueue_section t a n s = Some s' \<Longrightarrow> bb_step s s'"
| dequeue_call: "threads s t = Outside \<Longrightarrow> dequeue_section t s = Some s' \<Longrightarrow> bb_step s s'"
| dequeue_again: "threads s t = WokenDeq \<Longrightarrow> dequeue_section t s = Some s' \<Longrightarrow> bb_step s s'"
| spurious_full: "threads s t = WaitFull a n \<Longrightarrow> bb_step s (s\<lparr>threads := (threads s)(t := WokenEnq a n)\<rparr>)"
| spurious_empty: "threads s t = WaitEmpty \<Longrightarrow> bb_step s (s\<lparr>threads := (threads s)(t := WokenDeq)\<rparr>)"

definition bb_start :: "bounded_buffer \<Rightarrow> bb_monitor" where
  "bb_start buf = \<lparr>bbuf = buf, threads = (\<lambda>_. Outside), entered = [], left = []\<rparr>"

inductive bb_reachable :: "bb_monitor \<Rightarrow> bool" where
  start: "allocBoundedBuffer True cap sz = Inr buf \<Longrightarrow> bb_reachable (bb_start buf)"
| step: "bb_reachable s \<Longrightarrow> bb_step s s' \<Longrightarrow> bb_reachable s'"

text \<open>
  The invariant: the buffer represents the elements that entered and have not left, a thread waits
  only while its condition holds, and pending nodes are distinct and not linked.
\<close>

definition pending_ok :: "bb_monitor \<Rightarrow> bool" where
  "pending_ok s \<longleftrightarrow>
     (\<forall>t a. holds (threads s t) a \<longrightarrow> a \<noteq> NULL \<and> nodes (bbuf s) a = None) \<and>
     (\<forall>t t' a. holds (threads s t) a \<longrightarrow> holds (threads s t') a \<longrightarrow> t = t') \<and>
     (\<forall>t a n. threads s t = WaitFull a n \<or> threads s t = WokenEnq a n \<longrightarrow> nextPtr n = NULL)"

definition bb_inv :: "bb_monitor \<Rightarrow> bool" where
  "bb_inv s \<longleftrightarrow>
     (\<exists>as xs. bb_rep (bbuf s) as xs \<and> entered s = left s @ xs) \<and>
     (\<forall>t. threads s t = WaitEmpty \<longrightarrow> numElements (bbuf s) = 0) \<and>
     (\<forall>t a n. threads s t = WaitFull a n \<longrightarrow> numElements (bbuf s) = capacity (bbuf s)) \<and>
     pending_ok s"

lemma broadcast_simps [simp]:
  "broadcast_empty ths t \<noteq> WaitEmpty"
  "broadcast_full ths t \<noteq> WaitFull a n"
  "broadcast_empty ths t = WaitFull a n \<longleftrightarrow> ths t = WaitFull a n"
  "broadcast_full ths t = WaitEmpty \<longleftrightarrow> ths t = WaitEmpty"
  "broadcast_empty ths t = WokenEnq a n \<longleftrightarrow> ths t = WokenEnq a n"
  "broadcast_full ths t = WokenEnq a n \<longleftrightarrow> ths t = WaitFull a n \<or> ths t = WokenEnq a n"
  "holds (broadcast_empty ths t) a \<longleftrightarrow> holds (ths t) a"
  "holds (broadcast_full ths t) a \<longleftrightarrow> holds (ths t) a"
  "\<not> holds Outside a" "\<not> holds WaitEmpty a" "\<not> holds WokenDeq a"
  "holds (WaitFull b n) a \<longleftrightarrow> a = b" "holds (WokenEnq b n) a \<longleftrightarrow> a = b"
  by (auto simp: broadcast_empty_def broadcast_full_def holds_def split: bb_thread.splits)

text \<open>Entering \<open>enqueue\<close> with a node that no other thread holds.\<close>

lemma enqueue_section_inv:
  assumes "bb_inv s" and "a \<noteq> NULL" and "nodes (bbuf s) a = None" and "nextPtr n = NULL"
    and "\<forall>t'. t' \<noteq> t \<longrightarrow> \<not> holds (threads s t') a"
  shows "\<exists>s'. enqueue_section t a n s = Some s' \<and> bb_inv s'"
proof -
  obtain as xs where rep: "bb_rep (bbuf s) as xs" and hist: "entered s = left s @ xs"
    using assms(1) by (auto simp: bb_inv_def)
  show ?thesis
  proof (cases "numElements (bbuf s) = capacity (bbuf s)")
    case True
    then show ?thesis
      using assms by (auto simp: bb_inv_def enqueue_section_def pending_ok_def)
  next
    case False
    then have "length as < capacity (bbuf s)" using rep by (auto simp: bb_rep_def)
    from bb_rep_enqueue [OF rep this assms(2-4)] obtain buf where
      buf: "enqueue_node (bbuf s) a n = Some buf" "bb_rep buf (as @ [a]) (xs @ [data n])"
        "numElements buf = numElements (bbuf s) + 1" "dom (nodes buf) = insert a (dom (nodes (bbuf s)))"
      by auto
    have no_full: "threads s t' \<noteq> WaitFull b m" for t' b m
      using assms(1) False by (auto simp: bb_inv_def)
    have no_empty: "numElements buf \<noteq> 1 \<Longrightarrow> threads s t' \<noteq> WaitEmpty" for t'
      using assms(1) buf(3) by (auto simp: bb_inv_def)
    have fresh: "nodes buf b = None \<longleftrightarrow> b \<noteq> a \<and> nodes (bbuf s) b = None" for b
      using buf(4) by (metis domIff insert_iff)
    show ?thesis
      using assms(1,5) False buf(1,2) hist no_full no_empty
      by (auto simp: bb_inv_def enqueue_section_def Let_def pending_ok_def fresh)
  qed
qed

lemma dequeue_section_inv:
  assumes "bb_inv s" and "\<And>a. \<not> holds (threads s t) a"
  shows "\<exists>s'. dequeue_section t s = Some s' \<and> bb_inv s'"
proof -
  obtain as xs where rep: "bb_rep (bbuf s) as xs" and hist: "entered s = left s @ xs"
    using assms(1) by (auto simp: bb_inv_def)
  show ?thesis
  proof (cases "numElements (bbuf s) = 0")
    case True
    then show ?thesis
      using assms by (auto simp: bb_inv_def dequeue_section_def pending_ok_def)
  next
    case False
    then have "as \<noteq> []" "xs \<noteq> []" using rep by (auto simp: bb_rep_def)
    from bb_rep_dequeue [OF rep this(1)] obtain buf where
      buf: "dequeue_node (bbuf s) = Some (buf, hd xs)" "bb_rep buf (tl as) (tl xs)"
        "capacity buf = capacity (bbuf s)" "numElements buf = numElements (bbuf s) - 1"
        "dom (nodes buf) \<subseteq> dom (nodes (bbuf s))"
      by auto
    have no_empty: "threads s t' \<noteq> WaitEmpty" for t'
      using assms(1) False by (auto simp: bb_inv_def)
    have no_full: "numElements buf \<noteq> capacity buf - 1 \<Longrightarrow> threads s t' \<noteq> WaitFull b m" for t' b m
      using assms(1) buf(3,4) False by (auto simp: bb_inv_def)
    have fresh: "nodes (bbuf s) b = None \<Longrightarrow> nodes buf b = None" for b
      using buf(5) by (metis domIff subsetD)
    have "entered s = (left s @ [hd xs]) @ tl xs" using hist \<open>xs \<noteq> []\<close> by simp
    then show ?thesis
      using assms False buf(1,2) no_full no_empty fresh
      by (auto simp: bb_inv_def dequeue_section_def Let_def pending_ok_def)
  qed
qed

lemma allocNode_next: "allocNode block src sz upTo = Some n \<Longrightarrow> nextPtr n = NULL"
  by (auto simp: allocNode_def Let_def bind_eq_Some_conv split: if_splits)

lemma inv_woken:
  assumes "bb_inv s" and "threads s t = WokenEnq a n"
  shows "a \<noteq> NULL" and "nodes (bbuf s) a = None" and "nextPtr n = NULL"
    and "\<forall>t'. t' \<noteq> t \<longrightarrow> \<not> holds (threads s t') a"
proof -
  have h: "holds (threads s t) a" by (simp add: assms(2))
  show "a \<noteq> NULL" "nodes (bbuf s) a = None" "\<forall>t'. t' \<noteq> t \<longrightarrow> \<not> holds (threads s t') a"
    using assms(1) h unfolding bb_inv_def pending_ok_def by blast+
  show "nextPtr n = NULL"
    using assms unfolding bb_inv_def pending_ok_def by blast
qed

lemma bb_step_inv:
  assumes "bb_step s s'" and "bb_inv s"
  shows "bb_inv s'"
  using assms
proof (cases rule: bb_step.cases)
  case (enqueue_call t a block src upTo n)
  then show ?thesis
    using enqueue_section_inv [of s a n t] allocNode_next assms(2) by fastforce
next
  case (enqueue_again t a n)
  from enqueue_section_inv [OF assms(2) inv_woken [OF assms(2) enqueue_again(1)]]
  show ?thesis using enqueue_again(2) by auto
next
  case (dequeue_call t)
  then show ?thesis using dequeue_section_inv [OF assms(2), of t] by auto
next
  case (dequeue_again t)
  then show ?thesis using dequeue_section_inv [OF assms(2), of t] by auto
next
  case (spurious_full t a n)
  then show ?thesis
    using assms(2) by (auto simp: bb_inv_def pending_ok_def holds_def)
next
  case (spurious_empty t)
  then show ?thesis
    using assms(2) by (auto simp: bb_inv_def pending_ok_def)
qed

lemma bb_start_inv: "allocBoundedBuffer True cap sz = Inr buf \<Longrightarrow> bb_inv (bb_start buf)"
  using bb_rep_alloc [of True cap sz buf] by (auto simp: bb_inv_def bb_start_def pending_ok_def)

lemma bb_reachable_inv: "bb_reachable s \<Longrightarrow> bb_inv s"
  by (induction rule: bb_reachable.induct) (auto intro: bb_start_inv bb_step_inv)

section \<open>Properties\<close>

text \<open>C26: In every interleaving of enqueues and dequeues the elements leave the buffer in the order in
  which they entered it, none is lost or duplicated, and the buffer never holds more than its
  capacity.\<close>

theorem bounded_buffer_fifo:
  assumes "bb_reachable s"
  shows "\<exists>xs. entered s = left s @ xs \<and> numElements (bbuf s) = length xs \<and>
           length xs \<le> capacity (bbuf s)"
proof -
  obtain as xs where "bb_rep (bbuf s) as xs" "entered s = left s @ xs"
    using bb_reachable_inv [OF assms] by (auto simp: bb_inv_def)
  then show ?thesis by (intro exI [of _ xs]) (auto simp: bb_rep_def)
qed

text \<open>C27: No wake-up is lost: a thread waits on \<open>empty\<close> only while the buffer is empty and on \<open>full\<close>
  only while it is full, so a producer and a consumer never wait at the same time.\<close>

theorem bounded_buffer_no_lost_wakeup:
  assumes "bb_reachable s"
  shows "(threads s t = WaitEmpty \<longrightarrow> numElements (bbuf s) = 0) \<and>
         (threads s t' = WaitFull a n \<longrightarrow> numElements (bbuf s) = capacity (bbuf s)) \<and>
         \<not> (threads s t = WaitEmpty \<and> threads s t' = WaitFull a n)"
proof -
  have inv: "bb_inv s" using assms by (rule bb_reachable_inv)
  have "0 < capacity (bbuf s)"
    using inv unfolding bb_inv_def bb_rep_def by blast
  moreover have "threads s t = WaitEmpty \<Longrightarrow> numElements (bbuf s) = 0"
    and "threads s t' = WaitFull a n \<Longrightarrow> numElements (bbuf s) = capacity (bbuf s)"
    using inv unfolding bb_inv_def by blast+
  ultimately show ?thesis by (metis less_irrefl)
qed

text \<open>A thread that is not waiting always gets through its critical section: the pointers
  that \<open>enqueue\<close> and \<open>dequeue\<close> follow are valid in every reachable state.\<close>

theorem bounded_buffer_no_fault:
  assumes "bb_reachable s"
  shows "(threads s t = WokenEnq a n \<longrightarrow> (\<exists>s'. enqueue_section t a n s = Some s')) \<and>
         (threads s t = WokenDeq \<or> threads s t = Outside \<longrightarrow> (\<exists>s'. dequeue_section t s = Some s')) \<and>
         (threads s t = Outside \<and> b \<noteq> NULL \<and> nodes (bbuf s) b = None \<and> (\<forall>t'. \<not> holds (threads s t') b) \<and>
          nextPtr m = NULL \<longrightarrow> (\<exists>s'. enqueue_section t b m s = Some s'))"
proof (intro conjI impI)
  have inv: "bb_inv s" using assms by (rule bb_reachable_inv)
  {
    assume th: "threads s t = WokenEnq a n"
    show "\<exists>s'. enqueue_section t a n s = Some s'"
      using enqueue_section_inv [OF inv inv_woken [OF inv th]] by blast
  next
    assume "threads s t = WokenDeq \<or> threads s t = Outside"
    then show "\<exists>s'. dequeue_section t s = Some s'"
      using dequeue_section_inv [OF inv, of t] by auto
  next
    assume "threads s t = Outside \<and> b \<noteq> NULL \<and> nodes (bbuf s) b = None \<and>
      (\<forall>t'. \<not> holds (threads s t') b) \<and> nextPtr m = NULL"
    then show "\<exists>s'. enqueue_section t b m s = Some s'"
      using enqueue_section_inv [OF inv, of b m t] by blast
  }
qed

text \<open>A run for the witnesses: with capacity 1, thread 1 enqueues the block \<open>''ab''\<close> at address 8,
  then thread 2 enqueues at address 16 and has to wait.\<close>

definition witness_buffer :: bounded_buffer where
  "witness_buffer = \<lparr>capacity = 1, numElements = 0, dataSize = 2, headPtr = NULL, tailPtr = NULL,
     nodes = Map.empty\<rparr>"

definition witness_waiting :: bb_monitor where
  "witness_waiting =
     \<lparr>bbuf = witness_buffer\<lparr>numElements := 1, headPtr := 8, tailPtr := 8,
        nodes := [8 \<mapsto> \<lparr>data = ''ab'', nextPtr = NULL\<rparr>]\<rparr>,
      threads = (\<lambda>_. Outside)(1 := Outside, 2 := WaitFull 16 \<lparr>data = ''cd'', nextPtr = NULL\<rparr>),
      entered = [''ab''], left = []\<rparr>"

lemma witness_reachable: "bb_reachable witness_waiting"
proof -
  let ?n = "\<lparr>data = ''ab'', nextPtr = NULL\<rparr>" and ?m = "\<lparr>data = ''cd'', nextPtr = NULL\<rparr>"
  let ?s0 = "bb_start witness_buffer"
  let ?s1 = "\<lparr>bbuf = witness_buffer\<lparr>numElements := 1, headPtr := 8, tailPtr := 8, nodes := [8 \<mapsto> ?n]\<rparr>,
      threads = (\<lambda>_. Outside)(1 := Outside), entered = [''ab''], left = []\<rparr>"
  have r0: "bb_reachable ?s0"
    by (rule bb_reachable.start [of 1 2]) (simp add: allocBoundedBuffer_def witness_buffer_def)
  have b: "broadcast_empty (\<lambda>_. Outside) = (\<lambda>_. Outside)"
    by (simp add: broadcast_empty_def fun_eq_iff)
  have "bb_step ?s0 ?s1"
    by (rule bb_step.enqueue_call [of _ 1 8 "''zz''" "''ab''" 0 ?n])
      (simp_all add: bb_start_def witness_buffer_def allocNode_def memcpy_def enqueue_section_def
        enqueue_node_def b)
  then have r1: "bb_reachable ?s1" using r0 by (rule bb_reachable.step [rotated])
  have "bb_step ?s1 witness_waiting"
    by (rule bb_step.enqueue_call [of _ 2 16 "''zz''" "''cd''" 0 ?m])
      (simp_all add: witness_waiting_def witness_buffer_def allocNode_def memcpy_def enqueue_section_def
        holds_def)
  then show ?thesis using r1 by (rule bb_reachable.step [rotated])
qed

theorem bounded_buffer_fifo_witness:
  "bb_reachable witness_waiting \<and> (\<exists>xs. [''ab''] = [] @ xs \<and> 1 = length xs \<and> length xs \<le> 1)"
  using bounded_buffer_fifo [OF witness_reachable] witness_reachable
  by (simp add: witness_waiting_def witness_buffer_def)

theorem bounded_buffer_no_lost_wakeup_witness:
  "bb_reachable witness_waiting \<and> numElements (bbuf witness_waiting) = capacity (bbuf witness_waiting)"
  using bounded_buffer_no_lost_wakeup [OF witness_reachable, of 0 2 16 "\<lparr>data = ''cd'', nextPtr = NULL\<rparr>"]
    witness_reachable
  by (simp add: witness_waiting_def)

theorem bounded_buffer_no_fault_witness:
  "bb_reachable witness_waiting \<and> (\<exists>s'. dequeue_section 1 witness_waiting = Some s')"
  using bounded_buffer_no_fault [OF witness_reachable, of 1] witness_reachable
  by (simp add: witness_waiting_def)

text \<open>A block that is put into the buffer and taken out again has the bytes that were copied in,
  as far as the destination has room for them.\<close>

theorem bounded_buffer_block_roundtrip:
  assumes "allocNode block src sz upTo = Some n" and "k = (if upTo \<noteq> 0 then upTo else sz)"
    and "sz \<le> length block" and "k \<le> destSize"
  shows "take k (copy_out sz destSize (data n)) = take k src \<and> k \<le> sz"
proof -
  have len: "k \<le> length src" and cp: "memcpy (take sz block) 0 (take k src) = Some (data n)"
    using assms(1) unfolding allocNode_def Let_def assms(2) [symmetric]
    by (auto simp: bind_eq_Some_conv split: if_splits)
  then have k: "k \<le> sz" and d: "data n = take k src @ drop k (take sz block)"
    using assms(3) by (auto simp: memcpy_def split: if_splits)
  show ?thesis
    using k len assms(4) by (auto simp: copy_out_def d min_def)
qed

theorem bounded_buffer_block_roundtrip_witness:
  "take 3 (copy_out 8 4 (data \<lparr>data = ''abcefgh'' @ [NUL], nextPtr = NULL\<rparr>)) = ''abc'' \<and> (3::nat) \<le> 8"
proof -
  have a: "allocNode (''xyzefgh'' @ [NUL]) ''abcd'' 8 3 = Some \<lparr>data = ''abcefgh'' @ [NUL], nextPtr = NULL\<rparr>"
    by (simp add: allocNode_def memcpy_def numeral_3_eq_3)
  show ?thesis
    using bounded_buffer_block_roundtrip [OF a, of 3 4] by (simp add: numeral_3_eq_3)
qed

end
