(* ===== verification/IclHash.thy ===== *)
theory IclHash
  imports Prelude
begin

text \<open>
  The hash table of \<^verbatim>\<open>src/src/icl_hash.c\<close>: an array of buckets, each a linked list of
  key/data entries with new entries at its head. \<open>icl_hash_t\<close> becomes the record \<open>icl_hash\<close>,
  a bucket the list of its entries from its head on; keys are C strings and the data of an
  entry is a value of a type parameter. A routine that may return NULL for want of memory takes
  the argument \<open>mem\<close>: whether its calls of \<open>malloc\<close> succeed.

  The invariant \<open>ht_wf\<close> says that every entry lies in the bucket of its key's hash, that the
  keys of a bucket are distinct and that \<open>nentries\<close> counts the entries. Under it the table
  is a finite map (\<open>ht_map\<close>), and the locale \<open>dictionary\<close> is the contract of that map which
  the file storage relies on.
\<close>

section \<open>Hashing and comparison of keys\<close>

definition ONE_EIGHTH :: nat where "ONE_EIGHTH = 4"
definition THREE_QUARTERS :: nat where "THREE_QUARTERS = 24"
definition HIGH_BITS :: "32 word" where "HIGH_BITS = NOT (drop_bit ONE_EIGHTH (NOT 0))"

fun hash_pjw_loop :: "32 word \<Rightarrow> cstring \<Rightarrow> 32 word" where
  "hash_pjw_loop hash_value [] = hash_value"
| "hash_pjw_loop hash_value (c # datum) =
     (let hv = push_bit ONE_EIGHTH hash_value + word_of_int (schar c);
          i = hv AND HIGH_BITS
      in hash_pjw_loop
           (if i \<noteq> 0 then (hv XOR drop_bit THREE_QUARTERS i) AND NOT HIGH_BITS else hv)
           datum)"

definition hash_pjw :: "cstring \<Rightarrow> 32 word" where
  "hash_pjw key = hash_pjw_loop 0 key"

definition string_compare :: "cstring \<Rightarrow> cstring \<Rightarrow> bool" where
  "string_compare a b \<longleftrightarrow> a = b"

lemma HIGH_BITS_value: "HIGH_BITS = 0xF0000000"
  by (simp add: HIGH_BITS_def ONE_EIGHTH_def mask_eq_exp_minus_1)

text \<open>The top four bits of the hash are folded back into it after every character.\<close>

lemma no_high_bits_bound:
  fixes w :: "32 word"
  assumes "w AND HIGH_BITS = 0"
  shows "unat w < 2 ^ 28"
proof -
  have mask: "NOT HIGH_BITS = (mask 28 :: 32 word)"
    by (simp add: HIGH_BITS_value mask_eq_exp_minus_1)
  have "w = w AND NOT HIGH_BITS"
  proof (rule bit_eqI)
    fix n
    have "\<not> bit (w AND HIGH_BITS) n" by (simp add: assms)
    then show "bit w n \<longleftrightarrow> bit (w AND NOT HIGH_BITS) n"
      by (auto simp: bit_and_iff bit_not_iff dest: bit_imp_le_length)
  qed
  then have "w = take_bit 28 w"
    by (simp add: mask take_bit_eq_mask)
  then have "unat w = take_bit 28 (unat w)"
    by (metis unsigned_take_bit_eq)
  then show ?thesis
    by (metis take_bit_nat_less_exp)
qed

lemma hash_pjw_loop_high_bits:
  "h AND HIGH_BITS = 0 \<Longrightarrow> hash_pjw_loop h key AND HIGH_BITS = 0"
proof (induction key arbitrary: h)
  case Nil
  then show ?case by simp
next
  case (Cons c key)
  show ?case
    by (simp add: Let_def) (intro conjI impI Cons.IH; simp add: and.assoc)
qed

lemma hash_pjw_bound: "unat (hash_pjw key) < 2 ^ 28"
  unfolding hash_pjw_def by (intro no_high_bits_bound hash_pjw_loop_high_bits) simp

section \<open>The table\<close>

record 'v icl_hash =
  nbuckets :: nat
  nentries :: int
  buckets :: "(cstring \<times> 'v) list list"
  hash_function :: "cstring \<Rightarrow> 32 word"
  hash_key_compare :: "cstring \<Rightarrow> cstring \<Rightarrow> bool"

definition icl_hash_create ::
  "bool \<Rightarrow> nat \<Rightarrow> (cstring \<Rightarrow> 32 word) option \<Rightarrow> (cstring \<Rightarrow> cstring \<Rightarrow> bool) option \<Rightarrow> 'v icl_hash option"
where
  "icl_hash_create mem n hf cmp =
     (if \<not> mem then None
      else Some \<lparr>nbuckets = n, nentries = 0, buckets = replicate n [],
                 hash_function = (case hf of Some f \<Rightarrow> f | None \<Rightarrow> hash_pjw),
                 hash_key_compare = (case cmp of Some f \<Rightarrow> f | None \<Rightarrow> string_compare)\<rparr>)"

text \<open>The bucket of a key: the hash is an \<open>unsigned int\<close>, reduced modulo the number of buckets.\<close>

definition hash_val :: "'v icl_hash \<Rightarrow> cstring \<Rightarrow> nat" where
  "hash_val ht key = unat (hash_function ht key) mod nbuckets ht"

fun find_in :: "(cstring \<Rightarrow> cstring \<Rightarrow> bool) \<Rightarrow> cstring \<Rightarrow> (cstring \<times> 'v) list \<Rightarrow> 'v option" where
  "find_in cmp key [] = None"
| "find_in cmp key ((k, d) # es) = (if cmp k key then Some d else find_in cmp key es)"

definition icl_hash_find :: "'v icl_hash \<Rightarrow> cstring \<Rightarrow> 'v option" where
  "icl_hash_find ht key = find_in (hash_key_compare ht) key (buckets ht ! hash_val ht key)"

text \<open>\<open>icl_hash_insert\<close> returns the table and whether an entry was made (NULL otherwise).\<close>

definition icl_hash_insert :: "bool \<Rightarrow> 'v icl_hash \<Rightarrow> cstring \<Rightarrow> 'v \<Rightarrow> 'v icl_hash \<times> bool" where
  "icl_hash_insert mem ht key data =
     (let h = hash_val ht key; b = buckets ht ! h in
      if find_in (hash_key_compare ht) key b \<noteq> None then (ht, False)
      else if \<not> mem then (ht, False)
      else (ht\<lparr>buckets := (buckets ht)[h := (key, data) # b], nentries := nentries ht + 1\<rparr>, True))"

text \<open>
  The scan of \<open>icl_hash_update_insert\<close> does not stop at the first match; after a match
  \<open>prev\<close> is the node just unlinked (\<open>gone\<close>), so unlinking the node after it has no effect on the
  list.
\<close>

fun update_scan :: "(cstring \<Rightarrow> cstring \<Rightarrow> bool) \<Rightarrow> cstring \<Rightarrow> bool \<Rightarrow> (cstring \<times> 'v) list \<Rightarrow> (cstring \<times> 'v) list" where
  "update_scan cmp key gone [] = []"
| "update_scan cmp key gone ((k, d) # es) =
     (if cmp k key
      then (if gone then (k, d) # update_scan cmp key False es else update_scan cmp key True es)
      else (k, d) # update_scan cmp key False es)"

definition icl_hash_update_insert :: "bool \<Rightarrow> 'v icl_hash \<Rightarrow> cstring \<Rightarrow> 'v \<Rightarrow> 'v icl_hash \<times> bool" where
  "icl_hash_update_insert mem ht key data =
     (let h = hash_val ht key; b = update_scan (hash_key_compare ht) key False (buckets ht ! h) in
      if \<not> mem then (ht\<lparr>buckets := (buckets ht)[h := b]\<rparr>, False)
      else (ht\<lparr>buckets := (buckets ht)[h := (key, data) # b], nentries := nentries ht + 1\<rparr>, True))"

text \<open>\<open>delete_in\<close> is the list without its first matching entry, \<open>None\<close> when there is none.\<close>

fun delete_in :: "(cstring \<Rightarrow> cstring \<Rightarrow> bool) \<Rightarrow> cstring \<Rightarrow> (cstring \<times> 'v) list \<Rightarrow> (cstring \<times> 'v) list option" where
  "delete_in cmp key [] = None"
| "delete_in cmp key ((k, d) # es) =
     (if cmp k key then Some es
      else (case delete_in cmp key es of None \<Rightarrow> None | Some es' \<Rightarrow> Some ((k, d) # es')))"

text \<open>\<open>icl_hash_delete\<close> returns the table and 0, or -1 when the key is not there.\<close>

definition icl_hash_delete :: "'v icl_hash \<Rightarrow> cstring \<Rightarrow> 'v icl_hash \<times> int" where
  "icl_hash_delete ht key =
     (let h = hash_val ht key in
      case delete_in (hash_key_compare ht) key (buckets ht ! h) of
        Some es \<Rightarrow> (ht\<lparr>buckets := (buckets ht)[h := es], nentries := nentries ht - 1\<rparr>, 0)
      | None \<Rightarrow> (ht, -1))"

text \<open>
  \<open>icl_hash_destroy\<close> frees the entries bucket by bucket, \<open>icl_hash_dump\<close> prints them in the
  same order: the entries freed, the keys and data printed.
\<close>

definition icl_hash_destroy :: "'v icl_hash \<Rightarrow> (cstring \<times> 'v) list" where
  "icl_hash_destroy ht = concat (map (\<lambda>i. buckets ht ! i) [0..<nbuckets ht])"

definition icl_hash_dump :: "('v \<Rightarrow> cstring) \<Rightarrow> 'v icl_hash \<Rightarrow> cstring list" where
  "icl_hash_dump show_ptr ht =
     concat (map (\<lambda>i. map (\<lambda>(k, d). ''icl_hash_dump: '' @ k @ '': '' @ show_ptr d @ [CHR 0x0A])
                        (buckets ht ! i)) [0..<nbuckets ht])"

section \<open>The table as a map\<close>

definition ht_wf :: "'v icl_hash \<Rightarrow> bool" where
  "ht_wf ht \<longleftrightarrow>
     0 < nbuckets ht \<and> length (buckets ht) = nbuckets ht \<and> hash_key_compare ht = string_compare \<and>
     (\<forall>i < nbuckets ht. distinct (map fst (buckets ht ! i))) \<and>
     (\<forall>i < nbuckets ht. \<forall>k \<in> fst ` set (buckets ht ! i). hash_val ht k = i) \<and>
     nentries ht = int (sum_list (map length (buckets ht)))"

definition ht_map :: "'v icl_hash \<Rightarrow> cstring \<rightharpoonup> 'v" where
  "ht_map ht key = map_of (buckets ht ! hash_val ht key) key"

lemma hash_val_less: "ht_wf ht \<Longrightarrow> hash_val ht key < nbuckets ht"
  by (simp add: ht_wf_def hash_val_def)

lemma ht_wf_hash:
  "ht_wf ht \<Longrightarrow> i < nbuckets ht \<Longrightarrow> k \<in> fst ` set (buckets ht ! i) \<Longrightarrow> hash_val ht k = i"
  unfolding ht_wf_def by blast

lemma ht_wf_bucket:
  assumes "ht_wf ht"
  shows "distinct (map fst (buckets ht ! hash_val ht key))"
    and "hash_val ht key < length (buckets ht)"
    and "k \<in> fst ` set (buckets ht ! hash_val ht key) \<Longrightarrow> hash_val ht k = hash_val ht key"
  using assms hash_val_less [OF assms, of key] by (auto simp: ht_wf_def)

lemma find_in_map_of: "find_in string_compare key es = map_of es key"
  by (induction es) (auto simp: string_compare_def)

lemma delete_in_None: "delete_in string_compare key es = None \<longleftrightarrow> map_of es key = None"
  by (induction es) (auto simp: string_compare_def split: option.splits)

lemma delete_in_Some:
  "distinct (map fst es) \<Longrightarrow> delete_in string_compare key es = Some es' \<Longrightarrow>
     es' = filter (\<lambda>(k, d). k \<noteq> key) es \<and> length es = Suc (length es')"
proof (induction es arbitrary: es')
  case Nil
  then show ?case by simp
next
  case (Cons e es)
  obtain k d where e: "e = (k, d)" by force
  show ?case
  proof (cases "k = key")
    case True
    with Cons.prems e have "es' = es" "key \<notin> fst ` set es"
      by (auto simp: string_compare_def)
    then show ?thesis using True e by (force intro: filter_True [symmetric])
  next
    case False
    with Cons e show ?thesis by (auto simp: string_compare_def split: option.splits)
  qed
qed

lemma update_scan_distinct:
  "distinct (map fst es) \<Longrightarrow>
     update_scan string_compare key gone es =
       (if gone \<and> es \<noteq> [] \<and> fst (hd es) = key then es else filter (\<lambda>(k, d). k \<noteq> key) es)"
proof (induction es arbitrary: gone)
  case Nil
  then show ?case by simp
next
  case (Cons e es)
  obtain k d where e: "e = (k, d)" by force
  have "key \<notin> fst ` set es \<Longrightarrow> filter (\<lambda>(k, d). k \<noteq> key) es = es"
    by (force intro: filter_True)
  then show ?case
    using Cons e by (cases es) (auto simp: string_compare_def)
qed

text \<open>Every mutator writes back one bucket; what that does to the map and the invariant.\<close>

lemma ht_map_write_bucket:
  assumes "ht_wf ht"
  shows "ht_map (ht\<lparr>buckets := (buckets ht)[hash_val ht key := b], nentries := n\<rparr>) k =
           (if hash_val ht k = hash_val ht key then map_of b k else ht_map ht k)"
  using ht_wf_bucket(2) [OF assms] by (simp add: ht_map_def hash_val_def)

lemma ht_wf_write_bucket:
  assumes "ht_wf ht" and "distinct (map fst b)"
    and "\<And>k. k \<in> fst ` set b \<Longrightarrow> hash_val ht k = hash_val ht key"
    and "n = nentries ht + int (length b) - int (length (buckets ht ! hash_val ht key))"
  shows "ht_wf (ht\<lparr>buckets := (buckets ht)[hash_val ht key := b], nentries := n\<rparr>)"
proof -
  let ?h = "hash_val ht key"
  have h: "?h < length (buckets ht)"
    using assms(1) by (rule ht_wf_bucket)
  have "length (buckets ht ! ?h) \<le> sum_list (map length (buckets ht))"
    using h by (intro sum_list_member_le nth_mem)
  moreover have "sum_list (map length ((buckets ht)[?h := b])) =
      sum_list (map length (buckets ht)) + length b - length (buckets ht ! ?h)"
    using h by (simp add: map_update sum_list_update)
  ultimately have "n = int (sum_list (map length ((buckets ht)[?h := b])))"
    using assms(1,4) by (simp add: ht_wf_def)
  then show ?thesis
    using assms(1-3) h by (auto simp: ht_wf_def hash_val_def nth_list_update)
qed

section \<open>The operations on the map\<close>

lemma ht_create:
  assumes "0 < n"
  obtains ht where "icl_hash_create True n None None = Some ht"
    and "ht_wf ht" and "ht_map ht = Map.empty" and "nentries ht = 0"
    and "hash_function ht = hash_pjw" and "nbuckets ht = n"
proof -
  let ?ht = "\<lparr>nbuckets = n, nentries = 0, buckets = replicate n [],
    hash_function = hash_pjw, hash_key_compare = string_compare\<rparr> :: 'a icl_hash"
  have "hash_val ?ht k < n" for k
    using assms by (simp add: hash_val_def)
  then have "ht_map ?ht = Map.empty"
    by (simp add: ht_map_def fun_eq_iff)
  moreover have "ht_wf ?ht"
    using assms by (simp add: ht_wf_def sum_list_replicate)
  ultimately show thesis
    by (intro that [of ?ht]) (simp_all add: icl_hash_create_def)
qed

lemma ht_find: "ht_wf ht \<Longrightarrow> icl_hash_find ht key = ht_map ht key"
  by (simp add: icl_hash_find_def ht_map_def ht_wf_def find_in_map_of)

lemma ht_insert_old: "ht_wf ht \<Longrightarrow> ht_map ht key \<noteq> None \<Longrightarrow> icl_hash_insert mem ht key data = (ht, False)"
  by (simp add: icl_hash_insert_def Let_def ht_wf_def find_in_map_of ht_map_def)

lemma ht_insert_new:
  assumes "ht_wf ht" and "ht_map ht key = None"
  shows "snd (icl_hash_insert True ht key data)"
    and "ht_wf (fst (icl_hash_insert True ht key data))"
    and "ht_map (fst (icl_hash_insert True ht key data)) = (ht_map ht)(key \<mapsto> data)"
proof -
  let ?b = "(key, data) # buckets ht ! hash_val ht key"
  have eq: "icl_hash_insert True ht key data =
      (ht\<lparr>buckets := (buckets ht)[hash_val ht key := ?b], nentries := nentries ht + 1\<rparr>, True)"
    using assms by (simp add: icl_hash_insert_def Let_def ht_wf_def find_in_map_of ht_map_def)
  have new: "key \<notin> fst ` set (buckets ht ! hash_val ht key)"
    using assms(2) by (simp add: ht_map_def map_of_eq_None_iff)
  show "snd (icl_hash_insert True ht key data)" by (simp add: eq)
  show "ht_wf (fst (icl_hash_insert True ht key data))"
    unfolding eq fst_conv
  proof (rule ht_wf_write_bucket [OF assms(1)])
    show "distinct (map fst ?b)"
      using new ht_wf_bucket(1) [OF assms(1), of key] by simp
    fix k assume "k \<in> fst ` set ?b"
    then consider "k = key" | "k \<in> fst ` set (buckets ht ! hash_val ht key)" by auto
    then show "hash_val ht k = hash_val ht key"
      by cases (simp, rule ht_wf_bucket(3) [OF assms(1)])
  qed simp
  show "ht_map (fst (icl_hash_insert True ht key data)) = (ht_map ht)(key \<mapsto> data)"
    unfolding eq fst_conv
    by (rule ext) (simp add: ht_map_write_bucket [OF assms(1)], auto simp: ht_map_def)
qed

lemma ht_delete_missing: "ht_wf ht \<Longrightarrow> ht_map ht key = None \<Longrightarrow> icl_hash_delete ht key = (ht, -1)"
  by (simp add: icl_hash_delete_def Let_def ht_wf_def ht_map_def delete_in_None split: option.splits)

lemma ht_delete_old:
  assumes "ht_wf ht" and "ht_map ht key \<noteq> None"
  shows "snd (icl_hash_delete ht key) = 0"
    and "ht_wf (fst (icl_hash_delete ht key))"
    and "ht_map (fst (icl_hash_delete ht key)) = (ht_map ht)(key := None)"
proof -
  let ?b = "buckets ht ! hash_val ht key"
  have cmp: "hash_key_compare ht = string_compare" using assms(1) by (simp add: ht_wf_def)
  from assms(2) obtain es where es: "delete_in string_compare key ?b = Some es"
    using delete_in_None [of key ?b] by (auto simp: ht_map_def)
  from delete_in_Some [OF ht_wf_bucket(1) [OF assms(1)] es]
  have es': "es = filter (\<lambda>(k, d). k \<noteq> key) ?b" "length ?b = Suc (length es)" by auto
  have eq: "icl_hash_delete ht key =
      (ht\<lparr>buckets := (buckets ht)[hash_val ht key := es], nentries := nentries ht - 1\<rparr>, 0)"
    by (simp add: icl_hash_delete_def Let_def cmp es)
  have sub: "fst ` set es \<subseteq> fst ` set ?b" "distinct (map fst es)"
    unfolding es'(1) using ht_wf_bucket(1) [OF assms(1)] by (auto simp: distinct_map_filter)
  show "snd (icl_hash_delete ht key) = 0" by (simp add: eq)
  show "ht_wf (fst (icl_hash_delete ht key))"
    unfolding eq fst_conv
  proof (rule ht_wf_write_bucket [OF assms(1) sub(2)])
    show "k \<in> fst ` set es \<Longrightarrow> hash_val ht k = hash_val ht key" for k
      using sub(1) ht_wf_bucket(3) [OF assms(1)] by blast
  qed (simp add: es'(2))
  show "ht_map (fst (icl_hash_delete ht key)) = (ht_map ht)(key := None)"
    unfolding eq fst_conv
    by (rule ext) (simp add: ht_map_write_bucket [OF assms(1)] es'(1) map_of_filter_neq,
      auto simp: ht_map_def)
qed

text \<open>The number of entries is the number of keys.\<close>

lemma ht_dom:
  assumes "ht_wf ht"
  shows "dom (ht_map ht) = (\<Union>i < nbuckets ht. fst ` set (buckets ht ! i))"
proof -
  have "k \<in> dom (ht_map ht) \<longleftrightarrow> k \<in> fst ` set (buckets ht ! hash_val ht k)" for k
    by (simp only: domIff ht_map_def map_of_eq_None_iff not_not)
  moreover have "k \<in> fst ` set (buckets ht ! hash_val ht k) \<longleftrightarrow>
      (\<exists>i < nbuckets ht. k \<in> fst ` set (buckets ht ! i))" for k
    using hash_val_less [OF assms, of k] ht_wf_hash [OF assms, of _ k] by metis
  ultimately show ?thesis by blast
qed

lemma ht_nentries:
  assumes "ht_wf ht"
  shows "finite (dom (ht_map ht))" and "nentries ht = int (card (dom (ht_map ht)))"
proof -
  let ?S = "\<lambda>i. fst ` set (buckets ht ! i)"
  show "finite (dom (ht_map ht))" by (simp add: ht_dom [OF assms])
  have disj: "?S i \<inter> ?S j = {}" if "i < nbuckets ht" "j < nbuckets ht" "i \<noteq> j" for i j
    using ht_wf_hash [OF assms that(1)] ht_wf_hash [OF assms that(2)] that(3) by blast
  have "card (dom (ht_map ht)) = (\<Sum>i < nbuckets ht. card (?S i))"
    unfolding ht_dom [OF assms] by (rule card_UN_disjoint) (simp_all add: disj)
  also have "\<dots> = (\<Sum>i < nbuckets ht. length (buckets ht ! i))"
  proof (rule sum.cong)
    fix i assume "i \<in> {..<nbuckets ht}"
    then have "distinct (map fst (buckets ht ! i))" using assms by (simp add: ht_wf_def)
    then show "card (?S i) = length (buckets ht ! i)"
      using distinct_card by fastforce
  qed simp
  also have "\<dots> = sum_list (map length (buckets ht))"
    using assms by (simp add: ht_wf_def sum_list_sum_nth atLeast0LessThan)
  finally show "nentries ht = int (card (dom (ht_map ht)))"
    using assms by (simp add: ht_wf_def)
qed

section \<open>The contract of the table\<close>

text \<open>
  What the file storage relies on: the three operations act as lookup, guarded update and
  guarded deletion of a finite map, and report whether the key was there.
\<close>

locale dictionary =
  fixes find :: "'t \<Rightarrow> 'k \<Rightarrow> 'd option"
    and insert :: "'t \<Rightarrow> 'k \<Rightarrow> 'd \<Rightarrow> 't \<times> bool"
    and delete :: "'t \<Rightarrow> 'k \<Rightarrow> 't \<times> int"
    and contents :: "'t \<Rightarrow> 'k \<rightharpoonup> 'd"
    and invar :: "'t \<Rightarrow> bool"
  assumes find_contents: "invar t \<Longrightarrow> find t k = contents t k"
    and insert_present: "invar t \<Longrightarrow> contents t k \<noteq> None \<Longrightarrow> insert t k d = (t, False)"
    and insert_absent: "invar t \<Longrightarrow> contents t k = None \<Longrightarrow>
      snd (insert t k d) \<and> invar (fst (insert t k d)) \<and> contents (fst (insert t k d)) = (contents t)(k \<mapsto> d)"
    and delete_absent: "invar t \<Longrightarrow> contents t k = None \<Longrightarrow> delete t k = (t, -1)"
    and delete_present: "invar t \<Longrightarrow> contents t k \<noteq> None \<Longrightarrow>
      snd (delete t k) = 0 \<and> invar (fst (delete t k)) \<and> contents (fst (delete t k)) = (contents t)(k := None)"

text \<open>A sequence of operations, on the table and on the map.\<close>

datatype ('k, 'd) dict_op = Insert 'k 'd | Delete 'k

fun dict_step :: "('t \<Rightarrow> 'k \<Rightarrow> 'd \<Rightarrow> 't \<times> bool) \<Rightarrow> ('t \<Rightarrow> 'k \<Rightarrow> 't \<times> int) \<Rightarrow> ('k, 'd) dict_op \<Rightarrow> 't \<Rightarrow> 't" where
  "dict_step ins del (Insert k d) t = fst (ins t k d)"
| "dict_step ins del (Delete k) t = fst (del t k)"

fun map_step :: "('k, 'd) dict_op \<Rightarrow> ('k \<rightharpoonup> 'd) \<Rightarrow> ('k \<rightharpoonup> 'd)" where
  "map_step (Insert k d) m = (if m k = None then m(k \<mapsto> d) else m)"
| "map_step (Delete k) m = m(k := None)"

context dictionary begin

lemma insert_invar [simp, intro]: "invar t \<Longrightarrow> invar (fst (insert t k d))"
  using insert_present insert_absent by (cases "contents t k") force+

lemma delete_invar [simp, intro]: "invar t \<Longrightarrow> invar (fst (delete t k))"
  using delete_present delete_absent by (cases "contents t k") force+

lemma contents_insert:
  "invar t \<Longrightarrow> contents (fst (insert t k d)) = map_step (Insert k d) (contents t)"
  using insert_present insert_absent by (cases "contents t k") force+

lemma contents_delete:
  "invar t \<Longrightarrow> contents (fst (delete t k)) = map_step (Delete k) (contents t)"
  using delete_present delete_absent by (cases "contents t k") (force simp: fun_upd_idem)+

lemma find_insert:
  "invar t \<Longrightarrow> contents t k = None \<Longrightarrow> find (fst (insert t k d)) k' = (if k' = k then Some d else find t k')"
  by (simp add: find_contents contents_insert)

lemma find_delete:
  "invar t \<Longrightarrow> find (fst (delete t k)) k' = (if k' = k then None else find t k')"
  by (simp add: find_contents contents_delete)

lemma delete_insert_contents:
  "invar t \<Longrightarrow> contents t k = None \<Longrightarrow> contents (fst (delete (fst (insert t k d)) k)) = contents t"
  by (simp add: contents_insert contents_delete fun_upd_idem)

lemma step_refines:
  "invar t \<Longrightarrow> invar (dict_step insert delete op t) \<and>
     contents (dict_step insert delete op t) = map_step op (contents t)"
  by (cases op) (simp_all add: contents_insert contents_delete del: map_step.simps)

lemma run_refines:
  "invar t \<Longrightarrow> invar (fold (dict_step insert delete) ops t) \<and>
     contents (fold (dict_step insert delete) ops t) = fold map_step ops (contents t)"
  by (induction ops arbitrary: t) (simp_all add: step_refines)

lemma find_run:
  "invar t \<Longrightarrow> find (fold (dict_step insert delete) ops t) k = fold map_step ops (contents t) k"
  using run_refines [of t ops] by (simp add: find_contents)

end

text \<open>A dictionary that also counts its keys.\<close>

locale counted_dictionary = dictionary +
  fixes count :: "'t \<Rightarrow> int"
  assumes count_dom: "invar t \<Longrightarrow> finite (dom (contents t)) \<and> count t = int (card (dom (contents t)))"
begin

lemma count_insert_absent:
  "invar t \<Longrightarrow> contents t k = None \<Longrightarrow> count (fst (insert t k d)) = count t + 1"
  using count_dom [of t] count_dom [OF insert_invar, of t k d]
  by (simp add: contents_insert domIff)

lemma count_delete_present:
  assumes "invar t" and "contents t k \<noteq> None"
  shows "count (fst (delete t k)) = count t - 1"
proof -
  have "k \<in> dom (contents t)" using assms(2) by (simp add: domIff)
  then have "0 < card (dom (contents t))"
    using count_dom [OF assms(1)] by (auto simp: card_gt_0_iff)
  then show ?thesis
    using count_dom [OF assms(1)] count_dom [OF delete_invar, OF assms(1), of k] \<open>k \<in> _\<close>
    by (simp add: contents_delete [OF assms(1)] of_nat_diff)
qed

end

text \<open>The code's table fulfils the contract as long as its allocations succeed.\<close>

interpretation icl: counted_dictionary icl_hash_find "icl_hash_insert True" icl_hash_delete ht_map ht_wf nentries
proof unfold_locales
  fix t :: "'a icl_hash" and k d
  assume wf: "ht_wf t"
  show "icl_hash_find t k = ht_map t k" using wf by (rule ht_find)
  show "ht_map t k \<noteq> None \<Longrightarrow> icl_hash_insert True t k d = (t, False)"
    using wf by (rule ht_insert_old)
  show "ht_map t k = None \<Longrightarrow>
      snd (icl_hash_insert True t k d) \<and> ht_wf (fst (icl_hash_insert True t k d)) \<and>
      ht_map (fst (icl_hash_insert True t k d)) = (ht_map t)(k \<mapsto> d)"
    using ht_insert_new [OF wf] by blast
  show "ht_map t k = None \<Longrightarrow> icl_hash_delete t k = (t, -1)"
    using wf by (rule ht_delete_missing)
  show "ht_map t k \<noteq> None \<Longrightarrow>
      snd (icl_hash_delete t k) = 0 \<and> ht_wf (fst (icl_hash_delete t k)) \<and>
      ht_map (fst (icl_hash_delete t k)) = (ht_map t)(k := None)"
    using ht_delete_old [OF wf] by blast
  show "finite (dom (ht_map t)) \<and> nentries t = int (card (dom (ht_map t)))"
    using ht_nentries [OF wf] by blast
qed

section \<open>The table implements the map\<close>

text \<open>C24: the hash table refines a finite map. Whatever sequence of insertions and deletions is
  run on a freshly created table (of any positive number of buckets, with the default hash and
  comparison), a search finds exactly what the same sequence leaves in a map where an insertion
  of a present key changes nothing, and \<open>nentries\<close> is the number of its keys.\<close>

theorem icl_hash_refines_map:
  fixes ht :: "'v icl_hash"
  assumes "icl_hash_create True n None None = Some ht" and "0 < n"
  shows "icl_hash_find (fold (dict_step (icl_hash_insert True) icl_hash_delete) ops ht) key =
           fold map_step ops Map.empty key \<and>
         nentries (fold (dict_step (icl_hash_insert True) icl_hash_delete) ops ht) =
           int (card (dom (fold map_step ops (Map.empty :: cstring \<rightharpoonup> 'v))))"
proof -
  obtain ht' :: "'v icl_hash" where "icl_hash_create True n None None = Some ht'"
    and ht': "ht_wf ht'" "ht_map ht' = Map.empty"
    using ht_create [OF assms(2)] by metis
  with assms(1) have wf: "ht_wf ht" and empty: "ht_map ht = Map.empty"
    by simp_all
  have "nentries (fold (dict_step (icl_hash_insert True) icl_hash_delete) ops ht) =
           int (card (dom (fold map_step ops (Map.empty :: cstring \<rightharpoonup> 'v))))"
    using icl.run_refines [OF wf, of ops]
      icl.count_dom [of "fold (dict_step (icl_hash_insert True) icl_hash_delete) ops ht"]
    by (simp add: empty)
  then show ?thesis using icl.find_run [OF wf] by (simp add: empty)
qed

theorem icl_hash_refines_map_witness:
  "icl_hash_find (fold (dict_step (icl_hash_insert True) icl_hash_delete)
       [Insert ''/a'' 1, Insert ''/b'' 2, Insert ''/a'' (3::nat), Delete ''/b'']
       (the (icl_hash_create True 2 None None))) ''/a'' = Some 1 \<and>
   nentries (fold (dict_step (icl_hash_insert True) icl_hash_delete)
       [Insert ''/a'' 1, Insert ''/b'' 2, Insert ''/a'' (3::nat), Delete ''/b'']
       (the (icl_hash_create True 2 None None))) = 1"
proof -
  obtain ht :: "nat icl_hash" where ht: "icl_hash_create True 2 None None = Some ht"
    by (simp add: icl_hash_create_def)
  show ?thesis
    unfolding ht option.sel icl_hash_refines_map [OF ht zero_less_numeral, THEN conjunct1]
      icl_hash_refines_map [OF ht zero_less_numeral, THEN conjunct2] by simp
qed

text \<open>
  The other insertion, \<open>icl_hash_update_insert\<close>, replaces the entry of its key. It unlinks the
  old entry and links a new one, but counts the new one only.
\<close>

lemma update_insert_bucket:
  assumes "ht_wf ht"
  shows "icl_hash_update_insert True ht key data =
     (ht\<lparr>buckets := (buckets ht)[hash_val ht key :=
          (key, data) # filter (\<lambda>(k, d). k \<noteq> key) (buckets ht ! hash_val ht key)],
         nentries := nentries ht + 1\<rparr>, True)"
  using ht_wf_bucket(1) [OF assms, of key] assms
  by (simp add: icl_hash_update_insert_def Let_def ht_wf_def update_scan_distinct)

text \<open>\<open>icl_hash_update_insert\<close> is map update on what a search finds, for every well-formed
  table; but it adds one to \<open>nentries\<close> even when the key was there and was replaced, after which
  the count is one more than the number of keys.\<close>

theorem icl_hash_update_insert_overcounts:
  fixes ht :: "'v icl_hash"
  assumes wf: "ht_wf ht"
  shows "icl_hash_find (fst (icl_hash_update_insert True ht key data)) k =
           ((icl_hash_find ht)(key \<mapsto> data)) k"
    and "nentries (fst (icl_hash_update_insert True ht key data)) =
           int (card (dom (icl_hash_find (fst (icl_hash_update_insert True ht key data)))))
             + (if icl_hash_find ht key = None then 0 else 1)"
proof -
  let ?ht' = "fst (icl_hash_update_insert True ht key data)"
  have cmp: "hash_key_compare ?ht' = string_compare"
    using wf by (simp add: update_insert_bucket [OF wf] ht_wf_def)
  have find': "icl_hash_find ?ht' k = ht_map ?ht' k" for k
    using cmp by (simp add: icl_hash_find_def ht_map_def find_in_map_of)
  have find: "icl_hash_find ht = ht_map ht"
    by (rule ext) (rule ht_find [OF wf])
  have upd: "icl_hash_find ?ht' = (icl_hash_find ht)(key \<mapsto> data)"
    unfolding find
    by (rule ext) (simp add: find', simp add: update_insert_bucket [OF wf]
      ht_map_write_bucket [OF wf] map_of_filter_neq, auto simp: ht_map_def)
  then show "icl_hash_find ?ht' k = ((icl_hash_find ht)(key \<mapsto> data)) k" by simp
  have "nentries ?ht' = int (card (dom (ht_map ht))) + 1" "finite (dom (ht_map ht))"
    using ht_nentries [OF wf] by (simp_all add: update_insert_bucket [OF wf])
  then show "nentries ?ht' = int (card (dom (icl_hash_find ?ht')))
             + (if icl_hash_find ht key = None then 0 else 1)"
    unfolding upd find by (simp add: card_insert_if domIff)
qed

theorem icl_hash_update_insert_overcounts_witness:
  "let ht = fst (icl_hash_insert True (the (icl_hash_create True 3 None None)) ''/a'' (1::nat));
       ht' = fst (icl_hash_update_insert True ht ''/a'' 2)
   in icl_hash_find ht' ''/a'' = Some 2 \<and> nentries ht' = 2 \<and> dom (icl_hash_find ht') = {''/a''}"
proof -
  obtain ht0 :: "nat icl_hash" where ht0: "icl_hash_create True 3 None None = Some ht0"
    and wf0: "ht_wf ht0" and e0: "ht_map ht0 = Map.empty"
    using ht_create [of 3] by auto
  let ?ht = "fst (icl_hash_insert True ht0 ''/a'' (1::nat))"
  let ?ht' = "fst (icl_hash_update_insert True ?ht ''/a'' 2)"
  have wf: "ht_wf ?ht" and "ht_map ?ht = [''/a'' \<mapsto> 1]"
    using ht_insert_new [OF wf0, of "''/a''"] by (simp_all add: e0)
  then have find: "icl_hash_find ?ht = [''/a'' \<mapsto> 1]"
    by (simp add: fun_eq_iff ht_find)
  then have find': "icl_hash_find ?ht' k = ([''/a'' \<mapsto> 2]) k" for k
    using icl_hash_update_insert_overcounts(1) [OF wf, of "''/a''" 2 k] by simp
  then have "dom (icl_hash_find ?ht') = {''/a''}"
    by (auto simp: dom_def split: if_splits)
  then show ?thesis
    using icl_hash_update_insert_overcounts(2) [OF wf, of "''/a''" 2] find find'
    by (simp add: ht0 Let_def)
qed

end
