(* ===== verification/RleCompression.thy ===== *)
theory RleCompression
  imports Prelude
begin

text \<open>
  Run-length compression of file contents, \<^verbatim>\<open>src/src/rleCompression.c\<close>. A run of 2 to 9
  equal bytes is stored as the byte twice and a digit, a longer run as several of these, a single
  byte as itself. The loops are recursive functions over the index variables of the code; every
  read and write goes through \<open>peek\<close> and \<open>poke\<close>, so that \<open>None\<close> means an access outside an
  allocated block. Indices and sizes are plain \<open>nat\<close>: they are bounded by the size of a block
  that was allocated.

  The specification \<open>rle_spec\<close> says what the compressed bytes are; \<open>RLEcompress\<close> computes it
  within its block of twice the input, and \<open>RLEdecompress\<close> inverts it.
\<close>

section \<open>Compression\<close>

text \<open>The inner \<open>while\<close> that counts a run; \<open>contIdx\<close> is incremented inside its condition.\<close>

function count_run :: "buffer \<Rightarrow> nat \<Rightarrow> nat \<Rightarrow> nat \<Rightarrow> nat \<Rightarrow> nat option" where
  "count_run data origSize inIdx contIdx count =
     (if contIdx < origSize - 1 then do {
        a \<leftarrow> peek data inIdx;
        b \<leftarrow> peek data (contIdx + 1);
        if a = b then count_run data origSize inIdx (contIdx + 1) (count + 1) else Some count
      } else Some count)"
  by pat_completeness auto
termination by (relation "measure (\<lambda>(data, origSize, inIdx, contIdx, count). origSize - contIdx)") auto

definition digit_char :: "nat \<Rightarrow> char" where
  "digit_char n = char_of (48 + n)"

text \<open>The loop that breaks a count down into counts of at most 9.\<close>

function emit_nines :: "buffer \<Rightarrow> nat \<Rightarrow> nat \<Rightarrow> char \<Rightarrow> nat \<Rightarrow> (buffer \<times> nat \<times> nat \<times> nat) option" where
  "emit_nines ret retIdx retSize c tmpCount =
     (if 9 < tmpCount then do {
        ret \<leftarrow> poke ret retIdx c;
        ret \<leftarrow> poke ret (retIdx + 1) c;
        ret \<leftarrow> poke ret (retIdx + 2) (CHR ''9'');
        emit_nines ret (retIdx + 3) (retSize + 3) c (tmpCount - 9)
      } else Some (ret, retIdx, retSize, tmpCount))"
  by pat_completeness auto
termination by (relation "measure (\<lambda>(ret, retIdx, retSize, c, tmpCount). tmpCount)") auto

declare count_run.simps [simp del] emit_nines.simps [simp del]

lemma count_run_ge: "count_run data n i j k = Some r \<Longrightarrow> k \<le> r"
proof (induction data n i j k rule: count_run.induct)
  case (1 data n i j k)
  from "1.prems" consider "r = k" | a where "j < n - 1" "peek data i = Some a"
      "peek data (j + 1) = Some a" "count_run data n i (j + 1) (k + 1) = Some r"
    by (subst (asm) count_run.simps) (auto split: if_splits simp: bind_eq_Some_conv)
  then show ?case using "1.IH" by cases fastforce+
qed

function rle_loop :: "buffer \<Rightarrow> nat \<Rightarrow> nat \<Rightarrow> buffer \<Rightarrow> nat \<Rightarrow> nat \<Rightarrow> (buffer \<times> nat) option" where
  "rle_loop data origSize inIdx ret retIdx retSize =
     (if inIdx < origSize then do {
        count \<leftarrow> count_run data origSize inIdx inIdx 1;
        c \<leftarrow> peek data inIdx;
        (ret, retIdx, retSize, tmpCount) \<leftarrow> emit_nines ret retIdx retSize c count;
        ret \<leftarrow> poke ret retIdx c;
        if 1 < tmpCount then do {
          ret \<leftarrow> poke ret (retIdx + 1) c;
          ret \<leftarrow> poke ret (retIdx + 2) (digit_char tmpCount);
          rle_loop data origSize (inIdx + count) ret (retIdx + 3) (retSize + 1 + 2)
        } else rle_loop data origSize (inIdx + count) ret (retIdx + 1) (retSize + 1)
      } else Some (ret, retSize))"
  by pat_completeness auto
termination
  by (relation "measure (\<lambda>(data, origSize, inIdx, ret, retIdx, retSize). origSize - inIdx)")
    (auto dest: count_run_ge)

declare rle_loop.simps [simp del]

definition RLEcompress :: "buffer \<Rightarrow> nat \<Rightarrow> (buffer \<times> nat) option" where
  "RLEcompress data origSize = rle_loop data origSize 0 (calloc (2 * origSize)) 0 0"

section \<open>Decompression\<close>

text \<open>The number of occurrences is an \<open>int\<close> difference converted to \<open>size_t\<close>.\<close>

definition occurrences :: "char \<Rightarrow> nat" where
  "occurrences d = nat ((schar d - 48) mod 2 ^ 64)"

function fill :: "buffer \<Rightarrow> nat \<Rightarrow> char \<Rightarrow> nat \<Rightarrow> nat \<Rightarrow> nat \<Rightarrow> (buffer \<times> nat) option" where
  "fill ret retIdx c i occ uncompressedSize =
     (if i < occ \<and> retIdx < uncompressedSize then do {
        ret \<leftarrow> poke ret retIdx c;
        fill ret (retIdx + 1) c (i + 1) occ uncompressedSize
      } else Some (ret, retIdx))"
  by pat_completeness auto
termination by (relation "measure (\<lambda>(ret, retIdx, c, i, occ, usize). usize - retIdx)") auto

function rld_loop :: "buffer \<Rightarrow> nat \<Rightarrow> nat \<Rightarrow> nat \<Rightarrow> buffer \<Rightarrow> nat \<Rightarrow> buffer option" where
  "rld_loop data compressedSize uncompressedSize inIdx ret retIdx =
     (if inIdx < compressedSize then do {
        c \<leftarrow> peek data inIdx;
        ret \<leftarrow> poke ret retIdx c;
        c1 \<leftarrow> peek data (inIdx + 1);
        if c = c1 then do {
          d \<leftarrow> peek data (inIdx + 2);
          (ret, retIdx) \<leftarrow> fill ret (retIdx + 1) c 1 (occurrences d) uncompressedSize;
          rld_loop data compressedSize uncompressedSize (inIdx + 2 + 1) ret retIdx
        } else rld_loop data compressedSize uncompressedSize (inIdx + 1) ret (retIdx + 1)
      } else Some ret)"
  by pat_completeness auto
termination
  by (relation "measure (\<lambda>(data, csize, usize, inIdx, ret, retIdx). csize - inIdx)") auto

declare fill.simps [simp del] rld_loop.simps [simp del]

definition RLEdecompress :: "buffer \<Rightarrow> nat \<Rightarrow> nat \<Rightarrow> nat \<Rightarrow> buffer option" where
  "RLEdecompress data compressedSize uncompressedSize extraAllocation =
     rld_loop data compressedSize uncompressedSize 0 (calloc (uncompressedSize + extraAllocation)) 0"

section \<open>The compressed bytes\<close>

fun chunk :: "char \<Rightarrow> nat \<Rightarrow> char list" where
  "chunk c n =
     (if 9 < n then [c, c, CHR ''9''] @ chunk c (n - 9)
      else if 1 < n then [c, c, digit_char n] else [c])"

declare chunk.simps [simp del]

function rle_spec :: "char list \<Rightarrow> char list" where
  "rle_spec [] = []"
| "rle_spec (x # xs) =
     chunk x (Suc (length (takeWhile ((=) x) xs))) @ rle_spec (dropWhile ((=) x) xs)"
  by pat_completeness auto
termination
  by (relation "measure length") (auto simp: le_imp_less_Suc length_dropWhile_le)

lemma chunk_long: "9 < n \<Longrightarrow> chunk c n = [c, c, CHR ''9''] @ chunk c (n - 9)"
  by (subst chunk.simps) simp

lemma chunk_mid: "1 < n \<Longrightarrow> n \<le> 9 \<Longrightarrow> chunk c n = [c, c, digit_char n]"
  by (subst chunk.simps) simp

lemma chunk_one: "n \<le> 1 \<Longrightarrow> chunk c n = [c]"
  by (subst chunk.simps) simp

text \<open>The three shapes of a chunk, with the induction hypothesis of the long one.\<close>

lemma chunk_induct [consumes 1, case_names Long Mid One]:
  assumes "1 \<le> (n :: nat)"
    and "\<And>n. 9 < n \<Longrightarrow> P (n - 9) \<Longrightarrow> P n" and "\<And>n. 1 < n \<Longrightarrow> n \<le> 9 \<Longrightarrow> P n" and "P 1"
  shows "P n"
  using assms(1)
proof (induction n rule: less_induct)
  case (less n)
  consider "9 < n" | "1 < n" "n \<le> 9" | "n = 1" using less.prems by linarith
  then show ?case using assms(2-4) less.IH [of "n - 9"] by cases auto
qed

lemma length_chunk_cases:
  "length (chunk c n) =
     (if 9 < n then 3 + length (chunk c (n - 9)) else if 1 < n then 3 else 1)"
  by (subst chunk.simps) simp

lemma length_chunk: "1 \<le> n \<Longrightarrow> length (chunk c n) + 1 \<le> 2 * n"
  by (induction n rule: chunk_induct) (subst length_chunk_cases; simp; linarith?)+

lemma length_chunk_strict: "3 \<le> n \<Longrightarrow> length (chunk c n) + 2 \<le> 2 * n"
  using length_chunk [of "n - 9" c] by (subst length_chunk_cases) (cases "9 < n"; simp; linarith?)

lemma length_chunk_3_2: "1 \<le> n \<Longrightarrow> 2 * length (chunk c n) \<le> 3 * n"
  by (induction n rule: chunk_induct) (subst length_chunk_cases; simp; linarith?)+

lemma run_split: "length (takeWhile P xs) + length (dropWhile P xs) = length xs"
  by (metis length_append takeWhile_dropWhile_id)

lemma length_rle_spec_3_2: "2 * length (rle_spec xs) \<le> 3 * length xs"
proof (induction xs rule: rle_spec.induct)
  case (2 x xs)
  then show ?case
    using length_chunk_3_2 [of "Suc (length (takeWhile ((=) x) xs))" x] run_split [of "(=) x" xs]
    by simp
qed simp

text \<open>The content is at most three times as long as its code.\<close>

lemma length_chunk_lower: "1 \<le> n \<Longrightarrow> n \<le> 3 * length (chunk c n)"
  by (induction n rule: chunk_induct) (subst length_chunk_cases; simp; linarith?)+

lemma length_rle_spec_lower: "length xs \<le> 3 * length (rle_spec xs)"
proof (induction xs rule: rle_spec.induct)
  case (2 x xs)
  then show ?case
    using length_chunk_lower [of "Suc (length (takeWhile ((=) x) xs))" x] run_split [of "(=) x" xs]
    by simp
qed simp

lemma length_rle_spec: "xs \<noteq> [] \<Longrightarrow> length (rle_spec xs) + 1 \<le> 2 * length xs"
  using length_rle_spec_3_2 [of xs] by (cases xs) auto

lemma length_rle_spec_strict:
  assumes "xs \<noteq> []" and "\<nexists>c. xs = [c]" and "\<nexists>c. xs = [c, c]"
  shows "length (rle_spec xs) + 2 \<le> 2 * length xs"
proof -
  obtain x ys where xs: "xs = x # ys" using assms(1) by (cases xs) auto
  let ?n = "Suc (length (takeWhile ((=) x) ys))" and ?zs = "dropWhile ((=) x) ys"
  show ?thesis
  proof (cases "?zs = []")
    case False
    then show ?thesis
      using length_rle_spec [OF False] length_chunk [of ?n x] run_split [of "(=) x" ys] by (simp add: xs)
  next
    case True
    then have tw: "takeWhile ((=) x) ys = ys" by (metis append_Nil2 takeWhile_dropWhile_id)
    have all: "\<forall>y \<in> set ys. y = x" using True by (auto simp: dropWhile_eq_Nil_conv)
    have "3 \<le> ?n"
    proof (rule ccontr)
      assume "\<not> 3 \<le> ?n"
      moreover have "length ys = length (takeWhile ((=) x) ys)"
        by (simp only: tw)
      ultimately have "length ys = 0 \<or> length ys = 1" by linarith
      then consider "ys = []" | y where "ys = [y]" by (auto simp: length_Suc_conv)
      then show False using assms(2,3) xs all by cases auto
    qed
    from length_chunk_strict [OF this, of x] have "length (chunk x ?n) + 2 \<le> 2 * ?n" .
    moreover have "?n = length xs" by (simp only: xs tw list.size)
    moreover have "rle_spec xs = chunk x ?n" by (simp only: xs rle_spec.simps True append_Nil2)
    ultimately show ?thesis by (simp only:)
  qed
qed

section \<open>Compression computes the specification\<close>

lemma count_run_takeWhile:
  assumes "j < length data" and "i < length data"
  shows "count_run data (length data) i j k =
           Some (k + length (takeWhile ((=) (data ! i)) (drop (Suc j) data)))"
  using assms
proof (induction "length data - j" arbitrary: j k)
  case 0
  then show ?case by simp
next
  case (Suc n)
  show ?case
  proof (cases "Suc j < length data")
    case False
    then have "drop (Suc j) data = []" by simp
    then show ?thesis using False by (subst count_run.simps) auto
  next
    case True
    then have "drop (Suc j) data = data ! Suc j # drop (Suc (Suc j)) data"
      by (simp add: Cons_nth_drop_Suc)
    moreover have "n = length data - Suc j" using Suc.hyps(2) by simp
    ultimately show ?thesis
      using True Suc.hyps(1) [of "Suc j" "Suc k"] Suc.prems
      by (subst count_run.simps) (auto simp: peek_def)
  qed
qed

lemma poke_out:
  assumes "k = length out" and "0 < m"
  shows "poke (out @ calloc m) k c = Some ((out @ [c]) @ calloc (m - 1))"
  using assms by (simp add: poke_calloc)

text \<open>The digits of \<open>chunk\<close> up to its last part are what \<open>emit_nines\<close> writes.\<close>

lemma poke3:
  assumes "3 \<le> m" and "k = length out"
  shows "Option.bind (poke (out @ calloc m) k a) (\<lambda>r.
           Option.bind (poke r (k + 1) b) (\<lambda>r. Option.bind (poke r (k + 2) c) f)) =
         f ((out @ [a, b, c]) @ calloc (m - 3))"
proof -
  obtain m' where m: "m = m' + 3" using assms(1) by (metis le_add_diff_inverse2)
  have "out @ calloc m = out @ NUL # NUL # NUL # calloc m'"
    by (simp add: m calloc_def numeral_3_eq_3)
  then show ?thesis
    using poke_append_here [of out NUL _ a] poke_append_here [of "out @ [a]" NUL _ b]
      poke_append_here [of "out @ [a, b]" NUL _ c]
    by (simp add: m assms(2))
qed

lemma emit_nines_chunk:
  assumes "1 \<le> n" and "length (chunk c n) \<le> m"
  obtains p k where "emit_nines (out @ calloc m) (length out) s c n =
      Some ((out @ p) @ calloc (m - length p), length (out @ p), s + length p, k)"
    and "chunk c n = p @ chunk c k" and "1 \<le> k" and "k \<le> 9"
  using assms
proof (induction n arbitrary: out m s thesis rule: chunk_induct)
  case (Long n)
  let ?q = "[c, c, CHR ''9'']"
  have m: "3 \<le> m" "length (chunk c (n - 9)) \<le> m - 3"
    using Long.prems(2) Long.hyps by (simp_all add: chunk_long)
  obtain p k where *: "emit_nines ((out @ ?q) @ calloc (m - 3)) (length (out @ ?q)) (s + 3) c (n - 9) =
      Some (((out @ ?q) @ p) @ calloc (m - 3 - length p), length ((out @ ?q) @ p), s + 3 + length p, k)"
    "chunk c (n - 9) = p @ chunk c k" "1 \<le> k" "k \<le> 9"
    using Long.IH [OF _ m(2)] by blast
  have "emit_nines (out @ calloc m) (length out) s c n =
      emit_nines ((out @ ?q) @ calloc (m - 3)) (length (out @ ?q)) (s + 3) c (n - 9)"
    by (subst emit_nines.simps) (simp only: Long.hyps if_True poke3 [OF m(1) refl] length_append list.size add_0_right, simp add: numeral_3_eq_3)
  with * Long.hyps show ?case
    by (intro Long.prems(1) [of "?q @ p" k]) (simp_all add: chunk_long numeral_3_eq_3)
next
  case (Mid n)
  then show ?case
    by (intro Mid.prems(1) [of "[]" n]) (subst emit_nines.simps, simp_all)
next
  case One
  show ?case by (rule One.prems(1) [of "[]" 1]) (subst emit_nines.simps, simp_all)
qed

lemma rle_loop_run:
  assumes "i < length data" and "n = Suc (length (takeWhile ((=) (data ! i)) (drop (Suc i) data)))"
    and "length (chunk (data ! i) n) \<le> m"
  shows "rle_loop data (length data) i (out @ calloc m) (length out) (length out) =
     rle_loop data (length data) (i + n) ((out @ chunk (data ! i) n) @ calloc (m - length (chunk (data ! i) n)))
       (length (out @ chunk (data ! i) n)) (length (out @ chunk (data ! i) n))"
proof -
  let ?c = "data ! i"
  have n: "1 \<le> n" by (simp add: assms(2))
  have run: "count_run data (length data) i i 1 = Some n"
    using count_run_takeWhile [OF assms(1) assms(1), of 1] by (simp add: assms(2))
  obtain p k where e: "emit_nines (out @ calloc m) (length out) (length out) ?c n =
      Some ((out @ p) @ calloc (m - length p), length (out @ p), length out + length p, k)"
    and ch: "chunk ?c n = p @ chunk ?c k" and k: "1 \<le> k" "k \<le> 9"
    using emit_nines_chunk [OF n assms(3)] by blast
  have len: "length p + length (chunk ?c k) \<le> m" using assms(3) ch by simp
  show ?thesis
  proof (cases "1 < k")
    case True
    then have m: "3 \<le> m - length p" and ck: "chunk ?c k = [?c, ?c, digit_char k]"
      using len k by (simp_all add: chunk_mid)
    show ?thesis
      by (subst rle_loop.simps)
        (simp only: assms(1) if_True run e peek_def Option.bind.simps prod.case True poke3 [OF m refl] ch ck
          append_assoc [symmetric], simp add: numeral_3_eq_3)
  next
    case False
    then have m: "0 < m - length p" and ck: "chunk ?c k = [?c]"
      using len k by (simp_all add: chunk_one)
    show ?thesis
      by (subst rle_loop.simps)
        (simp only: assms(1) if_True if_False run e peek_def Option.bind.simps prod.case False
          poke_out [OF refl m] ch ck append_assoc [symmetric], simp)
  qed
qed

lemma rle_loop_spec:
  assumes "length (rle_spec (drop i data)) \<le> m" and "i \<le> length data"
  shows "rle_loop data (length data) i (out @ calloc m) (length out) (length out) =
     Some ((out @ rle_spec (drop i data)) @ calloc (m - length (rle_spec (drop i data))),
           length (out @ rle_spec (drop i data)))"
  using assms
proof (induction "length data - i" arbitrary: i m out rule: less_induct)
  case less
  show ?case
  proof (cases "i < length data")
    case False
    then show ?thesis by (subst rle_loop.simps) simp
  next
    case True
    let ?c = "data ! i" and ?xs = "drop (Suc i) data"
    let ?n = "Suc (length (takeWhile ((=) ?c) ?xs))"
    have "drop i data = ?c # ?xs" using True by (simp add: Cons_nth_drop_Suc)
    moreover have "drop (i + ?n) data = dropWhile ((=) ?c) ?xs"
      by (simp add: dropWhile_eq_drop add.commute)
    ultimately have spec: "rle_spec (drop i data) = chunk ?c ?n @ rle_spec (drop (i + ?n) data)"
      by simp
    have m: "length (chunk ?c ?n) \<le> m"
      "length (rle_spec (drop (i + ?n) data)) \<le> m - length (chunk ?c ?n)"
      using less.prems(1) by (simp_all add: spec)
    have "length (takeWhile ((=) ?c) ?xs) \<le> length ?xs" by (rule length_takeWhile_le)
    then have le: "i + ?n \<le> length data" and dec: "length data - (i + ?n) < length data - i"
      using True by simp_all
    show ?thesis
      unfolding rle_loop_run [OF True refl m(1)] less.hyps [OF dec m(2) le] spec
      by simp
  qed
qed

lemma RLEcompress_spec:
  "RLEcompress data (length data) =
     Some (rle_spec data @ calloc (2 * length data - length (rle_spec data)), length (rle_spec data))"
proof -
  have "length (rle_spec data) \<le> 2 * length data"
    using length_rle_spec_3_2 [of data] by simp
  then show ?thesis
    using rle_loop_spec [of 0 data "2 * length data" "[]"] by (simp add: RLEcompress_def)
qed

section \<open>Decompression inverts the specification\<close>

lemma occurrences_digit:
  assumes "n \<le> 9"
  shows "occurrences (digit_char n) = n"
proof -
  have "(of_char (char_of (48 + n) :: char) :: nat) = 48 + n"
    using assms by simp
  then have "(of_char (digit_char n) :: int) = 48 + int n"
    using of_nat_of_char [of "digit_char n", where 'a = int] by (simp add: digit_char_def)
  then show ?thesis
    using assms by (simp add: occurrences_def schar_def)
qed

lemma fill_calloc:
  assumes "i \<le> occ" and "length out + (occ - i) \<le> usize" and "occ - i \<le> m"
  shows "fill (out @ calloc m) (length out) c i occ usize =
     Some ((out @ replicate (occ - i) c) @ calloc (m - (occ - i)), length out + (occ - i))"
  using assms
proof (induction "occ - i" arbitrary: i m out)
  case 0
  then show ?case by (subst fill.simps) simp
next
  case (Suc k)
  have m: "0 < m" and k: "occ - i = Suc k" "k = occ - Suc i" using Suc by linarith+
  have IH: "fill ((out @ [c]) @ calloc (m - 1)) (length (out @ [c])) c (Suc i) occ usize =
      Some (((out @ [c]) @ replicate k c) @ calloc (m - 1 - k), length (out @ [c]) + k)"
    using Suc.prems Suc.hyps(1) [OF k(2), of "out @ [c]" "m - 1"] k by simp
  have "i < occ \<and> length out < usize" using Suc.prems(2) k(1) by linarith
  then show ?case
    using IH k by (subst fill.simps) (simp add: poke_out [OF refl m])
qed

lemma fill_full: "usize \<le> retIdx \<Longrightarrow> fill ret retIdx c i occ usize = Some (ret, retIdx)"
  by (subst fill.simps) simp

text \<open>One counted part: the byte twice and a digit.\<close>

lemma rld_digit:
  assumes "2 \<le> n" and "n \<le> 9" and "n \<le> m" and "length out + n \<le> usize" and "length pre + 3 \<le> csize"
  shows "rld_loop (pre @ [c, c, digit_char n] @ rest) csize usize (length pre) (out @ calloc m) (length out) =
     rld_loop (pre @ [c, c, digit_char n] @ rest) csize usize (length pre + 3)
       ((out @ replicate n c) @ calloc (m - n)) (length (out @ replicate n c))"
proof -
  let ?b = "pre @ [c, c, digit_char n] @ rest"
  have pk: "peek ?b (length pre) = Some c" "peek ?b (length pre + 1) = Some c"
      "peek ?b (length pre + 2) = Some (digit_char n)"
    by (simp_all add: peek_def nth_append)
  have f: "fill ((out @ [c]) @ calloc (m - 1)) (length out + 1) c 1 n usize =
      Some ((out @ replicate n c) @ calloc (m - n), length out + n)"
  proof -
    have "replicate n c = c # replicate (n - 1) c" using assms(1) by (cases n) simp_all
    then show ?thesis
      using fill_calloc [of 1 n "out @ [c]" usize "m - 1" c] assms by simp
  qed
  have lt: "length pre < csize" using assms(5) by simp
  have m: "0 < m" using assms(1,3) by simp
  show ?thesis
    by (subst rld_loop.simps)
      (simp only: lt if_True pk Option.bind.simps poke_out [OF refl m] occurrences_digit [OF assms(2)]
        f prod.case, simp add: numeral_3_eq_3)
qed

lemma rld_single:
  assumes "c \<noteq> d" and "0 < m" and "length pre < csize"
  shows "rld_loop (pre @ c # d # rest) csize usize (length pre) (out @ calloc m) (length out) =
     rld_loop (pre @ c # d # rest) csize usize (length pre + 1)
       ((out @ [c]) @ calloc (m - 1)) (length (out @ [c]))"
proof -
  have pk: "peek (pre @ c # d # rest) (length pre) = Some c" "peek (pre @ c # d # rest) (length pre + 1) = Some d"
    by (simp_all add: peek_def nth_append)
  show ?thesis
    by (subst rld_loop.simps)
      (simp only: assms if_True if_False pk Option.bind.simps poke_out [OF refl assms(2)], simp)
qed

lemma rld_end: "csize \<le> i \<Longrightarrow> rld_loop data csize usize i ret r = Some ret"
  by (subst rld_loop.simps) simp

lemma digit_char_9: "CHR ''9'' = digit_char 9"
  by (simp add: digit_char_def char_of_def bit_0)

text \<open>Up to the last part of a run.\<close>

lemma rld_nines:
  assumes "1 \<le> n" and "n \<le> m" and "length out + n \<le> usize" and "length (pre @ chunk c n) \<le> csize"
  shows "\<exists>q k. chunk c n = q @ chunk c k \<and> 1 \<le> k \<and> k \<le> 9 \<and> k \<le> n \<and>
    rld_loop (pre @ chunk c n @ rest) csize usize (length pre) (out @ calloc m) (length out) =
    rld_loop ((pre @ q) @ chunk c k @ rest) csize usize (length (pre @ q))
      ((out @ replicate (n - k) c) @ calloc (m - (n - k))) (length (out @ replicate (n - k) c))"
  using assms
proof (induction n arbitrary: pre out m rule: chunk_induct)
  case (Long n)
  let ?q = "[c, c, digit_char 9]"
  have ch: "chunk c n = ?q @ chunk c (n - 9)"
    using Long.hyps by (simp add: chunk_long digit_char_9)
  have p: "n - 9 \<le> m - 9" "length (out @ replicate 9 c) + (n - 9) \<le> usize"
    "length ((pre @ ?q) @ chunk c (n - 9)) \<le> csize"
    using Long.prems Long.hyps by (simp_all add: ch)
  obtain q k where IH: "chunk c (n - 9) = q @ chunk c k" "1 \<le> k" "k \<le> 9" "k \<le> n - 9"
    "rld_loop ((pre @ ?q) @ chunk c (n - 9) @ rest) csize usize (length (pre @ ?q))
        ((out @ replicate 9 c) @ calloc (m - 9)) (length (out @ replicate 9 c)) =
      rld_loop (((pre @ ?q) @ q) @ chunk c k @ rest) csize usize (length ((pre @ ?q) @ q))
        (((out @ replicate 9 c) @ replicate (n - 9 - k) c) @ calloc (m - 9 - (n - 9 - k)))
        (length ((out @ replicate 9 c) @ replicate (n - 9 - k) c))"
    using Long.IH [OF p] by blast
  have rep: "replicate 9 c @ replicate (n - 9 - k) c = replicate (n - k) c" and m: "m - 9 - (n - 9 - k) = m - (n - k)"
    using Long.hyps IH(4) Long.prems by (simp_all flip: replicate_add)
  have "rld_loop (pre @ ?q @ chunk c (n - 9) @ rest) csize usize (length pre) (out @ calloc m) (length out) =
      rld_loop (pre @ ?q @ chunk c (n - 9) @ rest) csize usize (length pre + 3)
        ((out @ replicate 9 c) @ calloc (m - 9)) (length (out @ replicate 9 c))"
    using Long.prems Long.hyps by (intro rld_digit) (simp_all add: ch)
  also have "\<dots> = rld_loop ((pre @ ?q @ q) @ chunk c k @ rest) csize usize (length (pre @ ?q @ q))
      ((out @ replicate (n - k) c) @ calloc (m - (n - k))) (length (out @ replicate (n - k) c))"
    using IH(5) unfolding append_assoc rep m by (simp add: numeral_3_eq_3)
  finally show ?case
    using IH(1-4) by (intro exI [of _ "?q @ q"] exI [of _ k]) (simp add: ch)
next
  case (Mid n)
  then show ?case by (intro exI [of _ "[]"] exI [of _ n]) simp
next
  case One
  then show ?case by (intro exI [of _ "[]"] exI [of _ 1]) simp
qed

lemma rld_chunk:
  assumes "1 \<le> n" and "n \<le> m" and "length out + n \<le> usize"
    and "length (pre @ chunk c n) \<le> csize" and "d \<noteq> c"
  shows "rld_loop (pre @ chunk c n @ d # rest) csize usize (length pre) (out @ calloc m) (length out) =
     rld_loop (pre @ chunk c n @ d # rest) csize usize (length (pre @ chunk c n))
       ((out @ replicate n c) @ calloc (m - n)) (length (out @ replicate n c))"
proof -
  obtain q k where q: "chunk c n = q @ chunk c k" "1 \<le> k" "k \<le> 9" "k \<le> n"
    and eq: "rld_loop (pre @ chunk c n @ d # rest) csize usize (length pre) (out @ calloc m) (length out) =
       rld_loop ((pre @ q) @ chunk c k @ d # rest) csize usize (length (pre @ q))
         ((out @ replicate (n - k) c) @ calloc (m - (n - k))) (length (out @ replicate (n - k) c))"
    using rld_nines [OF assms(1-4)] by metis
  have rep: "replicate (n - k) c @ replicate k c @ zs = replicate n c @ zs" for zs
    using q by (simp flip: append_assoc replicate_add)
  have m: "m - (n - k) - k = m - n" "0 < m - (n - k)" "k \<le> m - (n - k)"
    using q assms(2) by simp_all
  have rep1: "replicate (n - Suc 0) c @ c # zs = replicate n c @ zs" for zs
    using assms(1) by (cases n) (simp_all add: replicate_app_Cons_same)
  show ?thesis
  proof (cases "k = 1")
    case True
    then show ?thesis
      using rld_single [of c d "m - (n - k)" "pre @ q" csize rest usize "out @ replicate (n - k) c"]
        eq q m assms(4,5) by (simp add: chunk_one rep1)
  next
    case False
    then show ?thesis
      using rld_digit [of k "m - (n - k)" "out @ replicate (n - k) c" usize "pre @ q" csize c "d # rest"]
        eq q m assms(3,4) rep [of "calloc (m - n)"] by (simp add: chunk_mid numeral_3_eq_3)
  qed
qed

lemma rld_last:
  assumes "1 \<le> n" and "n \<le> m" and "usize = length out + n" and "2 \<le> p"
    and "csize = length (pre @ chunk c n)"
  shows "rld_loop (pre @ chunk c n @ calloc p) csize usize (length pre) (out @ calloc m) (length out) =
     Some ((out @ replicate n c) @ calloc (m - n))"
proof -
  obtain p' where "p = Suc (Suc p')" using assms(4) by (metis le_Suc_ex add_2_eq_Suc)
  then have p: "calloc p = NUL # NUL # calloc p'" by (simp add: calloc_Suc)
  have le: "length out + n \<le> usize" "length (pre @ chunk c n) \<le> csize" using assms by simp_all
  obtain q k where q: "chunk c n = q @ chunk c k" "1 \<le> k" "k \<le> 9" "k \<le> n"
    and eq: "rld_loop (pre @ chunk c n @ calloc p) csize usize (length pre) (out @ calloc m) (length out) =
       rld_loop ((pre @ q) @ chunk c k @ calloc p) csize usize (length (pre @ q))
         ((out @ replicate (n - k) c) @ calloc (m - (n - k))) (length (out @ replicate (n - k) c))"
    using rld_nines [OF assms(1,2) le] by metis
  have rep: "replicate (n - k) c @ replicate k c @ zs = replicate n c @ zs" for zs
    using q by (simp flip: append_assoc replicate_add)
  have rep1: "replicate (n - Suc 0) c @ c # zs = replicate n c @ zs" for zs
    using assms(1) by (cases n) (simp_all add: replicate_app_Cons_same)
  have m: "m - (n - k) - k = m - n" "0 < m - (n - k)" "k \<le> m - (n - k)"
    using q assms(2) by simp_all
  show ?thesis
  proof (cases "k = 1")
    case False
    then show ?thesis
      using rld_digit [of k "m - (n - k)" "out @ replicate (n - k) c" usize "pre @ q" csize c "calloc p"]
        eq q m assms(3,5) rep [of "calloc (m - n)"] by (simp add: chunk_mid numeral_3_eq_3 rld_end)
  next
    case k: True
    show ?thesis
    proof (cases "c = NUL")
      case False
      then show ?thesis
        using rld_single [of c NUL "m - (n - k)" "pre @ q" csize "NUL # calloc p'" usize "out @ replicate (n - k) c"]
          eq q k m assms(3,5) by (simp add: chunk_one p rld_end rep1)
    next
      case True
      let ?b = "(pre @ q) @ [NUL] @ calloc p"
      have pk: "peek ?b (length (pre @ q)) = Some NUL" "peek ?b (length (pre @ q) + 1) = Some NUL"
          "peek ?b (length (pre @ q) + 2) = Some NUL"
        by (simp_all add: peek_def nth_append p)
      have lt: "length (pre @ q) < csize" "csize \<le> length (pre @ q) + 2 + 1"
        using assms(5) q k by (simp_all add: chunk_one)
      have full: "usize \<le> length (out @ replicate (n - k) c) + 1" using assms(1,3) k by simp
      have "rld_loop ?b csize usize (length (pre @ q)) ((out @ replicate (n - k) c) @ calloc (m - (n - k)))
              (length (out @ replicate (n - k) c)) =
            Some (((out @ replicate (n - k) c) @ [NUL]) @ calloc (m - (n - k) - 1))"
        by (subst rld_loop.simps)
          (simp only: lt(1) if_True pk Option.bind.simps poke_out [OF refl m(2)] fill_full [OF full]
            prod.case rld_end [OF lt(2)] simp_thms)
      with eq k q True m(1) rep1 show ?thesis by (simp add: chunk_one)
    qed
  qed
qed

lemma hd_chunk: "1 \<le> n \<Longrightarrow> \<exists>zs. chunk c n = c # zs"
  by (subst chunk.simps) simp

lemma rld_spec:
  assumes "xs \<noteq> []" and "2 \<le> p" and "usize = length out + length xs"
    and "csize = length (pre @ rle_spec xs)" and "length xs \<le> m"
  shows "rld_loop (pre @ rle_spec xs @ calloc p) csize usize (length pre) (out @ calloc m) (length out) =
     Some ((out @ xs) @ calloc (m - length xs))"
  using assms
proof (induction xs arbitrary: pre out m rule: rle_spec.induct)
  case 1
  then show ?case by simp
next
  case (2 x xs)
  let ?t = "takeWhile ((=) x) xs" and ?d = "dropWhile ((=) x) xs"
  let ?n = "Suc (length ?t)"
  have "\<forall>y \<in> set ?t. y = x" by (auto dest: set_takeWhileD)
  then have t: "?t = replicate (length ?t) x" by (simp add: replicate_eqI)
  have split: "replicate ?n x @ ?d = x # xs"
    by (metis t takeWhile_dropWhile_id append_Cons replicate_Suc)
  then have len: "?n + length ?d = length (x # xs)"
    by (metis length_append length_replicate)
  show ?case
  proof (cases "?d = []")
    case True
    have n: "?n = length (x # xs)" and xs: "replicate ?n x = x # xs" and sp: "rle_spec (x # xs) = chunk x ?n"
      using len split by (simp_all only: True rle_spec.simps list.size append_Nil2)
    have "rld_loop (pre @ chunk x ?n @ calloc p) csize usize (length pre) (out @ calloc m) (length out) =
        Some ((out @ replicate ?n x) @ calloc (m - ?n))"
      by (rule rld_last) (use "2.prems"(2-) sp n in simp_all)
    then show ?thesis unfolding sp xs unfolding n .
  next
    case False
    then obtain d ds where d: "?d = d # ds" by (cases ?d) auto
    have "d \<noteq> x" using d by (metis dropWhile_eq_Cons_conv)
    obtain zs where zs: "rle_spec ?d = d # zs"
      using hd_chunk [of "Suc (length (takeWhile ((=) d) ds))" d] by (auto simp: d)
    have IH: "rld_loop ((pre @ chunk x ?n) @ rle_spec ?d @ calloc p) csize usize (length (pre @ chunk x ?n))
        ((out @ replicate ?n x) @ calloc (m - ?n)) (length (out @ replicate ?n x)) =
        Some (((out @ replicate ?n x) @ ?d) @ calloc (m - ?n - length ?d))"
      using "2.prems" len by (intro "2.IH" [OF False]) simp_all
    have "rld_loop (pre @ rle_spec (x # xs) @ calloc p) csize usize (length pre) (out @ calloc m) (length out) =
        rld_loop (pre @ chunk x ?n @ d # (zs @ calloc p)) csize usize (length (pre @ chunk x ?n))
          ((out @ replicate ?n x) @ calloc (m - ?n)) (length (out @ replicate ?n x))"
      using rld_chunk [of ?n m out usize pre x csize d "zs @ calloc p"] "2.prems" len \<open>d \<noteq> x\<close>
      by (simp add: zs)
    also have "\<dots> = Some (((out @ replicate ?n x) @ ?d) @ calloc (m - ?n - length ?d))"
      using IH by (simp add: zs)
    finally show ?thesis using split len by simp
  qed
qed

section \<open>The round trip\<close>

text \<open>
  The one content for which the decompressor leaves its block is a single NUL byte: the byte after
  it is again NUL, so the code takes it for the start of a counted part and reads a digit past the
  end of the two allocated bytes.
\<close>

lemma RLEdecompress_spec:
  assumes "data \<noteq> [NUL]"
  shows "RLEdecompress (rle_spec data @ calloc (2 * length data - length (rle_spec data)))
           (length (rle_spec data)) (length data) extra = Some (data @ calloc extra)"
proof -
  let ?p = "2 * length data - length (rle_spec data)" and ?m = "length data + extra"
  consider "data = []" | c where "data = [c]" "c \<noteq> NUL" | c where "data = [c, c]"
    | "data \<noteq> []" "2 \<le> ?p"
    using assms length_rle_spec_strict [of data] by fastforce
  then show ?thesis
  proof cases
    case 1
    then show ?thesis by (simp add: RLEdecompress_def rld_end)
  next
    case (2 c)
    then show ?thesis
      using rld_single [of c NUL ?m "[]" 1 "[]" 1 "[]"]
      by (simp add: RLEdecompress_def rld_end chunk_one calloc_Suc calloc_def)
  next
    case (3 c)
    then show ?thesis
      using rld_digit [of 2 ?m "[]" 2 "[]" 3 c "calloc 1"]
      by (simp add: RLEdecompress_def rld_end chunk_mid numeral_2_eq_2 numeral_3_eq_3 calloc_def)
  next
    case 4
    then show ?thesis
      using rld_spec [OF 4, of "length data" "[]" "length (rle_spec data)" "[]" ?m]
      by (simp add: RLEdecompress_def)
  qed
qed

lemma single_NUL:
  "RLEcompress [NUL] 1 = Some ([NUL, NUL], 1) \<and> RLEdecompress [NUL, NUL] 1 1 extra = None"
proof
  show "RLEcompress [NUL] 1 = Some ([NUL, NUL], 1)"
    using RLEcompress_spec [of "[NUL]"] by (simp add: chunk_one calloc_def)
  show "RLEdecompress [NUL, NUL] 1 1 extra = None"
    by (simp add: RLEdecompress_def rld_loop.simps peek_def poke_def calloc_def)
qed

lemma RLEcompress_buffer:
  assumes "RLEcompress data (length data) = Some (buf, csize)"
  shows "length buf = 2 * length data" and "csize = length (rle_spec data)"
    and "take csize buf = rle_spec data" and "2 * csize \<le> 3 * length data"
  using assms length_rle_spec_3_2 [of data] by (auto simp: RLEcompress_spec)

section \<open>The contract of a content codec\<close>

text \<open>
  What the file storage relies on: encoding a content never fails, and decoding gives it back with
  the extra zero bytes asked for, for every content that \<open>decodable\<close> admits.
\<close>

locale codec =
  fixes enc :: "buffer \<Rightarrow> nat \<Rightarrow> (buffer \<times> nat) option"
    and dec :: "buffer \<Rightarrow> nat \<Rightarrow> nat \<Rightarrow> nat \<Rightarrow> buffer option"
    and decodable :: "char list \<Rightarrow> bool"
  assumes enc_total: "\<exists>buf csize. enc data (length data) = Some (buf, csize)"
    and dec_enc: "enc data (length data) = Some (buf, csize) \<Longrightarrow> decodable data \<Longrightarrow>
      dec buf csize (length data) extra = Some (data @ calloc extra)"
begin

text \<open>Appending to an encoded content: decode with room for the new bytes, copy, encode.\<close>

lemma append_encoded:
  assumes "enc data (length data) = Some (buf, csize)" and "decodable data"
  shows "Option.bind (dec buf csize (length data) (length new))
           (\<lambda>d. Option.bind (memcpy d (length data) new) (\<lambda>d. enc d (length data + length new))) =
         enc (data @ new) (length (data @ new))"
  using dec_enc [OF assms] memcpy_calloc [of new "length new" data] by (simp add: calloc_def)

lemma dec_enc_exact:
  "enc data (length data) = Some (buf, csize) \<Longrightarrow> decodable data \<Longrightarrow> dec buf csize (length data) 0 = Some data"
  by (simp add: dec_enc calloc_def)

end

interpretation rle: codec RLEcompress RLEdecompress "\<lambda>data. data \<noteq> [NUL]"
  by unfold_locales (auto simp: RLEcompress_spec RLEdecompress_spec)

section \<open>Properties\<close>

text \<open>C25: A file content that is compressed and decompressed comes back unchanged, followed by the
  extra zero bytes asked for, and no access of either routine leaves its block; the one exception is
  a content that is a single NUL byte.\<close>

theorem RLE_roundtrip:
  assumes "data \<noteq> [NUL]"
  shows "\<exists>buf csize. RLEcompress data (length data) = Some (buf, csize) \<and>
    RLEdecompress buf csize (length data) extra = Some (data @ calloc extra)"
  using rle.enc_total [of data] rle.dec_enc [OF _ assms] by blast

theorem RLE_roundtrip_witness:
  "''aaaaaaaaaaaabc'' \<noteq> [NUL] \<and>
   (\<exists>buf csize. RLEcompress ''aaaaaaaaaaaabc'' 14 = Some (buf, csize) \<and>
      RLEdecompress buf csize 14 2 = Some (''aaaaaaaaaaaabc'' @ [NUL, NUL]))"
proof -
  have len: "length ''aaaaaaaaaaaabc'' = 14" and ne: "''aaaaaaaaaaaabc'' \<noteq> [NUL]" by simp_all
  have c: "calloc 2 = [NUL, NUL]" by (simp add: calloc_def numeral_2_eq_2)
  show ?thesis
    using RLE_roundtrip [OF ne, of 2] ne unfolding len c by blast
qed

text \<open>Compression never writes outside its block of twice the input, produces exactly the
  run-length code of the content, and that code is at most one and a half times as long as the
  content.\<close>

theorem RLEcompress_size:
  "\<exists>buf csize. RLEcompress data (length data) = Some (buf, csize) \<and> length buf = 2 * length data \<and>
     csize \<le> length buf \<and> take csize buf = rle_spec data \<and> 2 * csize \<le> 3 * length data"
  using length_rle_spec_3_2 [of data] by (simp add: RLEcompress_spec)

text \<open>Decompressing a file that holds a single NUL byte reads outside the compressed block.\<close>

theorem RLEdecompress_single_NUL:
  "RLEcompress [NUL] 1 = Some ([NUL, NUL], 1) \<and> RLEdecompress [NUL, NUL] 1 1 extra = None"
  by (rule single_NUL)

end
