(* ===== verification/FdList.thy ===== *)
theory FdList
  imports Prelude
begin

text \<open>
  The lists of file descriptors of \<^verbatim>\<open>src/src/filesystemApi.c\<close> (\<open>struct fdNode\<close>): the clients
  that opened a file, those that wait for its lock, those to be notified. A list is never shared
  between two owners, so a \<open>struct fdNode *\<close> is the HOL list of the descriptors from its head on.
  A descriptor is positive; 0 is what \<open>popNodeFromFdQueue\<close> returns for "none".
\<close>

section \<open>The operations\<close>

text \<open>The walk of \<open>concatenateFdLists\<close> to the last node of \<open>dest\<close>.\<close>

fun concatenateFdLists :: "fd list \<Rightarrow> fd list \<Rightarrow> fd list" where
  "concatenateFdLists [] src = src"
| "concatenateFdLists [d] src = d # src"
| "concatenateFdLists (d # e # ds) src = d # concatenateFdLists (e # ds) src"

text \<open>\<open>pushFdToList\<close> asserts that the descriptor is positive; memory is assumed for the node, since
  every caller treats its failure as fatal.\<close>

fun push_tail :: "fd list \<Rightarrow> fd \<Rightarrow> fd list" where
  "push_tail [] fd = [fd]"
| "push_tail (x # xs) fd = x # push_tail xs fd"

definition pushFdToList :: "fd list \<Rightarrow> fd \<Rightarrow> fd list option" where
  "pushFdToList xs fd = (if 0 < fd then Some (push_tail xs fd) else None)"

fun isFdInList :: "fd list \<Rightarrow> fd \<Rightarrow> bool" where
  "isFdInList [] fd = False"
| "isFdInList (x # xs) fd = (if x = fd then True else isFdInList xs fd)"

text \<open>The search loop of \<open>popNodeFromFdQueue\<close>: the list without the first node that holds \<open>fd\<close>, and
  whether there was one.\<close>

fun unlink_fd :: "fd list \<Rightarrow> fd \<Rightarrow> fd list \<times> bool" where
  "unlink_fd [] fd = ([], False)"
| "unlink_fd (x # xs) fd =
     (if x = fd then (xs, True) else (let (ys, found) = unlink_fd xs fd in (x # ys, found)))"

definition popNodeFromFdQueue :: "fd list \<Rightarrow> fd \<Rightarrow> fd list \<times> fd" where
  "popNodeFromFdQueue xs fd =
     (case xs of
        [] \<Rightarrow> ([], 0)
      | x # rest \<Rightarrow>
          if fd = -1 then (rest, x)
          else (let (ys, found) = unlink_fd xs fd in (ys, if found then fd else 0)))"

section \<open>The operations as list functions\<close>

lemma concatenateFdLists_append [simp]: "concatenateFdLists xs ys = xs @ ys"
  by (induction xs ys rule: concatenateFdLists.induct) simp_all

lemma push_tail_append [simp]: "push_tail xs fd = xs @ [fd]"
  by (induction xs) simp_all

lemma pushFdToList_pos [simp]: "0 < fd \<Longrightarrow> pushFdToList xs fd = Some (xs @ [fd])"
  by (simp add: pushFdToList_def)

lemma pushFdToList_Some: "pushFdToList xs fd = Some ys \<longleftrightarrow> 0 < fd \<and> ys = xs @ [fd]"
  by (auto simp: pushFdToList_def)

lemma isFdInList_set [simp]: "isFdInList xs fd \<longleftrightarrow> fd \<in> set xs"
  by (induction xs) auto

lemma unlink_fd_remove1 [simp]: "unlink_fd xs fd = (remove1 fd xs, fd \<in> set xs)"
  by (induction xs) auto

lemma pop_head_Nil [simp]: "popNodeFromFdQueue [] fd = ([], 0)"
  by (simp add: popNodeFromFdQueue_def)

lemma pop_head_Cons [simp]: "popNodeFromFdQueue (x # xs) (-1) = (xs, x)"
  by (simp add: popNodeFromFdQueue_def)

lemma pop_fd [simp]:
  "fd \<noteq> -1 \<Longrightarrow> popNodeFromFdQueue xs fd = (remove1 fd xs, if fd \<in> set xs then fd else 0)"
  by (cases xs) (simp_all add: popNodeFromFdQueue_def)

section \<open>The waiting queue of a lock\<close>

text \<open>
  What the lock handlers rely on: descriptors leave the queue in the order in which they entered it,
  and taking one client out keeps the order of the others.
\<close>

locale wait_queue =
  fixes push :: "'q \<Rightarrow> fd \<Rightarrow> 'q option"
    and pop :: "'q \<Rightarrow> fd \<Rightarrow> 'q \<times> fd"
    and waiting :: "'q \<Rightarrow> fd list"
  assumes push_waiting: "0 < fd \<Longrightarrow> \<exists>q'. push q fd = Some q' \<and> waiting q' = waiting q @ [fd]"
    and pop_first: "waiting (fst (pop q (-1))) = tl (waiting q)"
    and pop_first_fd: "snd (pop q (-1)) = (if waiting q = [] then 0 else hd (waiting q))"
    and pop_client: "0 < fd \<Longrightarrow> waiting (fst (pop q fd)) = remove1 fd (waiting q)"
begin

lemma fifo:
  assumes "waiting q = []" and "\<forall>fd \<in> set fds. 0 < fd"
  shows "\<exists>q'. fold (\<lambda>fd q. Option.bind q (\<lambda>q. push q fd)) fds (Some q) = Some q' \<and> waiting q' = fds"
proof -
  have "\<exists>q'. fold (\<lambda>fd q. Option.bind q (\<lambda>q. push q fd)) fds (Some q) = Some q' \<and>
      waiting q' = waiting q @ fds" for q
    using assms(2)
  proof (induction fds arbitrary: q)
    case Nil
    then show ?case by simp
  next
    case (Cons fd fds)
    then obtain q1 where q1: "push q fd = Some q1" "waiting q1 = waiting q @ [fd]"
      using push_waiting [of fd q] by auto
    then show ?case using Cons.IH [of q1] Cons.prems by auto
  qed
  from this [of q] show ?thesis using assms(1) by simp
qed

lemma pop_oldest:
  "map_prod waiting id (pop q (-1)) = (tl (waiting q), if waiting q = [] then 0 else hd (waiting q))"
  by (simp add: prod_eq_iff pop_first pop_first_fd)

end

interpretation fdq: wait_queue pushFdToList popNodeFromFdQueue "\<lambda>q. q"
proof unfold_locales
  show "fst (popNodeFromFdQueue q (-1)) = tl q" and "snd (popNodeFromFdQueue q (-1)) = (if q = [] then 0 else hd q)" for q
    by (cases q; simp)+
qed auto

lemmas pop_head = fdq.pop_oldest [unfolded map_prod_ident id_def]

end
