(* ===== verification/Printf.thy ===== *)
theory Printf
  imports Prelude
begin

text \<open>
  The conversions of \<^verbatim>\<open>printf\<close> and \<^verbatim>\<open>atol\<close> that the program uses: \<open>%d\<close>, \<open>%ld\<close> and
  \<open>%zu\<close> (\<open>show_int\<close>, \<open>show_nat\<close>), \<open>%010ld\<close> (\<open>pad10\<close>), the fixed-width numbers of the
  client/server protocol, and \<open>atol\<close>, which reads them back.
\<close>

section \<open>Decimal numbers\<close>

definition digit :: "nat \<Rightarrow> char" where
  "digit d = char_of (48 + d)"

fun show_nat :: "nat \<Rightarrow> cstring" where
  "show_nat n = (if n < 10 then [digit n] else show_nat (n div 10) @ [digit (n mod 10)])"

declare show_nat.simps [simp del]

definition show_int :: "int \<Rightarrow> cstring" where
  "show_int i = (if i < 0 then CHR ''-'' # show_nat (nat (- i)) else show_nat (nat i))"

text \<open>\<open>%010ld\<close>: at least ten characters, padded with zeros on the left (of a number that is not
  negative).\<close>

definition pad10 :: "nat \<Rightarrow> cstring" where
  "pad10 n = replicate (10 - length (show_nat n)) (CHR ''0'') @ show_nat n"

text \<open>\<open>strftime\<close> with \<open>%H:%M:%S\<close>.\<close>

definition two_digits :: "nat \<Rightarrow> cstring" where
  "two_digits n = [digit (n div 10 mod 10), digit (n mod 10)]"

definition time_string :: "nat \<times> nat \<times> nat \<Rightarrow> cstring" where
  "time_string = (\<lambda>(h, m, s). two_digits h @ '':'' @ two_digits m @ '':'' @ two_digits s)"

lemma length_show_nat: "0 < k \<Longrightarrow> n < 10 ^ k \<Longrightarrow> length (show_nat n) \<le> k"
proof (induction n arbitrary: k rule: show_nat.induct)
  case (1 n)
  show ?case
  proof (cases "n < 10")
    case True
    then show ?thesis using \<open>0 < k\<close> by (simp add: show_nat.simps [of n])
  next
    case False
    then have "k \<noteq> 1" and "k \<noteq> 0" using 1(2,3) by auto
    then obtain j where k: "k = Suc j" "0 < j" by (metis One_nat_def gr0_conv_Suc neq0_conv)
    then have "n div 10 < 10 ^ j" using 1(3) by (simp add: less_mult_imp_div_less)
    then show ?thesis
      using 1(1) [OF False] k False by (simp add: show_nat.simps [of n])
  qed
qed

lemma show_nat_nonempty [simp]: "show_nat n \<noteq> []"
  by (simp add: show_nat.simps)

lemma length_show_int: "\<bar>i\<bar> < 10 ^ k \<Longrightarrow> 0 < k \<Longrightarrow> length (show_int i) \<le> Suc k"
proof -
  assume i: "\<bar>i\<bar> < 10 ^ k" and k: "0 < k"
  from i have "nat \<bar>i\<bar> < 10 ^ k" by (simp add: nat_less_iff)
  then have "length (show_nat (nat \<bar>i\<bar>)) \<le> k" by (rule length_show_nat [OF k])
  then show ?thesis by (auto simp: show_int_def)
qed

lemma length_time_string [simp]: "length (time_string t) = 8"
  by (cases t) (simp add: time_string_def two_digits_def)

lemma length_pad10: "n < 10 ^ 10 \<Longrightarrow> length (pad10 n) = 10"
  using length_show_nat [of 10 n] by (simp add: pad10_def)

section \<open>Reading a number back\<close>

text \<open>
  \<open>atol\<close> on a string: leading white space, an optional sign, then the digits up to the first other
  character.
\<close>

definition is_digit :: "char \<Rightarrow> bool" where
  "is_digit c \<longleftrightarrow> 48 \<le> (of_char c :: nat) \<and> (of_char c :: nat) \<le> 57"

definition digit_value :: "char \<Rightarrow> nat" where
  "digit_value c = of_char c - 48"

definition is_space :: "char \<Rightarrow> bool" where
  "is_space c \<longleftrightarrow> c = CHR '' '' \<or> (9 \<le> (of_char c :: nat) \<and> (of_char c :: nat) \<le> 13)"

definition read_digits :: "cstring \<Rightarrow> nat" where
  "read_digits s = foldl (\<lambda>n c. 10 * n + digit_value c) 0 (takeWhile is_digit s)"

definition atol :: "cstring \<Rightarrow> int" where
  "atol s =
     (case dropWhile is_space s of
        [] \<Rightarrow> 0
      | c # cs \<Rightarrow>
          if c = CHR ''-'' then - int (read_digits cs)
          else if c = CHR ''+'' then int (read_digits cs)
          else int (read_digits (c # cs)))"

lemma of_char_digit: "d < 10 \<Longrightarrow> of_char (digit d) = (48 + d :: nat)"
  by (simp add: digit_def)

lemma is_digit_digit [simp]: "d < 10 \<Longrightarrow> is_digit (digit d)"
  by (simp add: is_digit_def of_char_digit)

lemma digit_value_digit [simp]: "d < 10 \<Longrightarrow> digit_value (digit d) = d"
  by (simp add: digit_value_def of_char_digit)

lemma zero_digit: "CHR ''0'' = digit 0"
  by (simp add: digit_def char_of_def bit_0 bit_simps)

lemma digits_show_nat: "\<forall>c \<in> set (show_nat n). is_digit c"
proof (induction n rule: show_nat.induct)
  case (1 n)
  then show ?case by (subst show_nat.simps) auto
qed

lemma value_show_nat: "foldl (\<lambda>n c. 10 * n + digit_value c) 0 (show_nat n) = n"
proof (induction n rule: show_nat.induct)
  case (1 n)
  then show ?case by (subst show_nat.simps) simp
qed

lemma value_zeros:
  "foldl (\<lambda>n c. 10 * n + digit_value c) 0 (replicate k (CHR ''0'') @ s) =
   foldl (\<lambda>n c. 10 * n + digit_value c) 0 s"
  by (induction k) (simp_all add: zero_digit)

lemma read_digits_pad10: "\<not> (s \<noteq> [] \<and> is_digit (hd s)) \<Longrightarrow> read_digits (pad10 n @ s) = n"
proof -
  assume s: "\<not> (s \<noteq> [] \<and> is_digit (hd s))"
  have all: "\<forall>c \<in> set (pad10 n). is_digit c"
    using digits_show_nat [of n] by (auto simp: pad10_def zero_digit)
  have "takeWhile is_digit s = []" using s by (cases s) auto
  then have "takeWhile is_digit (pad10 n @ s) = pad10 n"
    using all by (simp add: takeWhile_append2)
  then have "read_digits (pad10 n @ s) = foldl (\<lambda>n c. 10 * n + digit_value c) 0 (pad10 n)"
    by (simp only: read_digits_def)
  then show ?thesis by (simp only: pad10_def value_zeros value_show_nat)
qed

lemma atol_digits:
  assumes "s \<noteq> []" and "\<forall>c \<in> set s. is_digit c"
  shows "atol (s @ t) = int (read_digits (s @ t))"
proof -
  obtain c cs where s: "s = c # cs" using assms(1) by (cases s) auto
  then have c: "is_digit c" using assms(2) by simp
  then have "\<not> is_space c" and "c \<noteq> CHR ''-''" and "c \<noteq> CHR ''+''"
    by (auto simp: is_digit_def is_space_def)
  then show ?thesis by (simp add: atol_def s)
qed

lemma atol_pad10: "\<not> (s \<noteq> [] \<and> is_digit (hd s)) \<Longrightarrow> atol (pad10 n @ s) = int n"
proof -
  assume s: "\<not> (s \<noteq> [] \<and> is_digit (hd s))"
  have "\<forall>c \<in> set (pad10 n). is_digit c" and "pad10 n \<noteq> []"
    using digits_show_nat [of n] by (auto simp: pad10_def zero_digit)
  then show ?thesis using atol_digits read_digits_pad10 [OF s] by simp
qed

section \<open>strtol and isNumber\<close>

text \<open>\<open>strtol\<close> in base 10: the number and what follows it, or 0 and the whole string when there is no
  digit.\<close>

definition strtol :: "cstring \<Rightarrow> int \<times> cstring" where
  "strtol s =
     (let t = dropWhile is_space s;
          neg = (t \<noteq> [] \<and> hd t = CHR ''-'');
          u = (if t \<noteq> [] \<and> (hd t = CHR ''-'' \<or> hd t = CHR ''+'') then tl t else t) in
      if u = [] \<or> \<not> is_digit (hd u) then (0, s)
      else (if neg then - int (read_digits u) else int (read_digits u), dropWhile is_digit u))"

definition long_max :: int where "long_max = 2 ^ 63"

text \<open>\<open>isNumber\<close> of \<^verbatim>\<open>src/utils/misc.h\<close>: its return value, and the number when that is 0.\<close>

definition isNumber :: "cstring \<Rightarrow> nat \<times> int" where
  "isNumber s =
     (if length s = 0 then (1, 0)
      else let (val, e) = strtol s in
        if val < - long_max \<or> long_max \<le> val then (2, 0)
        else if e = [] then (0, val) else (1, 0))"

lemma strtol_digits:
  assumes "s \<noteq> []" and "\<forall>c \<in> set s. is_digit c"
  shows "strtol s = (int (read_digits s), [])"
proof -
  obtain c cs where s: "s = c # cs" using assms(1) by (cases s) auto
  then have c: "is_digit c" using assms(2) by simp
  then have ns: "\<not> is_space c" "c \<noteq> CHR ''-''" "c \<noteq> CHR ''+''" by (auto simp: is_digit_def is_space_def)
  have "dropWhile is_digit s = []" using assms(2) by simp
  then show ?thesis using ns c by (simp add: strtol_def s Let_def)
qed

lemma isNumber_pad10:
  assumes "n < 10 ^ 10"
  shows "isNumber (pad10 n) = (0, int n)"
proof -
  have ne: "pad10 n \<noteq> []" and dg: "\<forall>c \<in> set (pad10 n). is_digit c"
    using digits_show_nat [of n] by (auto simp: pad10_def zero_digit)
  have "read_digits (pad10 n) = n" using read_digits_pad10 [of "[]" n] by simp
  moreover have "int n < long_max" using assms by (simp add: long_max_def)
  ultimately show ?thesis using strtol_digits [OF ne dg] ne by (simp add: isNumber_def long_max_def)
qed

end
