(* ===== verification/EventLog.thy ===== *)
theory EventLog
  imports Printf
begin

text \<open>
  The event log: the text of an entry as \<open>logEvent\<close> of \<^verbatim>\<open>src/src/filesystemApi.c\<close> formats it,
  with the size of its buffer, and the loop of the log writer thread, \<open>logFlusher\<close> of
  \<^verbatim>\<open>src/src/log.c\<close>. The blocks travel from one to the other through the bounded buffer
  (theory \<open>BoundedBuffer\<close>), in order.
\<close>

section \<open>The entry\<close>

definition EVENT_SLOT_SIZE :: nat where "EVENT_SLOT_SIZE = 1024"
definition EVENT_BUF_CAP :: nat where "EVENT_BUF_CAP = 5000"
definition LOGGER_EXIT_MSG :: cstring where "LOGGER_EXIT_MSG = ''EXIT''"

definition LF :: cstring where "LF = [CHR 0x0A]"
definition TAB :: cstring where "TAB = [CHR 0x09]"

text \<open>The number of an error, as \<open>%d\<close> prints it.\<close>

fun errno_value :: "errno \<Rightarrow> int" where
  "errno_value EPERM = 1"
| "errno_value ENOENT = 2"
| "errno_value E2BIG = 7"
| "errno_value EAGAIN = 11"
| "errno_value ENOMEM = 12"
| "errno_value EACCES = 13"
| "errno_value EINVAL = 22"
| "errno_value ERANGE = 34"
| "errno_value EBADE = 52"

definition outcome_of :: "errno option \<Rightarrow> int" where
  "outcome_of e = (case e of None \<Rightarrow> 0 | Some e \<Rightarrow> errno_value e)"

text \<open>
  What an entry takes from its surroundings: the local time, hours, minutes and seconds, and the
  identifier of the calling thread.
\<close>

definition event_prefix :: "nat \<times> nat \<times> nat \<Rightarrow> int \<Rightarrow> cstring \<Rightarrow> cstring \<Rightarrow> int \<Rightarrow> cstring" where
  "event_prefix tm tid op pathname requestor =
     TAB @ ''{'' @ LF @
     TAB @ TAB @ ''\"timestamp\": \"'' @ time_string tm @ ''\",'' @ LF @
     TAB @ TAB @ ''\"clientFd\": '' @ show_int requestor @ '','' @ LF @
     TAB @ TAB @ ''\"workerTid\": '' @ show_int tid @ '','' @ LF @
     TAB @ TAB @ ''\"operationType\": \"'' @ op @ ''\",'' @ LF @
     TAB @ TAB @ ''\"filePath\": \"'' @ pathname @ ''\",''"

definition event_suffix :: "int \<Rightarrow> nat \<Rightarrow> cstring" where
  "event_suffix outcome processedSize =
     (if outcome = 0 then
        LF @ TAB @ TAB @ ''\"outcome\": \"OK\",'' @ LF @
        TAB @ TAB @ ''\"bytesProcessed\": '' @ show_nat processedSize @ LF @ TAB @ ''},'' @ LF
      else if 0 < outcome then
        LF @ TAB @ TAB @ ''\"outcome\": \"failed\",'' @ LF @
        TAB @ TAB @ ''\"errorCode\": '' @ show_int outcome @ LF @ TAB @ ''},'' @ LF
      else
        LF @ TAB @ TAB @ ''\"outcome\": \"client put on wait (code '' @ show_int outcome @ '')\"'' @ LF @
        TAB @ ''},'' @ LF)"
text \<open>The block that is enqueued: the string and its NUL. An entry that does not fit in the buffer of
  \<open>EVENT_SLOT_SIZE\<close> bytes makes \<open>sprintf\<close> write past its end (\<open>None\<close>).\<close>

definition event_block :: "nat \<times> nat \<times> nat \<Rightarrow> int \<Rightarrow> cstring \<Rightarrow> cstring \<Rightarrow> int \<Rightarrow> int \<Rightarrow> nat \<Rightarrow> buffer" where
  "event_block tm tid op pathname outcome requestor processedSize =
     event_prefix tm tid op pathname requestor @ event_suffix outcome processedSize @ [NUL]"

definition format_event :: "nat \<times> nat \<times> nat \<Rightarrow> int \<Rightarrow> cstring \<Rightarrow> cstring \<Rightarrow> int \<Rightarrow> int \<Rightarrow> nat \<Rightarrow> buffer option" where
  "format_event tm tid op pathname outcome requestor processedSize =
     (let block = event_block tm tid op pathname outcome requestor processedSize in
      if length block \<le> EVENT_SLOT_SIZE then Some block else None)"

text \<open>Pathnames of at most 700 characters leave room for the rest of an entry.\<close>

definition PATH_LIMIT :: nat where "PATH_LIMIT = 700"

lemma LF_TAB_length [simp]: "length LF = 1" "length TAB = 1"
  by (simp_all add: LF_def TAB_def)

lemma event_prefix_length:
  assumes "length op \<le> 12" and "\<bar>tid\<bar> < 10 ^ 20" and "\<bar>requestor\<bar> < 10 ^ 10"
  shows "length (event_prefix tm tid op pathname requestor) \<le> 160 + length pathname"
  using assms length_show_int [of tid 20] length_show_int [of requestor 10]
  by (simp add: event_prefix_def)

lemma event_suffix_length:
  assumes "\<bar>outcome\<bar> < 10 ^ 10" and "n < 10 ^ 20"
  shows "length (event_suffix outcome n) \<le> 80"
  using assms length_show_int [of outcome 10] length_show_nat [of 20 n]
  by (simp add: event_suffix_def)

lemma format_event_fits:
  assumes "length op \<le> 12" and "\<bar>tid\<bar> < 10 ^ 20" and "\<bar>requestor\<bar> < 10 ^ 10"
    and "\<bar>outcome\<bar> < 10 ^ 10" and "n < 10 ^ 20" and "length pathname \<le> PATH_LIMIT"
  shows "format_event tm tid op pathname outcome requestor n =
     Some (event_block tm tid op pathname outcome requestor n)"
  using event_prefix_length [OF assms(1-3), of tm pathname] event_suffix_length [OF assms(4,5)] assms(6)
  by (simp add: format_event_def event_block_def Let_def PATH_LIMIT_def EVENT_SLOT_SIZE_def)

lemma format_event_overflow:
  "EVENT_SLOT_SIZE \<le> length pathname \<Longrightarrow> format_event tm tid op pathname outcome requestor n = None"
  by (simp add: format_event_def event_block_def event_prefix_def Let_def)

section \<open>The writer\<close>

text \<open>
  \<open>fputs\<close> writes a block up to its NUL. \<open>logFlusher\<close> writes the entries it dequeues until one that
  starts with \<open>LOGGER_EXIT_MSG\<close>; with no such block it is still waiting for the next one, and
  the file holds what was written so far.
\<close>

definition c_string :: "buffer \<Rightarrow> cstring" where
  "c_string b = takeWhile (\<lambda>c. c \<noteq> NUL) b"

definition is_exit :: "buffer \<Rightarrow> bool" where
  "is_exit b \<longleftrightarrow> take (length LOGGER_EXIT_MSG) (c_string b) = LOGGER_EXIT_MSG"

fun flush_loop :: "buffer list \<Rightarrow> cstring \<Rightarrow> cstring \<times> bool" where
  "flush_loop [] out = (out, False)"
| "flush_loop (b # bs) out = (if is_exit b then (out @ '']'', True) else flush_loop bs (out @ c_string b))"

definition logFlusher :: "buffer list \<Rightarrow> cstring \<times> bool" where
  "logFlusher blocks = flush_loop blocks (''['' @ LF)"

text \<open>The block with which the server stops the writer: it is enqueued without its NUL, so the bytes
  after it are those of the fresh block.\<close>

definition exit_block :: "buffer \<Rightarrow> buffer" where
  "exit_block block = LOGGER_EXIT_MSG @ block"

lemma flush_loop_entries:
  "\<forall>b \<in> set bs. \<not> is_exit b \<Longrightarrow> flush_loop (bs @ rest) out = flush_loop rest (out @ concat (map c_string bs))"
  by (induction bs arbitrary: out) auto

lemma exit_block_is_exit: "is_exit (exit_block block)"
  by (simp add: is_exit_def exit_block_def c_string_def LOGGER_EXIT_MSG_def)

lemma event_not_exit: "\<not> is_exit (event_block tm tid op pathname outcome requestor n)"
  by (simp add: is_exit_def event_block_def event_prefix_def TAB_def LOGGER_EXIT_MSG_def c_string_def)

lemma digit_not_NUL: "is_digit c \<Longrightarrow> c \<noteq> NUL"
  by (auto simp: is_digit_def)

lemma show_nat_not_NUL: "NUL \<notin> set (show_nat n)"
  using digits_show_nat digit_not_NUL by blast

lemma show_int_not_NUL: "NUL \<notin> set (show_int n)"
  by (simp add: show_int_def show_nat_not_NUL)

lemma time_string_not_NUL: "NUL \<notin> set (time_string tm)"
proof -
  have "NUL \<noteq> digit d" if "d < 10" for d
    using digit_not_NUL is_digit_digit [OF that] by metis
  from this [THEN not_sym] show ?thesis
    by (cases tm) (auto simp: time_string_def two_digits_def dest: sym)
qed

lemma c_string_event:
  assumes "NUL \<notin> set op" and "NUL \<notin> set pathname"
  shows "c_string (event_block tm tid op pathname outcome requestor n) =
    event_prefix tm tid op pathname requestor @ event_suffix outcome n"
proof -
  have "NUL \<notin> set (event_prefix tm tid op pathname requestor @ event_suffix outcome n)"
    using assms
    by (simp add: event_prefix_def event_suffix_def TAB_def LF_def show_nat_not_NUL show_int_not_NUL
        time_string_not_NUL)
  then have "takeWhile (\<lambda>c. c \<noteq> NUL)
      ((event_prefix tm tid op pathname requestor @ event_suffix outcome n) @ [NUL]) =
      event_prefix tm tid op pathname requestor @ event_suffix outcome n"
    by (subst takeWhile_append2) auto
  then show ?thesis by (simp add: c_string_def event_block_def)
qed

section \<open>Properties\<close>

text \<open>A logged operation: time, thread, name of the operation, path, outcome, client and size.\<close>

type_synonym event = "(nat \<times> nat \<times> nat) \<times> int \<times> cstring \<times> cstring \<times> int \<times> int \<times> nat"

definition block_of :: "event \<Rightarrow> buffer" where
  "block_of = (\<lambda>(tm, tid, op, p, out, req, n). event_block tm tid op p out req n)"

definition text_of :: "event \<Rightarrow> cstring" where
  "text_of = (\<lambda>(tm, tid, op, p, out, req, n). event_prefix tm tid op p req @ event_suffix out n)"

text \<open>C28: The log file holds, between the brackets, the text of every event logged before the server
  stops the writer, in the order in which they were logged, whatever is enqueued afterwards; no event
  is mistaken for the stop message.\<close>

theorem logFlusher_writes_all:
  assumes "\<forall>(tm, tid, op, p, out, req, n) \<in> set events. NUL \<notin> set op \<and> NUL \<notin> set p"
  shows "logFlusher (map block_of events @ exit_block block # rest) =
     (''['' @ LF @ concat (map text_of events) @ '']'', True)"
proof -
  have "\<forall>b \<in> set (map block_of events). \<not> is_exit b"
    by (auto simp: block_of_def event_not_exit)
  moreover have "map c_string (map block_of events) = map text_of events"
    using assms by (auto simp: block_of_def text_of_def c_string_event)
  ultimately show ?thesis
    by (simp add: logFlusher_def flush_loop_entries exit_block_is_exit del: map_map)
qed

theorem logFlusher_writes_all_witness:
  "logFlusher (map block_of [((12, 30, 5), 77, ''OPEN'', ''/a'', 0, 4, 0)] @ exit_block [] # []) =
     (''['' @ LF @ concat (map text_of [((12, 30, 5), 77, ''OPEN'', ''/a'', 0, 4, 0)]) @ '']'', True)"
  by (rule logFlusher_writes_all) simp

end
