(* ===== verification/Storage.thy ===== *)
theory Storage
  imports IclHash RleCompression FdList EventLog
begin

text \<open>
  The file storage of \<^verbatim>\<open>src/src/filesystemApi.c\<close>: the files, doubly linked in order of
  insertion and indexed by pathname in a hash table, and the operations on that structure below the
  request handlers: looking a file up, adding one, taking one out, choosing a victim.

  \<open>struct fileNode\<close> is \<open>FileNode\<close> and \<open>struct cacheStorage\<close> is \<open>CacheStorage\<close>, with an explicit
  heap of the file nodes. The mutexes are not fields: an operation here is what one thread does while it
  holds \<open>store->mutex\<close>. \<open>None\<close> is an invalid access, a failed assertion, an exit through one of the
  \<open>DIE_ON\<close> macros, or a wait for a reader or writer that only another thread can end.
\<close>

section \<open>Data\<close>

record FileNode =
  pathname :: cstring
  content :: buffer
  contentSize :: nat
  uncompressedSize :: nat
  lockedBy :: fd
  pendingLocks :: "fd list"
  openDescriptors :: "fd list"
  isBeingWritten :: bool
  activeReaders :: nat
  canDoFirstWrite :: fd
  refCount :: nat
  lastRef :: int
  insertionTime :: int
  prevPtr :: ptr
  nextPtr :: ptr

record CacheStorage =
  maxFileNum :: nat
  maxStorageSize :: nat
  currFileNum :: nat
  currStorageSize :: nat
  replacementAlgo :: int
  hPtr :: ptr
  tPtr :: ptr
  dictStore :: "ptr icl_hash"
  logBuffer :: "buffer list"
  maxReachedFileNum :: nat
  maxReachedStorageSize :: nat
  numVictims :: nat
  heap :: "ptr \<rightharpoonup> FileNode"

text \<open>
  What a handler takes from its surroundings: \<open>time(0)\<close>, the local time at the moment of the
  n-th log entry, the calling thread, the address that \<open>calloc\<close> returns for a new file and
  whether that allocation succeeds, and the bytes that \<open>realloc\<close> leaves in the new part of a block. The
  last three say which allocations of a read of many files succeed: the first buffer, and for the n-th
  file read the \<open>realloc\<close> of the buffer and the \<open>calloc\<close> of the decompressor.
\<close>

record env =
  now :: int
  clock :: "nat \<Rightarrow> nat \<times> nat \<times> nat"
  self :: int
  fresh :: ptr
  mem_ok :: bool
  junk :: "nat \<Rightarrow> char"
  calloc_ok :: bool
  realloc_ok :: "nat \<Rightarrow> bool"
  unpack_ok :: "nat \<Rightarrow> bool"

definition buffers_ok :: "env \<Rightarrow> bool" where
  "buffers_ok env \<longleftrightarrow> calloc_ok env \<and> (\<forall>i. realloc_ok env i \<and> unpack_ok env i)"

section \<open>Access to the heap\<close>

definition deref :: "CacheStorage \<Rightarrow> ptr \<Rightarrow> FileNode option" where
  "deref s p = (if p = NULL then None else heap s p)"

definition modify :: "CacheStorage \<Rightarrow> ptr \<Rightarrow> (FileNode \<Rightarrow> FileNode) \<Rightarrow> CacheStorage option" where
  "modify s p f = do { n \<leftarrow> deref s p; Some (s\<lparr>heap := (heap s)(p \<mapsto> f n)\<rparr>) }"

section \<open>Logging\<close>

text \<open>
  An entry is put in the log queue, which holds \<open>EVENT_BUF_CAP\<close> of them. \<open>logBuffer\<close> is the sequence of all the
  entries put there so far, taken out by the flusher or not. While the flusher runs a full queue only makes the
  caller wait until the flusher has taken an entry out, which the handlers do not show; what happens when the
  flusher has ended is part of \<open>Shutdown\<close> (\<open>log_room\<close>).
\<close>

definition logEvent :: "env \<Rightarrow> cstring \<Rightarrow> cstring \<Rightarrow> int \<Rightarrow> fd \<Rightarrow> nat \<Rightarrow> CacheStorage \<Rightarrow> CacheStorage option" where
  "logEvent env op path outcome requestor processedSize s = do {
     b \<leftarrow> format_event (clock env (length (logBuffer s))) (self env) op path outcome requestor processedSize;
     Some (s\<lparr>logBuffer := logBuffer s @ [b]\<rparr>)
   }"

section \<open>Choosing a victim\<close>

text \<open>The comparators of \<^verbatim>\<open>src/src/cacheFns.c\<close>: a difference of 64 bits, returned as an
  \<open>int\<close>. \<open>refCount\<close> is unsigned, its difference wraps.\<close>

definition lru_cmp :: "FileNode \<Rightarrow> FileNode \<Rightarrow> int" where
  "lru_cmp f1 f2 = int_of_long (lastRef f2 - lastRef f1)"

definition lfu_cmp :: "FileNode \<Rightarrow> FileNode \<Rightarrow> int" where
  "lfu_cmp f1 f2 = int_of_long (int (size_sub (refCount f2) (refCount f1)))"

definition fifo_cmp :: "FileNode \<Rightarrow> FileNode \<Rightarrow> int" where
  "fifo_cmp f1 f2 = int_of_long (insertionTime f2 - insertionTime f1)"

text \<open>\<open>cmp_fns\<close> has three entries; an index outside it is invalid.\<close>

definition FIFO_ALGO :: int where "FIFO_ALGO = 0"
definition LRU_ALGO :: int where "LRU_ALGO = 1"
definition LFU_ALGO :: int where "LFU_ALGO = 2"

definition cmp_fns :: "int \<Rightarrow> (FileNode \<Rightarrow> FileNode \<Rightarrow> int) option" where
  "cmp_fns i =
     (if i = 0 then Some fifo_cmp else if i = 1 then Some lru_cmp else if i = 2 then Some lfu_cmp else None)"

partial_function (option) victim_scan :: "CacheStorage \<Rightarrow> ptr \<Rightarrow> ptr \<Rightarrow> ptr \<Rightarrow> ptr option" where
  "victim_scan s currPtr spare victim =
     (if currPtr = NULL then Some victim
      else do {
        c \<leftarrow> deref s currPtr;
        victim \<leftarrow>
          (if currPtr \<noteq> spare then do {
             v \<leftarrow> deref s victim;
             cmp \<leftarrow> cmp_fns (replacementAlgo s);
             Some (if 0 < cmp c v then currPtr else victim)
           } else Some victim);
        victim_scan s (nextPtr c) spare victim
      })"

definition getVictim :: "CacheStorage \<Rightarrow> ptr \<Rightarrow> (CacheStorage \<times> ptr) option" where
  "getVictim s spare = do {
     victim \<leftarrow> (if hPtr s \<noteq> spare then Some (hPtr s) else do { h \<leftarrow> deref s (hPtr s); Some (nextPtr h) });
     victim \<leftarrow>
       (if replacementAlgo s \<noteq> FIFO_ALGO then victim_scan s (hPtr s) spare victim else Some victim);
     Some (s\<lparr>numVictims := size_add (numVictims s) 1\<rparr>, victim)
   }"

section \<open>Adding, finding and removing files\<close>

text \<open>
  \<open>allocStorage\<close>, with its three allocations. Its last argument is a \<open>short\<close>: the conversion from the
  configuration's \<open>ssize_t\<close> is done by the call, and modelled there (\<open>boot\<close>). The number of buckets is passed
  on as an \<open>int\<close>; that conversion is the identity here, and where it would not be \<open>boot\<close> has no result.
\<close>

definition allocStorage :: "bool \<Rightarrow> bool \<Rightarrow> bool \<Rightarrow> nat \<Rightarrow> nat \<Rightarrow> int \<Rightarrow> errno + CacheStorage" where
  "allocStorage mem_store mem_log mem_dict maxFiles maxSize algo =
     (if \<not> mem_store then Inl ENOMEM
      else if \<not> mem_log then Inl ENOMEM
      else case icl_hash_create mem_dict (maxFiles div 10 + 1) None None of
        None \<Rightarrow> Inl ENOMEM
      | Some dict \<Rightarrow>
          Inr \<lparr>maxFileNum = maxFiles, maxStorageSize = maxSize, currFileNum = 0, currStorageSize = 0,
               replacementAlgo = algo, hPtr = NULL, tPtr = NULL, dictStore = dict, logBuffer = [],
               maxReachedFileNum = 0, maxReachedStorageSize = 0, numVictims = 0, heap = Map.empty\<rparr>)"

text \<open>
  \<open>allocFile\<close> copies at most \<open>INITIALBUFSIZ\<close> characters of the name with \<open>strncpy\<close>; a name of that
  length or more is left without a terminator, so that every later use of it reads outside the
  block (\<open>None\<close>). A failed allocation is reported (\<open>Inl\<close>).
\<close>

definition INITIALBUFSIZ :: nat where "INITIALBUFSIZ = 1024"

definition allocFile :: "env \<Rightarrow> cstring \<Rightarrow> CacheStorage \<Rightarrow> ((errno + ptr) \<times> CacheStorage) option" where
  "allocFile env path s =
     (if \<not> mem_ok env then Some (Inl ENOMEM, s)
      else if INITIALBUFSIZ \<le> length path then None
      else Some (Inr (fresh env), s\<lparr>heap := (heap s)(fresh env \<mapsto>
        \<lparr>pathname = path, content = calloc INITIALBUFSIZ, contentSize = 0, uncompressedSize = 0,
         lockedBy = 0, pendingLocks = [], openDescriptors = [], isBeingWritten = False,
         activeReaders = 0, canDoFirstWrite = 0, refCount = 0, lastRef = 0, insertionTime = now env,
         prevPtr = NULL, nextPtr = NULL\<rparr>)\<rparr>))"

definition findFile :: "CacheStorage \<Rightarrow> cstring \<Rightarrow> errno + ptr" where
  "findFile s path =
     (if length path = 0 then Inl EINVAL
      else case icl_hash_find (dictStore s) path of None \<Rightarrow> Inl ENOENT | Some p \<Rightarrow> Inr p)"

partial_function (option) printStore :: "CacheStorage \<Rightarrow> ptr \<Rightarrow> cstring list \<Rightarrow> cstring list option" where
  "printStore s currptr out =
     (if currptr = NULL then Some out
      else do { n \<leftarrow> deref s currptr; printStore s (nextPtr n) (out @ [pathname n @ LF]) })"

definition addFileToStore :: "CacheStorage \<Rightarrow> ptr \<Rightarrow> CacheStorage option" where
  "addFileToStore s filePtr = do {
     s \<leftarrow>
       (if hPtr s = NULL then Some (s\<lparr>hPtr := filePtr\<rparr>)
        else do {
          s \<leftarrow> modify s filePtr (\<lambda>n. n\<lparr>prevPtr := tPtr s\<rparr>);
          if tPtr s \<noteq> NULL then modify s (tPtr s) (\<lambda>n. n\<lparr>nextPtr := filePtr\<rparr>) else Some s
        });
     let s = s\<lparr>tPtr := filePtr\<rparr>;
     n \<leftarrow> deref s filePtr;
     let (dict, inserted) = icl_hash_insert True (dictStore s) (pathname n) filePtr;
     if \<not> inserted then None
     else do {
       let s = s\<lparr>dictStore := dict, currFileNum := size_add (currFileNum s) 1,
                 currStorageSize := size_add (currStorageSize s) (contentSize n)\<rparr>;
       Some (s\<lparr>maxReachedFileNum :=
                  (if maxReachedFileNum s > currFileNum s then maxReachedFileNum s else currFileNum s),
               maxReachedStorageSize :=
                  (if maxReachedStorageSize s > currStorageSize s then maxReachedStorageSize s
                   else currStorageSize s)\<rparr>)
     }
   }"

text \<open>No reader or writer is active on the file; an operation that finds one waits.\<close>

definition quiet :: "FileNode \<Rightarrow> bool" where
  "quiet n \<longleftrightarrow> activeReaders n = 0 \<and> \<not> isBeingWritten n"

definition activity :: "FileNode \<Rightarrow> nat \<times> bool" where
  "activity n = (activeReaders n, isBeingWritten n)"

lemma quiet_activity: "quiet n \<longleftrightarrow> activity n = (0, False)"
  by (simp add: quiet_def activity_def)

text \<open>
  \<open>destroyFile\<close> unlinks the node, hands back the clients that wait for its lock, drops the list of
  the clients that opened it, and frees the node unless the caller keeps it.
\<close>

definition destroyFile :: "CacheStorage \<Rightarrow> ptr \<Rightarrow> fd list \<Rightarrow> bool \<Rightarrow> (CacheStorage \<times> fd list) option" where
  "destroyFile s fptr notifyList deallocMem = do {
     n \<leftarrow> deref s fptr;
     if \<not> quiet n then None
     else do {
       s \<leftarrow> (if prevPtr n \<noteq> NULL then modify s (prevPtr n) (\<lambda>p. p\<lparr>nextPtr := nextPtr n\<rparr>)
             else Some (s\<lparr>hPtr := nextPtr n\<rparr>));
       s \<leftarrow> (if nextPtr n \<noteq> NULL then modify s (nextPtr n) (\<lambda>p. p\<lparr>prevPtr := prevPtr n\<rparr>)
             else Some (s\<lparr>tPtr := prevPtr n\<rparr>));
       let notifyList = (if pendingLocks n \<noteq> [] then pendingLocks n else notifyList);
       s \<leftarrow> modify s fptr (\<lambda>n. n\<lparr>openDescriptors := []\<rparr>);
       let s = s\<lparr>currFileNum := size_sub (currFileNum s) 1,
                 currStorageSize := size_sub (currStorageSize s) (contentSize n)\<rparr>;
       let (dict, r) = icl_hash_delete (dictStore s) (pathname n);
       if r \<noteq> 0 then None
       else do {
         let s = s\<lparr>dictStore := dict\<rparr>;
         Some (if deallocMem then s\<lparr>heap := (heap s)(fptr := None)\<rparr> else s, notifyList)
       }
     }
   }"

text \<open>The loop of \<open>destroyStorage\<close>; what is left of the store after it is freed.\<close>

partial_function (option) destroy_files :: "CacheStorage \<Rightarrow> CacheStorage option" where
  "destroy_files s =
     (if hPtr s = NULL then Some s
      else do {
        h \<leftarrow> deref s (hPtr s);
        (s, _) \<leftarrow> destroyFile (s\<lparr>hPtr := nextPtr h\<rparr>) (hPtr s) [] True;
        destroy_files s
      })"

definition destroyStorage :: "CacheStorage \<Rightarrow> (CacheStorage \<times> (cstring \<times> ptr) list) option" where
  "destroyStorage s = do {
     s \<leftarrow> destroy_files s;
     Some (s, icl_hash_destroy (dictStore s))
   }"

text \<open>The loop that resets the reference counts after an eviction.\<close>

partial_function (option) reset_refs :: "CacheStorage \<Rightarrow> ptr \<Rightarrow> CacheStorage option" where
  "reset_refs s tmpPtr =
     (if tmpPtr = NULL then Some s
      else do {
        n \<leftarrow> deref s tmpPtr;
        s \<leftarrow> modify s tmpPtr (\<lambda>n. n\<lparr>refCount := 0\<rparr>);
        reset_refs s (nextPtr n)
      })"

text \<open>\<open>UPDATE_CACHE_BITS\<close>.\<close>

definition update_cache_bits :: "env \<Rightarrow> FileNode \<Rightarrow> FileNode" where
  "update_cache_bits env n = n\<lparr>lastRef := now env, refCount := size_add (refCount n) 1\<rparr>"

section \<open>Linked lists in the heap\<close>

text \<open>\<open>dll h p xs n\<close>: the nodes \<open>xs\<close> are linked in this order, the first one's predecessor is \<open>p\<close>
  and the last one's successor is \<open>n\<close>.\<close>

fun first_of :: "ptr list \<Rightarrow> ptr \<Rightarrow> ptr" where
  "first_of [] n = n"
| "first_of (a # as) n = a"

fun last_of :: "ptr list \<Rightarrow> ptr \<Rightarrow> ptr" where
  "last_of [] p = p"
| "last_of (a # as) p = last_of as a"

fun dll :: "(ptr \<rightharpoonup> FileNode) \<Rightarrow> ptr \<Rightarrow> ptr list \<Rightarrow> ptr \<Rightarrow> bool" where
  "dll h p [] n \<longleftrightarrow> True"
| "dll h p (a # as) n \<longleftrightarrow>
     a \<noteq> NULL \<and> (\<exists>x. h a = Some x \<and> prevPtr x = p \<and> nextPtr x = first_of as n) \<and> dll h a as n"

lemma first_of_append [dll_simps]: "first_of (as @ bs) n = first_of as (first_of bs n)"
  by (cases as) auto

lemma last_of_append [dll_simps]: "last_of (as @ bs) p = last_of bs (last_of as p)"
  by (induction as arbitrary: p) auto

lemma last_of_in: "as \<noteq> [] \<Longrightarrow> last_of as p \<in> set as"
proof (induction as arbitrary: p)
  case (Cons a as)
  then show ?case by (cases as) auto
qed simp

lemma last_of_ne: "as \<noteq> [] \<Longrightarrow> last_of as p = last_of as q"
  by (cases as) auto

lemma first_of_in: "as \<noteq> [] \<Longrightarrow> first_of as n \<in> set as"
  by (cases as) auto

lemma dll_append [dll_simps]:
  "dll h p (as @ bs) n \<longleftrightarrow> dll h p as (first_of bs n) \<and> dll h (last_of as p) bs n"
  by (induction as arbitrary: p) (auto simp: first_of_append)

lemma dll_frame: "(\<And>a. a \<in> set as \<Longrightarrow> h' a = h a) \<Longrightarrow> dll h' p as n = dll h p as n"
  by (induction as arbitrary: p) auto

lemma dll_frame_upd [simp]: "a \<notin> set as \<Longrightarrow> dll (h(a := v)) p as n = dll h p as n"
  by (rule dll_frame) auto

lemma dll_node: "dll h p as n \<Longrightarrow> a \<in> set as \<Longrightarrow> a \<noteq> NULL \<and> (\<exists>x. h a = Some x)"
  by (induction as arbitrary: p) auto

lemma dll_update:
  assumes "dll h p as n" and "h a = Some x" and "prevPtr x' = prevPtr x" and "nextPtr x' = nextPtr x"
  shows "dll (h(a \<mapsto> x')) p as n"
  using assms by (induction as arbitrary: p) auto

lemma dll_set_prev:
  assumes "dll h p (a # as) n" and "a \<notin> set as" and "h a = Some x"
  shows "dll (h(a \<mapsto> x\<lparr>prevPtr := q\<rparr>)) q (a # as) n"
  using assms by auto

lemma dll_set_next:
  assumes "dll h p as n" and "as \<noteq> []" and "distinct as" and "h (last_of as p) = Some x"
  shows "dll (h(last_of as p \<mapsto> x\<lparr>nextPtr := m\<rparr>)) p as m"
  using assms
proof (induction as arbitrary: p)
  case Nil
  then show ?case by simp
next
  case (Cons a as)
  show ?case
  proof (cases "as = []")
    case True
    with Cons.prems show ?thesis by auto
  next
    case False
    then have "last_of as a \<noteq> a" using last_of_in [OF False, of a] Cons.prems(3) by auto
    moreover have "first_of as m = first_of as n" using False by (cases as) auto
    ultimately show ?thesis using Cons.IH [of a] Cons.prems False by auto
  qed
qed

text \<open>Taking a node out: its neighbours are linked to each other.\<close>

lemma dll_unlink:
  assumes "dll h p (us @ a # vs) n" and "distinct (us @ a # vs)" and "p \<notin> set (us @ a # vs)"
    and "n \<notin> set (us @ a # vs)" and "h a = Some x"
  shows "prevPtr x = last_of us p" and "nextPtr x = first_of vs n"
    and "us \<noteq> [] \<Longrightarrow> h (last_of us p) = Some y \<Longrightarrow>
      dll (h(last_of us p \<mapsto> y\<lparr>nextPtr := first_of vs n\<rparr>)) p us (first_of vs n)"
    and "vs \<noteq> [] \<Longrightarrow> h (first_of vs n) = Some z \<Longrightarrow>
      dll (h(first_of vs n \<mapsto> z\<lparr>prevPtr := last_of us p\<rparr>)) (last_of us p) vs n"
proof -
  have us: "dll h p us a" and a: "dll h (last_of us p) (a # vs) n"
    using assms(1) by (simp_all add: dll_append)
  show "prevPtr x = last_of us p" and "nextPtr x = first_of vs n" using a assms(5) by auto
  show "dll (h(last_of us p \<mapsto> y\<lparr>nextPtr := first_of vs n\<rparr>)) p us (first_of vs n)"
    if "us \<noteq> []" and "h (last_of us p) = Some y"
    using dll_set_next [OF us that(1) _ that(2)] assms(2) by simp
  show "dll (h(first_of vs n \<mapsto> z\<lparr>prevPtr := last_of us p\<rparr>)) (last_of us p) vs n"
    if "vs \<noteq> []" and "h (first_of vs n) = Some z"
  proof -
    obtain b ws where vs: "vs = b # ws" using \<open>vs \<noteq> []\<close> by (cases vs) auto
    then have "dll h a (b # ws) n" using a by simp
    then show ?thesis
      using dll_set_prev [of h a b ws n z] that(2) assms(2) vs by simp
  qed
qed

end
