(* ===== verification/Handlers.thy ===== *)
theory Handlers
  imports Storage
begin

text \<open>
  The request handlers of \<^verbatim>\<open>src/src/filesystemApi.c\<close>, one definition per handler and per
  loop. A handler takes the store, the request and its output parameters and returns the new values of
  the latter with the store; \<open>Inl e\<close> is a return of -1 with \<open>errno = e\<close>, \<open>Inr r\<close> a return of \<open>r\<close>.

  The handlers run here one after the other. Those that leave \<open>store->mutex\<close> early, or that mark a file
  as being read or written, are split at the points where they do so (\<open>readFile_enter\<close>,
  \<open>readFile_body\<close>, \<open>readFile_leave\<close>, ...), so that their steps can also be interleaved; a handler
  that finds a file busy would wait for another thread, which is \<open>None\<close> here.
\<close>

section \<open>Flags and input checks\<close>

definition O_CREATE :: int where "O_CREATE = 1"
definition O_LOCK :: int where "O_LOCK = 2"

definition IS_SET :: "int \<Rightarrow> int \<Rightarrow> bool" where
  "IS_SET flag n \<longleftrightarrow> (flag AND n) \<noteq> 0"

text \<open>The condition under which \<open>CHECK_INPUT\<close> returns \<open>EINVAL\<close>.\<close>

definition bad_input :: "cstring \<Rightarrow> fd \<Rightarrow> bool" where
  "bad_input path requestor \<longleftrightarrow> length path = 0 \<or> requestor \<le> 0"

definition access_denied :: "FileNode \<Rightarrow> fd \<Rightarrow> bool" where
  "access_denied n requestor \<longleftrightarrow>
     (lockedBy n \<noteq> 0 \<and> lockedBy n \<noteq> requestor) \<or> \<not> isFdInList (openDescriptors n) requestor"

definition METADATA_SIZE :: nat where "METADATA_SIZE = 10"

section \<open>openFileHandler\<close>

text \<open>The eviction that makes room for a new file.\<close>

definition open_evict :: "env \<Rightarrow> CacheStorage \<Rightarrow> fd list \<Rightarrow> fd \<Rightarrow> (CacheStorage \<times> fd list) option" where
  "open_evict env s notifyList requestor =
     (if currFileNum s = maxFileNum s then do {
        (s, victim) \<leftarrow> getVictim s NULL;
        v \<leftarrow> deref s victim;
        s \<leftarrow> logEvent env ''EVICTED'' (pathname v) 0 requestor 0 s;
        (s, notifyList) \<leftarrow> destroyFile s victim notifyList True;
        s \<leftarrow> reset_refs s (hPtr s);
        Some (s, notifyList)
      } else Some (s, notifyList))"

definition open_new :: "env \<Rightarrow> CacheStorage \<Rightarrow> cstring \<Rightarrow> bool \<Rightarrow> fd \<Rightarrow> ((errno + int) \<times> CacheStorage) option" where
  "open_new env s path lock requestor = do {
     (r, s) \<leftarrow> allocFile env path s;
     (case r of
        Inl e \<Rightarrow> Some (Inl e, s)
      | Inr fPtr \<Rightarrow> do {
          s \<leftarrow> (if lock then modify s fPtr (\<lambda>n. n\<lparr>lockedBy := requestor, canDoFirstWrite := requestor\<rparr>)
                else Some s);
          n \<leftarrow> deref s fPtr;
          fds \<leftarrow> pushFdToList (openDescriptors n) requestor;
          s \<leftarrow> modify s fPtr (\<lambda>n. n\<lparr>openDescriptors := fds\<rparr>);
          s \<leftarrow> logEvent env ''OPEN'' path 0 requestor 0 s;
          s \<leftarrow> addFileToStore s fPtr;
          Some (Inr 0, s)
        })
   }"

definition open_existing :: "CacheStorage \<Rightarrow> ptr \<Rightarrow> bool \<Rightarrow> fd \<Rightarrow> ((errno + int) \<times> CacheStorage) option" where
  "open_existing s fPtr lock requestor = do {
     n \<leftarrow> deref s fPtr;
     if lock \<and> lockedBy n \<noteq> 0 then Some (Inl EACCES, s)
     else do {
       s \<leftarrow> (if lock then modify s fPtr (\<lambda>n. n\<lparr>lockedBy := requestor\<rparr>) else Some s);
       fds \<leftarrow> pushFdToList (openDescriptors n) requestor;
       s \<leftarrow> modify s fPtr (\<lambda>n. n\<lparr>openDescriptors := fds\<rparr>);
       Some (Inr 0, s)
     }
   }"

definition openFileHandler ::
  "env \<Rightarrow> CacheStorage \<Rightarrow> cstring \<Rightarrow> int \<Rightarrow> fd list \<Rightarrow> fd \<Rightarrow> ((errno + int) \<times> fd list \<times> CacheStorage) option"
where
  "openFileHandler env s path flags notifyList requestor =
     (if length path = 0 \<or> requestor \<le> 0 then Some (Inl EINVAL, notifyList, s)
      else
        let create = IS_SET O_CREATE flags; lock = IS_SET O_LOCK flags in
        (case findFile s path of
           Inr fPtr \<Rightarrow>
             if create then Some (Inl EPERM, notifyList, s)
             else do {
               (r, s) \<leftarrow> open_existing s fPtr lock requestor;
               Some (r, notifyList, s)
             }
         | Inl _ \<Rightarrow>
             if \<not> create then Some (Inl ENOENT, notifyList, s)
             else do {
               (s, notifyList) \<leftarrow> open_evict env s notifyList requestor;
               (r, s) \<leftarrow> open_new env s path lock requestor;
               Some (r, notifyList, s)
             }))"

section \<open>readFileHandler\<close>

text \<open>The first critical section: the file is found, access is checked and a reader is registered.\<close>

definition readFile_enter :: "env \<Rightarrow> CacheStorage \<Rightarrow> cstring \<Rightarrow> fd \<Rightarrow> ((errno + ptr) \<times> CacheStorage) option" where
  "readFile_enter env s path requestor =
     (case findFile s path of
        Inl e \<Rightarrow> do {
          s \<leftarrow> logEvent env ''READ'' path (errno_value e) requestor 0 s;
          Some (Inl e, s)
        }
      | Inr fptr \<Rightarrow> do {
          n \<leftarrow> deref s fptr;
          if access_denied n requestor then do {
            s \<leftarrow> logEvent env ''READ'' path (errno_value EACCES) requestor 0 s;
            Some (Inl EACCES, s)
          }
          else if isBeingWritten n then None
          else do {
            s \<leftarrow> modify s fptr (\<lambda>n. update_cache_bits env (n\<lparr>activeReaders := size_add (activeReaders n) 1\<rparr>));
            Some (Inr fptr, s)
          }
        })"

text \<open>The read itself, outside every mutex, and the second critical section. The branch for a \<open>NULL\<close> content
  (\<open>ENOMEM\<close>) is left out: when its \<open>calloc\<close> fails the decompressor writes through the null pointer before it
  returns, unless the file is empty.\<close>

definition readFile_body :: "env \<Rightarrow> CacheStorage \<Rightarrow> ptr \<Rightarrow> cstring \<Rightarrow> fd \<Rightarrow> ((buffer \<times> nat) \<times> CacheStorage) option" where
  "readFile_body env s fptr path requestor = do {
     n \<leftarrow> deref s fptr;
     buf \<leftarrow> RLEdecompress (content n) (contentSize n) (uncompressedSize n) 0;
     s \<leftarrow> logEvent env ''READ'' path 0 requestor (contentSize n) s;
     Some ((buf, uncompressedSize n), s)
   }"

definition readFile_leave :: "CacheStorage \<Rightarrow> ptr \<Rightarrow> CacheStorage option" where
  "readFile_leave s fptr =
     modify s fptr (\<lambda>n. n\<lparr>activeReaders := size_sub (activeReaders n) 1, canDoFirstWrite := 0\<rparr>)"

definition readFileHandler ::
  "env \<Rightarrow> CacheStorage \<Rightarrow> cstring \<Rightarrow> fd \<Rightarrow> ((errno + buffer \<times> nat) \<times> CacheStorage) option"
where
  "readFileHandler env s path requestor =
     (if bad_input path requestor then Some (Inl EINVAL, s)
      else do {
        (r, s) \<leftarrow> readFile_enter env s path requestor;
        (case r of
           Inl e \<Rightarrow> Some (Inl e, s)
         | Inr fptr \<Rightarrow> do {
             (res, s) \<leftarrow> readFile_body env s fptr path requestor;
             s \<leftarrow> readFile_leave s fptr;
             Some (Inr res, s)
           })
      })"

section \<open>readNFilesHandler\<close>

text \<open>\<open>realloc\<close> keeps the bytes of the block; the new ones are arbitrary.\<close>

definition realloc_block :: "(nat \<Rightarrow> char) \<Rightarrow> buffer \<Rightarrow> nat \<Rightarrow> buffer" where
  "realloc_block byte b n = take n b @ map byte [length b..<n]"

text \<open>Decompressing a file when the \<open>calloc\<close> of the decompressor may fail: only an empty file then comes
  back as \<open>NULL\<close> (\<open>Some None\<close>), any other one is decompressed through the null pointer (\<open>None\<close>).\<close>

definition unpack :: "bool \<Rightarrow> FileNode \<Rightarrow> buffer option option" where
  "unpack mem n =
     (if mem then map_option Some (RLEdecompress (content n) (contentSize n) (uncompressedSize n) 0)
      else if contentSize n = 0 then Some None
      else None)"

text \<open>
  The loop over the files. \<open>ret\<close> is the response buffer, \<open>retMaxSize\<close> what the code takes for its
  size, \<open>retCurrSize\<close> how much of it is filled. \<open>sprintf\<close> also writes a NUL after the header. The result is
  the saved \<open>errno\<close>, the buffer (\<open>None\<close> when it has been freed), its size and the number of files.
\<close>

partial_function (option) read_n_loop ::
  "env \<Rightarrow> CacheStorage \<Rightarrow> int \<Rightarrow> ptr \<Rightarrow> nat \<Rightarrow> buffer \<Rightarrow> nat \<Rightarrow> nat \<Rightarrow> (errno option \<times> buffer option \<times> nat \<times> nat) option"
where
  "read_n_loop env s upperLimit currPtr readCount ret retMaxSize retCurrSize =
     (if currPtr \<noteq> NULL \<and> (int readCount \<noteq> upperLimit \<or> upperLimit \<le> 0) then do {
        n \<leftarrow> deref s currPtr;
        let retNewSize = retCurrSize + uncompressedSize n + length (pathname n) + 2 * METADATA_SIZE;
        let grow = retNewSize > retMaxSize;
        if grow \<and> \<not> realloc_ok env readCount then Some (Some ENOMEM, None, retCurrSize, readCount)
        else do {
          let ret = (if grow then realloc_block (junk env) ret (2 * retNewSize) else ret);
          let retMaxSize = (if grow then 2 * retMaxSize else retMaxSize);
          ret \<leftarrow> memcpy ret retCurrSize
            (pad10 (length (pathname n)) @ pathname n @ pad10 (uncompressedSize n) @ [NUL]);
          uncompressedContent \<leftarrow> unpack (unpack_ok env readCount) n;
          (case uncompressedContent of
             None \<Rightarrow> Some (Some ENOMEM, Some ret, retCurrSize, readCount)
           | Some uncompressedContent \<Rightarrow> do {
               ret \<leftarrow> memcpy ret (retNewSize - uncompressedSize n) (take (uncompressedSize n) uncompressedContent);
               read_n_loop env s upperLimit (nextPtr n) (readCount + 1) ret retMaxSize retNewSize
             })
        }
      } else Some (None, Some ret, retCurrSize, readCount))"

text \<open>
  \<open>errno\<close> is not reset on entry, and on success the handler looks at the value it has
  (\<open>errno0\<close>) to decide what to return. The second part of the result is what is assigned to the caller's
  buffer and size: nothing when the first allocation fails, a freed buffer when a \<open>realloc\<close> failed.
\<close>

definition readNFilesHandler ::
  "env \<Rightarrow> errno option \<Rightarrow> CacheStorage \<Rightarrow> int \<Rightarrow> fd \<Rightarrow> ((errno + int) \<times> (buffer option \<times> nat) option \<times> CacheStorage) option"
where
  "readNFilesHandler env errno0 s upperLimit requestor =
     (if \<not> calloc_ok env then Some (Inl ENOMEM, None, s)
      else do {
        (errnosave, ret, retCurrSize, readCount) \<leftarrow>
          read_n_loop env s upperLimit (hPtr s) 0 (calloc INITIALBUFSIZ) INITIALBUFSIZ 0;
        s \<leftarrow> logEvent env ''READ'' ''READ_N_FILES'' (case errnosave of Some e \<Rightarrow> errno_value e | None \<Rightarrow> 0)
          requestor retCurrSize s;
        Some (case (case errnosave of Some e \<Rightarrow> Some e | None \<Rightarrow> errno0) of Some e \<Rightarrow> Inl e | None \<Rightarrow> Inr (int readCount),
              Some (ret, retCurrSize), s)
      })"

section \<open>writeToFileHandler\<close>

definition writeToFile_enter :: "env \<Rightarrow> CacheStorage \<Rightarrow> cstring \<Rightarrow> fd \<Rightarrow> ((errno + ptr) \<times> CacheStorage) option" where
  "writeToFile_enter env s path requestor =
     (case findFile s path of
        Inl e \<Rightarrow> do {
          s \<leftarrow> logEvent env ''WRITE'' path (errno_value e) requestor 0 s;
          Some (Inl e, s)
        }
      | Inr fptr \<Rightarrow> do {
          n \<leftarrow> deref s fptr;
          if isBeingWritten n then None
          else if access_denied n requestor then do {
            s \<leftarrow> logEvent env ''WRITE'' path (errno_value EACCES) requestor 0 s;
            Some (Inl EACCES, s)
          }
          else if 0 < activeReaders n then None
          else do {
            s \<leftarrow> modify s fptr (\<lambda>n. update_cache_bits env (n\<lparr>isBeingWritten := True\<rparr>));
            Some (Inr fptr, s)
          }
        })"

text \<open>The new content of the file, compressed: the old one with \<open>newContent\<close> appended.\<close>

definition appended_content :: "FileNode \<Rightarrow> buffer \<Rightarrow> nat \<Rightarrow> (buffer \<times> nat) option" where
  "appended_content n newContent newContentLen = do {
     d \<leftarrow> RLEdecompress (content n) (contentSize n) (uncompressedSize n) newContentLen;
     d \<leftarrow> (if newContentLen \<le> length newContent
           then memcpy d (uncompressedSize n) (take newContentLen newContent) else None);
     RLEcompress d (uncompressedSize n + newContentLen)
   }"

text \<open>
  The eviction loop. The evicted files stay allocated, linked through \<open>nextPtr\<close> into the list
  that is sent to the client; \<open>assert(victim)\<close> fails when no other file is left.
\<close>

partial_function (option) evict_loop ::
  "env \<Rightarrow> ptr \<Rightarrow> nat \<Rightarrow> fd \<Rightarrow> CacheStorage \<Rightarrow> fd list \<Rightarrow> ptr \<Rightarrow> (CacheStorage \<times> fd list \<times> ptr) option"
where
  "evict_loop env fptr newCompressedSize requestor s notifyList evictedList = do {
     n \<leftarrow> deref s fptr;
     if size_add (size_sub (currStorageSize s) (contentSize n)) newCompressedSize > maxStorageSize s then do {
       (s, victim) \<leftarrow> getVictim s fptr;
       if victim = NULL then None
       else do {
         (s, tmpList) \<leftarrow> destroyFile s victim [] False;
         s \<leftarrow> modify s victim (\<lambda>v. v\<lparr>nextPtr := evictedList\<rparr>);
         v \<leftarrow> deref s victim;
         s \<leftarrow> logEvent env ''EVICTED'' (pathname v) 0 requestor 0 s;
         evict_loop env fptr newCompressedSize requestor s (concatenateFdLists notifyList tmpList) victim
       }
     } else Some (s, notifyList, evictedList)
   }"

text \<open>The update of the file and of the sizes once there is room.\<close>

definition store_content :: "CacheStorage \<Rightarrow> ptr \<Rightarrow> buffer \<Rightarrow> nat \<Rightarrow> nat \<Rightarrow> CacheStorage option" where
  "store_content s fptr newCompressedContent newCompressedSize newContentLen = do {
     n \<leftarrow> deref s fptr;
     let s = s\<lparr>currStorageSize := size_add (size_sub (currStorageSize s) (contentSize n)) newCompressedSize\<rparr>;
     let s = s\<lparr>maxReachedStorageSize :=
       (if maxReachedStorageSize s > currStorageSize s then maxReachedStorageSize s else currStorageSize s)\<rparr>;
     modify s fptr (\<lambda>n. n\<lparr>content := newCompressedContent,
       uncompressedSize := size_add (uncompressedSize n) newContentLen, contentSize := newCompressedSize\<rparr>)
   }"

definition writeToFile_body ::
  "env \<Rightarrow> CacheStorage \<Rightarrow> ptr \<Rightarrow> cstring \<Rightarrow> buffer \<Rightarrow> nat \<Rightarrow> fd list \<Rightarrow> ptr \<Rightarrow> fd \<Rightarrow>
   ((errno + int) \<times> fd list \<times> ptr \<times> CacheStorage) option"
where
  "writeToFile_body env s fptr path newContent newContentLen notifyList evictedList requestor = do {
     n \<leftarrow> deref s fptr;
     (newCompressedContent, newCompressedSize) \<leftarrow> appended_content n newContent newContentLen;
     if newCompressedSize > maxStorageSize s then do {
       s \<leftarrow> logEvent env ''WRITE'' path (errno_value E2BIG) requestor 0 s;
       Some (Inl E2BIG, notifyList, evictedList, s)
     }
     else do {
       (s, notifyList, evictedList) \<leftarrow>
         evict_loop env fptr newCompressedSize requestor s notifyList evictedList;
       s \<leftarrow> reset_refs s (hPtr s);
       s \<leftarrow> store_content s fptr newCompressedContent newCompressedSize newContentLen;
       s \<leftarrow> logEvent env ''WRITE'' path 0 requestor newContentLen s;
       s \<leftarrow> modify s fptr (\<lambda>n. n\<lparr>canDoFirstWrite := 0\<rparr>);
       Some (Inr 0, notifyList, evictedList, s)
     }
   }"

definition write_leave :: "CacheStorage \<Rightarrow> ptr \<Rightarrow> CacheStorage option" where
  "write_leave s fptr = modify s fptr (\<lambda>n. n\<lparr>isBeingWritten := False\<rparr>)"

definition writeToFileHandler ::
  "env \<Rightarrow> CacheStorage \<Rightarrow> cstring \<Rightarrow> buffer \<Rightarrow> nat \<Rightarrow> fd list \<Rightarrow> ptr \<Rightarrow> fd \<Rightarrow>
   ((errno + int) \<times> fd list \<times> ptr \<times> CacheStorage) option"
where
  "writeToFileHandler env s path newContent newContentLen notifyList evictedList requestor =
     (if bad_input path requestor then Some (Inl EINVAL, notifyList, evictedList, s)
      else do {
        (r, s) \<leftarrow> writeToFile_enter env s path requestor;
        (case r of
           Inl e \<Rightarrow> Some (Inl e, notifyList, evictedList, s)
         | Inr fptr \<Rightarrow> do {
             (r, notifyList, evictedList, s) \<leftarrow>
               writeToFile_body env s fptr path newContent newContentLen notifyList evictedList requestor;
             s \<leftarrow> write_leave s fptr;
             Some (r, notifyList, evictedList, s)
           })
      })"

section \<open>lockFileHandler\<close>

text \<open>The outcome of the first critical section: an error, the requestor is queued, or it may go on.\<close>

definition lockFile_enter ::
  "env \<Rightarrow> CacheStorage \<Rightarrow> cstring \<Rightarrow> fd \<Rightarrow> ((errno + ptr option) \<times> CacheStorage) option"
where
  "lockFile_enter env s path requestor =
     (case findFile s path of
        Inl e \<Rightarrow> do {
          s \<leftarrow> logEvent env ''LOCK'' path (errno_value e) requestor 0 s;
          Some (Inl e, s)
        }
      | Inr fptr \<Rightarrow> do {
          n \<leftarrow> deref s fptr;
          if \<not> quiet n then None
          else if lockedBy n \<noteq> 0 \<and> lockedBy n \<noteq> requestor then do {
            q \<leftarrow> pushFdToList (pendingLocks n) requestor;
            s \<leftarrow> modify s fptr (\<lambda>n. n\<lparr>pendingLocks := q\<rparr>);
            s \<leftarrow> logEvent env ''LOCK'' path (-2) requestor 0 s;
            Some (Inr None, s)
          }
          else do {
            s \<leftarrow> modify s fptr (\<lambda>n. update_cache_bits env (n\<lparr>isBeingWritten := True\<rparr>));
            Some (Inr (Some fptr), s)
          }
        })"

definition lockFile_body :: "env \<Rightarrow> CacheStorage \<Rightarrow> ptr \<Rightarrow> cstring \<Rightarrow> fd \<Rightarrow> CacheStorage option" where
  "lockFile_body env s fptr path requestor = do {
     s \<leftarrow> modify s fptr (\<lambda>n. n\<lparr>lockedBy := requestor\<rparr>);
     logEvent env ''LOCK'' path 0 requestor 0 s
   }"

text \<open>The second critical section, also that of \<open>closeFileHandler\<close>.\<close>

definition update_leave :: "CacheStorage \<Rightarrow> ptr \<Rightarrow> CacheStorage option" where
  "update_leave s fptr = modify s fptr (\<lambda>n. n\<lparr>isBeingWritten := False, canDoFirstWrite := 0\<rparr>)"

definition lockFileHandler :: "env \<Rightarrow> CacheStorage \<Rightarrow> cstring \<Rightarrow> fd \<Rightarrow> ((errno + int) \<times> CacheStorage) option" where
  "lockFileHandler env s path requestor = do {
     (r, s) \<leftarrow> lockFile_enter env s path requestor;
     (case r of
        Inl e \<Rightarrow> Some (Inl e, s)
      | Inr None \<Rightarrow> Some (Inr (-2), s)
      | Inr (Some fptr) \<Rightarrow> do {
          s \<leftarrow> lockFile_body env s fptr path requestor;
          s \<leftarrow> update_leave s fptr;
          Some (Inr 0, s)
        })
   }"

section \<open>clientExitHandler\<close>

text \<open>What happens to one file: its new node and the clients to be notified.\<close>

definition exit_node :: "fd \<Rightarrow> FileNode \<Rightarrow> fd list \<Rightarrow> (FileNode \<times> fd list) option" where
  "exit_node requestor n notifyList = do {
     (n, notifyList) \<leftarrow>
       (if lockedBy n = requestor then do {
          let (q, newLock) = popNodeFromFdQueue (pendingLocks n) (-1);
          notifyList \<leftarrow> (if 0 < newLock then pushFdToList notifyList newLock else Some notifyList);
          Some (n\<lparr>pendingLocks := q, lockedBy := newLock\<rparr>, notifyList)
        } else Some (n, notifyList));
     Some (n\<lparr>pendingLocks := fst (popNodeFromFdQueue (pendingLocks n) requestor),
             openDescriptors := fst (popNodeFromFdQueue (openDescriptors n) requestor)\<rparr>, notifyList)
   }"

partial_function (option) exit_loop :: "CacheStorage \<Rightarrow> fd \<Rightarrow> ptr \<Rightarrow> fd list \<Rightarrow> (CacheStorage \<times> fd list) option" where
  "exit_loop s requestor currPtr notifyList =
     (if currPtr = NULL then Some (s, notifyList)
      else do {
        n \<leftarrow> deref s currPtr;
        if \<not> quiet n then None
        else do {
          (n', notifyList) \<leftarrow> exit_node requestor n notifyList;
          s \<leftarrow> modify s currPtr (\<lambda>_. n');
          exit_loop s requestor (nextPtr n') notifyList
        }
      })"

definition clientExitHandler :: "CacheStorage \<Rightarrow> fd list \<Rightarrow> fd \<Rightarrow> ((errno + int) \<times> fd list \<times> CacheStorage) option" where
  "clientExitHandler s notifyList requestor =
     (if requestor \<le> 0 then Some (Inl EINVAL, notifyList, s)
      else do {
        (s, notifyList) \<leftarrow> exit_loop s requestor (hPtr s) notifyList;
        Some (Inr 0, notifyList, s)
      })"

section \<open>unlockFileHandler, closeFileHandler, removeFileHandler, testFirstWrite\<close>

definition unlockFileHandler ::
  "env \<Rightarrow> CacheStorage \<Rightarrow> cstring \<Rightarrow> fd \<Rightarrow> fd \<Rightarrow> ((errno + int) \<times> fd \<times> CacheStorage) option"
where
  "unlockFileHandler env s path newLockFd requestor =
     (if bad_input path requestor then Some (Inl EINVAL, newLockFd, s)
      else (case findFile s path of
        Inl e \<Rightarrow> do {
          s \<leftarrow> logEvent env ''UNLOCK'' path (errno_value e) requestor 0 s;
          Some (Inl e, newLockFd, s)
        }
      | Inr fptr \<Rightarrow> do {
          n \<leftarrow> deref s fptr;
          if \<not> quiet n then None
          else do {
            s \<leftarrow> modify s fptr (update_cache_bits env);
            if lockedBy n = requestor then do {
              let (q, newLock) = popNodeFromFdQueue (pendingLocks n) (-1);
              s \<leftarrow> modify s fptr (\<lambda>n. n\<lparr>pendingLocks := q, lockedBy := newLock, canDoFirstWrite := 0\<rparr>);
              s \<leftarrow> logEvent env ''UNLOCK'' path 0 requestor 0 s;
              Some (Inr 0, newLock, s)
            }
            else do {
              s \<leftarrow> logEvent env ''UNLOCK'' path (errno_value EACCES) requestor 0 s;
              Some (Inl EACCES, newLockFd, s)
            }
          }
        }))"

definition closeFileHandler :: "env \<Rightarrow> CacheStorage \<Rightarrow> cstring \<Rightarrow> fd \<Rightarrow> ((errno + int) \<times> CacheStorage) option" where
  "closeFileHandler env s path requestor =
     (if bad_input path requestor then Some (Inl EINVAL, s)
      else (case findFile s path of
        Inl e \<Rightarrow> Some (Inl e, s)
      | Inr fptr \<Rightarrow> do {
          n \<leftarrow> deref s fptr;
          if \<not> quiet n then None
          else do {
            s \<leftarrow> modify s fptr (\<lambda>n. update_cache_bits env (n\<lparr>isBeingWritten := True\<rparr>));
            s \<leftarrow> modify s fptr (\<lambda>n. n\<lparr>openDescriptors := fst (popNodeFromFdQueue (openDescriptors n) requestor)\<rparr>);
            s \<leftarrow> logEvent env ''CLOSE'' path 0 requestor 0 s;
            s \<leftarrow> update_leave s fptr;
            Some (Inr 0, s)
          }
        }))"

definition removeFileHandler ::
  "env \<Rightarrow> CacheStorage \<Rightarrow> cstring \<Rightarrow> fd list \<Rightarrow> fd \<Rightarrow> ((errno + int) \<times> fd list \<times> CacheStorage) option"
where
  "removeFileHandler env s path notifyList requestor =
     (if bad_input path requestor then Some (Inl EINVAL, notifyList, s)
      else (case findFile s path of
        Inl _ \<Rightarrow> Some (Inl ENOENT, notifyList, s)
      | Inr fptr \<Rightarrow> do {
          n \<leftarrow> deref s fptr;
          if lockedBy n \<noteq> requestor then Some (Inl EACCES, notifyList, s)
          else do {
            s \<leftarrow> logEvent env ''REMOVE'' path 0 requestor 0 s;
            (s, notifyList) \<leftarrow> destroyFile s fptr notifyList True;
            Some (Inr 0, notifyList, s)
          }
        }))"

definition testFirstWrite :: "CacheStorage \<Rightarrow> cstring \<Rightarrow> fd \<Rightarrow> bool option" where
  "testFirstWrite s path requestor =
     (if bad_input path requestor then Some False
      else (case findFile s path of
        Inl _ \<Rightarrow> Some False
      | Inr fptr \<Rightarrow> do { n \<leftarrow> deref s fptr; Some (canDoFirstWrite n = requestor) }))"

end
