(* ===== verification/Server.thy ===== *)
theory Server
  imports Handlers
begin

text \<open>
  The worker of \<^verbatim>\<open>src/src/server.c\<close>: reading a request from a client's socket, calling its handler
  and sending the response, the notifications and the evicted files. What a worker writes is a list of
  \<open>action\<close>s in the order of the calls. The input is the list of the bytes that the client sends
  until it closes the connection; a \<open>read\<close> waits for the bytes it asks for and returns fewer only at
  the end. A call on a socket or a pipe that fails ends the process (\<open>DIE_ON_NEG_ONE\<close>); here the
  calls succeed, and \<open>None\<close> is left for a fault, a handler that would wait, and a failed \<open>calloc\<close>.
\<close>

section \<open>Codes\<close>

definition READ_N_FILES :: int where "READ_N_FILES = 1"
definition OPEN_FILE :: int where "OPEN_FILE = 2"
definition READ_FILE :: int where "READ_FILE = 3"
definition WRITE_FILE :: int where "WRITE_FILE = 4"
definition APPEND_TO_FILE :: int where "APPEND_TO_FILE = 5"
definition LOCK_FILE :: int where "LOCK_FILE = 6"
definition UNLOCK_FILE :: int where "UNLOCK_FILE = 7"
definition CLOSE_FILE :: int where "CLOSE_FILE = 8"
definition REMOVE_FILE :: int where "REMOVE_FILE = 9"

definition OK :: nat where "OK = 1"
definition FILE_NOT_FOUND :: nat where "FILE_NOT_FOUND = 2"
definition FORBIDDEN :: nat where "FORBIDDEN = 3"
definition FILE_TOO_BIG :: nat where "FILE_TOO_BIG = 4"
definition BAD_REQUEST :: nat where "BAD_REQUEST = 6"
definition ALREADY_EXISTS :: nat where "ALREADY_EXISTS = 7"

section \<open>Output\<close>

text \<open>A write to a client's socket, a write to the pipe of the manager, the closing of a socket.\<close>

datatype action = Send fd buffer | Pipe buffer | Close fd

definition SEND_RESPONSE_CODE :: "fd \<Rightarrow> nat \<Rightarrow> action list" where
  "SEND_RESPONSE_CODE c code = [Send c (take 1 (show_nat code))]"

fun HANDLE_REQ_ERROR :: "fd \<Rightarrow> errno \<Rightarrow> action list" where
  "HANDLE_REQ_ERROR c ENOENT = SEND_RESPONSE_CODE c FILE_NOT_FOUND"
| "HANDLE_REQ_ERROR c EACCES = SEND_RESPONSE_CODE c FORBIDDEN"
| "HANDLE_REQ_ERROR c EPERM = SEND_RESPONSE_CODE c ALREADY_EXISTS"
| "HANDLE_REQ_ERROR c E2BIG = SEND_RESPONSE_CODE c FILE_TOO_BIG"
| "HANDLE_REQ_ERROR c EINVAL = SEND_RESPONSE_CODE c BAD_REQUEST"
| "HANDLE_REQ_ERROR c _ = []"

text \<open>A message on the pipe: \<open>%04d\<close>, cut to four characters by \<open>snprintf\<close>, and its terminator.\<close>

definition pad4 :: "nat \<Rightarrow> cstring" where
  "pad4 n = replicate (4 - length (show_nat n)) (CHR ''0'') @ show_nat n"

definition fd_msg :: "fd \<Rightarrow> buffer" where
  "fd_msg c = take 4 (pad4 (nat c)) @ [NUL]"

definition CLIENT_LEFT_MSG :: buffer where "CLIENT_LEFT_MSG = ''0000'' @ [NUL]"

definition NO_MORE_CONTENT :: cstring where "NO_MORE_CONTENT = ''0000000000''"

fun NOTIFY_PENDING_CLIENTS :: "fd list \<Rightarrow> nat \<Rightarrow> action list" where
  "NOTIFY_PENDING_CLIENTS [] code = []"
| "NOTIFY_PENDING_CLIENTS (c # cs) code =
     SEND_RESPONSE_CODE c code @ Pipe (fd_msg c) # NOTIFY_PENDING_CLIENTS cs code"

section \<open>Input\<close>

text \<open>\<open>readn\<close> into a block of zeros: the bytes read, up to the end of the input, and what is left.\<close>

definition readn :: "char list \<Rightarrow> nat \<Rightarrow> buffer \<times> char list" where
  "readn inp n = (take n inp @ replicate (n - length inp) NUL, drop n inp)"

text \<open>
  A length and as many bytes. A negative length is a huge \<open>size_t\<close>, for which \<open>calloc\<close> fails. The
  result is the block, with its terminator, and the length.
\<close>

definition getRequestPayloadSegment :: "char list \<Rightarrow> (buffer \<times> nat \<times> char list) option" where
  "getRequestPayloadSegment inp =
     (let (metadataBuf, inp) = readn inp METADATA_SIZE;
          segmentLen = atol (c_string metadataBuf) in
      if segmentLen < 0 then None
      else let (recvBuf, inp) = readn inp (nat segmentLen) in
        Some (recvBuf @ [NUL], nat segmentLen, inp))"

section \<open>Requests\<close>

definition serve_open ::
  "env \<Rightarrow> CacheStorage \<Rightarrow> fd \<Rightarrow> cstring \<Rightarrow> char list \<Rightarrow> (CacheStorage \<times> action list \<times> char list) option"
where
  "serve_open env s c path inp = do {
     let flagBuf = take 1 inp;
     let inp = drop 1 inp;
     let (err, flags) = isNumber (c_string (flagBuf @ [NUL]));
     if err \<noteq> 0 then Some (s, SEND_RESPONSE_CODE c BAD_REQUEST, inp)
     else do {
       (r, notifyList, s) \<leftarrow> openFileHandler env s path flags [] c;
       Some (s, case r of
           Inl e \<Rightarrow> HANDLE_REQ_ERROR c e
         | Inr _ \<Rightarrow> SEND_RESPONSE_CODE c OK @ NOTIFY_PENDING_CLIENTS notifyList FILE_NOT_FOUND, inp)
     }
   }"

definition serve_close :: "env \<Rightarrow> CacheStorage \<Rightarrow> fd \<Rightarrow> cstring \<Rightarrow> (CacheStorage \<times> action list) option" where
  "serve_close env s c path = do {
     (r, s) \<leftarrow> closeFileHandler env s path c;
     Some (s, case r of Inl e \<Rightarrow> HANDLE_REQ_ERROR c e | Inr _ \<Rightarrow> SEND_RESPONSE_CODE c OK)
   }"

text \<open>The length and the bytes of a content go out in one \<open>writen\<close>.\<close>

definition serve_read :: "env \<Rightarrow> CacheStorage \<Rightarrow> fd \<Rightarrow> cstring \<Rightarrow> (CacheStorage \<times> action list) option" where
  "serve_read env s c path = do {
     (r, s) \<leftarrow> readFileHandler env s path c;
     (case r of
        Inl e \<Rightarrow> Some (s, HANDLE_REQ_ERROR c e)
      | Inr (outBuf, readSize) \<Rightarrow>
          if length outBuf < readSize then None
          else do {
            sendLine \<leftarrow> memcpy (calloc (METADATA_SIZE + readSize + 1)) 0 (take METADATA_SIZE (pad10 readSize));
            sendLine \<leftarrow> memcpy sendLine METADATA_SIZE (take readSize outBuf);
            Some (s, SEND_RESPONSE_CODE c OK @ [Send c (take (METADATA_SIZE + readSize) sendLine)])
          })
   }"

text \<open>
  An invalid number is answered with an error, and the request is then served all the same, with a
  limit that was never set (\<open>unset\<close>). What the handler returns is not looked at: when it has not assigned a
  buffer, or freed it, the worker sends what is not there (\<open>None\<close>). The argument is taken with one plain
  \<open>read\<close>, which is modelled like \<open>readn\<close>: it gets the ten bytes when they are there, and a \<open>read\<close> that
  returns fewer of them before the end of the stream is not modelled.
\<close>

definition serve_read_n ::
  "env \<Rightarrow> int \<Rightarrow> CacheStorage \<Rightarrow> fd \<Rightarrow> char list \<Rightarrow> (CacheStorage \<times> action list \<times> char list) option"
where
  "serve_read_n env unset s c inp = do {
     let (argBuf, inp) = readn inp METADATA_SIZE;
     let (err, n) = isNumber (c_string (argBuf @ [NUL]));
     let upperLimit = (if err = 0 then n else unset);
     let bad = (if err = 0 then [] else SEND_RESPONSE_CODE c BAD_REQUEST);
     (_, buf, s) \<leftarrow> readNFilesHandler env (if err = 2 then Some ERANGE else None) s upperLimit c;
     (case buf of
        Some (Some res, resSize) \<Rightarrow>
          if length res < resSize then None
          else Some (s, bad @ SEND_RESPONSE_CODE c OK @ [Send c (take resSize res), Send c NO_MORE_CONTENT], inp)
      | _ \<Rightarrow> None)
   }"

text \<open>The evicted files, each with the sizes of its name and content; every node is freed.\<close>

definition deallocFile :: "CacheStorage \<Rightarrow> ptr \<Rightarrow> CacheStorage" where
  "deallocFile s fptr = s\<lparr>heap := (heap s)(fptr := None)\<rparr>"

definition SEND_EVICTED_FILE :: "fd \<Rightarrow> FileNode \<Rightarrow> buffer \<Rightarrow> action list option" where
  "SEND_EVICTED_FILE c file originalContent = do {
     let hdr = take (METADATA_SIZE + length (pathname file) + METADATA_SIZE)
       (pad10 (length (pathname file)) @ pathname file @ pad10 (uncompressedSize file));
     if length originalContent < uncompressedSize file then None
     else do {
       evictedBuf \<leftarrow> memcpy (calloc (METADATA_SIZE + length (pathname file) + METADATA_SIZE + uncompressedSize file + 1)) 0 hdr;
       evictedBuf \<leftarrow> memcpy evictedBuf (length (c_string evictedBuf)) (take (uncompressedSize file) originalContent);
       Some [Send c (take (METADATA_SIZE + length (pathname file) + METADATA_SIZE + uncompressedSize file) evictedBuf)]
     }
   }"

partial_function (option) send_evicted :: "CacheStorage \<Rightarrow> fd \<Rightarrow> ptr \<Rightarrow> (CacheStorage \<times> action list) option" where
  "send_evicted s c evictedList =
     (if evictedList = NULL then Some (s, [])
      else do {
        n \<leftarrow> deref s evictedList;
        originalContent \<leftarrow> RLEdecompress (content n) (contentSize n) (uncompressedSize n) 0;
        out \<leftarrow> SEND_EVICTED_FILE c n originalContent;
        (s, rest) \<leftarrow> send_evicted (deallocFile s evictedList) c (nextPtr n);
        Some (s, out @ rest)
      })"

definition serve_append ::
  "env \<Rightarrow> CacheStorage \<Rightarrow> fd \<Rightarrow> cstring \<Rightarrow> char list \<Rightarrow> (CacheStorage \<times> action list \<times> char list) option"
where
  "serve_append env s c path inp = do {
     (recvLine2, fileContentSize, inp) \<leftarrow> getRequestPayloadSegment inp;
     (r, notifyList, evictedList, s) \<leftarrow> writeToFileHandler env s path recvLine2 fileContentSize [] NULL c;
     (case r of
        Inl e \<Rightarrow> Some (s, HANDLE_REQ_ERROR c e, inp)
      | Inr _ \<Rightarrow> do {
          (s, out) \<leftarrow> send_evicted s c evictedList;
          Some (s, SEND_RESPONSE_CODE c OK @ NOTIFY_PENDING_CLIENTS notifyList FILE_NOT_FOUND @ out @
                   [Send c NO_MORE_CONTENT], inp)
        })
   }"

text \<open>\<open>writeFile\<close> is an append that is allowed only right after the creation of the file.\<close>

definition serve_write ::
  "env \<Rightarrow> CacheStorage \<Rightarrow> fd \<Rightarrow> cstring \<Rightarrow> char list \<Rightarrow> (CacheStorage \<times> action list \<times> char list) option"
where
  "serve_write env s c path inp = do {
     first \<leftarrow> testFirstWrite s path c;
     if \<not> first then do {
       (_, _, inp) \<leftarrow> getRequestPayloadSegment inp;
       Some (s, SEND_RESPONSE_CODE c FORBIDDEN, inp)
     }
     else serve_append env s c path inp
   }"

text \<open>The flag says whether the client goes back to the manager; it does not when it is queued.\<close>

definition serve_lock :: "env \<Rightarrow> CacheStorage \<Rightarrow> fd \<Rightarrow> cstring \<Rightarrow> (CacheStorage \<times> action list \<times> bool) option" where
  "serve_lock env s c path = do {
     (outcome, s) \<leftarrow> lockFileHandler env s path c;
     Some (case outcome of
         Inl e \<Rightarrow> (s, HANDLE_REQ_ERROR c e, True)
       | Inr r \<Rightarrow> if r = -2 then (s, [], False) else (s, SEND_RESPONSE_CODE c OK, True))
   }"

definition serve_unlock :: "env \<Rightarrow> CacheStorage \<Rightarrow> fd \<Rightarrow> cstring \<Rightarrow> (CacheStorage \<times> action list) option" where
  "serve_unlock env s c path = do {
     (r, newLock, s) \<leftarrow> unlockFileHandler env s path 0 c;
     Some (s, case r of
         Inl e \<Rightarrow> HANDLE_REQ_ERROR c e
       | Inr _ \<Rightarrow> SEND_RESPONSE_CODE c OK @
           (if newLock \<noteq> 0 then SEND_RESPONSE_CODE newLock OK @ [Pipe (fd_msg newLock)] else []))
   }"

definition serve_remove :: "env \<Rightarrow> CacheStorage \<Rightarrow> fd \<Rightarrow> cstring \<Rightarrow> (CacheStorage \<times> action list) option" where
  "serve_remove env s c path = do {
     (r, notifyList, s) \<leftarrow> removeFileHandler env s path [] c;
     Some (s, case r of
         Inl e \<Rightarrow> HANDLE_REQ_ERROR c e
       | Inr _ \<Rightarrow> SEND_RESPONSE_CODE c OK @ NOTIFY_PENDING_CLIENTS notifyList FILE_NOT_FOUND)
   }"

section \<open>The worker\<close>

text \<open>The requests that name a file: the actions, what is left of the input, and \<open>putFdBack\<close>.\<close>

definition serve_file ::
  "env \<Rightarrow> CacheStorage \<Rightarrow> fd \<Rightarrow> int \<Rightarrow> cstring \<Rightarrow> char list \<Rightarrow> (CacheStorage \<times> action list \<times> char list \<times> bool) option"
where
  "serve_file env s c requestCode path inp =
     (if requestCode = OPEN_FILE then do { (s, out, inp) \<leftarrow> serve_open env s c path inp; Some (s, out, inp, True) }
      else if requestCode = CLOSE_FILE then do { (s, out) \<leftarrow> serve_close env s c path; Some (s, out, inp, True) }
      else if requestCode = READ_FILE then do { (s, out) \<leftarrow> serve_read env s c path; Some (s, out, inp, True) }
      else if requestCode = WRITE_FILE then do { (s, out, inp) \<leftarrow> serve_write env s c path inp; Some (s, out, inp, True) }
      else if requestCode = APPEND_TO_FILE then do { (s, out, inp) \<leftarrow> serve_append env s c path inp; Some (s, out, inp, True) }
      else if requestCode = LOCK_FILE then do { (s, out, back) \<leftarrow> serve_lock env s c path; Some (s, out, inp, back) }
      else if requestCode = UNLOCK_FILE then do { (s, out) \<leftarrow> serve_unlock env s c path; Some (s, out, inp, True) }
      else if requestCode = REMOVE_FILE then do { (s, out) \<leftarrow> serve_remove env s c path; Some (s, out, inp, True) }
      else Some (s, SEND_RESPONSE_CODE c BAD_REQUEST, inp, True))"

text \<open>
  One round of the loop of \<open>_startWorker\<close> for the ready descriptor \<open>c\<close>. With no byte left to read the
  client has gone.
\<close>

definition serve :: "env \<Rightarrow> int \<Rightarrow> CacheStorage \<Rightarrow> fd \<Rightarrow> char list \<Rightarrow> (CacheStorage \<times> action list \<times> char list) option" where
  "serve env unset s c inp =
     (case inp of
        [] \<Rightarrow> do {
          (r, notifyList, s) \<leftarrow> clientExitHandler s [] c;
          (case r of
             Inl _ \<Rightarrow> None
           | Inr _ \<Rightarrow> Some (s, Close c # NOTIFY_PENDING_CLIENTS notifyList OK @ [Pipe CLIENT_LEFT_MSG], []))
        }
      | b # inp \<Rightarrow>
          let requestCode = atol (c_string [b, NUL]) in
          if requestCode = READ_N_FILES then do {
            (s, out, inp) \<leftarrow> serve_read_n env unset s c inp;
            Some (s, out @ [Pipe (fd_msg c)], inp)
          }
          else do {
            (recvLine1, _, inp) \<leftarrow> getRequestPayloadSegment inp;
            (s, out, inp, putFdBack) \<leftarrow> serve_file env s c requestCode (c_string recvLine1) inp;
            Some (s, out @ (if putFdBack then [Pipe (fd_msg c)] else []), inp)
          })"

end
