(* ===== verification/StorageSpec.thy ===== *)
theory StorageSpec
  imports Storage
begin

text \<open>
  The file storage without its pointers: a list of files in order of insertion, each with its
  uncompressed content. \<open>store_rep s xs\<close> says that the linked list, the hash table, the counters and
  the compressed contents of the store \<open>s\<close> are consistent, \<open>xs\<close> being the nodes in list order;
  \<open>abs_store s xs\<close> is the abstract store it stands for. The lemmas show that each operation of
  \<open>Storage\<close> keeps \<open>store_rep\<close> and acts on \<open>abs_store\<close> as the corresponding list operation.
\<close>

section \<open>Abstract files\<close>

record afile =
  a_path :: cstring
  a_data :: "char list"
  a_lock :: fd
  a_wait :: "fd list"
  a_open :: "fd list"
  a_first :: fd
  a_refs :: nat
  a_last :: int
  a_ins :: int

record fstore =
  f_files :: "afile list"
  f_maxNum :: nat
  f_maxSize :: nat
  f_algo :: int
  f_log :: "buffer list"
  f_topNum :: nat
  f_topSize :: nat
  f_victims :: nat

definition csize :: "afile \<Rightarrow> nat" where
  "csize f = length (rle_spec (a_data f))"

definition total_size :: "afile list \<Rightarrow> nat" where
  "total_size fs = sum_list (map csize fs)"

definition a_lookup :: "afile list \<Rightarrow> cstring \<Rightarrow> afile option" where
  "a_lookup fs p = find (\<lambda>f. a_path f = p) fs"

definition a_update :: "cstring \<Rightarrow> (afile \<Rightarrow> afile) \<Rightarrow> afile list \<Rightarrow> afile list" where
  "a_update p g fs = map (\<lambda>f. if a_path f = p then g f else f) fs"

definition a_remove :: "cstring \<Rightarrow> afile list \<Rightarrow> afile list" where
  "a_remove p fs = filter (\<lambda>f. a_path f \<noteq> p) fs"

section \<open>The store that the pointers represent\<close>

abbreviation node_at :: "CacheStorage \<Rightarrow> ptr \<Rightarrow> FileNode" where
  "node_at s a \<equiv> the (heap s a)"

definition file_data :: "FileNode \<Rightarrow> char list" where
  "file_data n = (case RLEdecompress (content n) (contentSize n) (uncompressedSize n) 0 of
     Some d \<Rightarrow> d | None \<Rightarrow> [NUL])"

definition content_ok :: "FileNode \<Rightarrow> bool" where
  "content_ok n \<longleftrightarrow>
     uncompressedSize n = length (file_data n) \<and> contentSize n = length (rle_spec (file_data n)) \<and>
     (file_data n \<noteq> [] \<longrightarrow> RLEcompress (file_data n) (length (file_data n)) = Some (content n, contentSize n))"

definition node_ok :: "FileNode \<Rightarrow> bool" where
  "node_ok n \<longleftrightarrow> content_ok n"

definition abs_file :: "FileNode \<Rightarrow> afile" where
  "abs_file n =
     \<lparr>a_path = pathname n, a_data = file_data n, a_lock = lockedBy n, a_wait = pendingLocks n,
      a_open = openDescriptors n, a_first = canDoFirstWrite n, a_refs = refCount n,
      a_last = lastRef n, a_ins = insertionTime n\<rparr>"

definition abs_files :: "CacheStorage \<Rightarrow> ptr list \<Rightarrow> afile list" where
  "abs_files s xs = map (\<lambda>a. abs_file (node_at s a)) xs"

definition abs_store :: "CacheStorage \<Rightarrow> ptr list \<Rightarrow> fstore" where
  "abs_store s xs =
     \<lparr>f_files = abs_files s xs, f_maxNum = maxFileNum s, f_maxSize = maxStorageSize s,
      f_algo = replacementAlgo s, f_log = logBuffer s, f_topNum = maxReachedFileNum s,
      f_topSize = maxReachedStorageSize s, f_victims = numVictims s\<rparr>"

definition list_rep :: "CacheStorage \<Rightarrow> ptr list \<Rightarrow> bool" where
  "list_rep s xs \<longleftrightarrow>
     distinct xs \<and> dll (heap s) NULL xs NULL \<and> hPtr s = first_of xs NULL \<and> tPtr s = last_of xs NULL"

definition dict_rep :: "CacheStorage \<Rightarrow> ptr list \<Rightarrow> bool" where
  "dict_rep s xs \<longleftrightarrow>
     ht_wf (dictStore s) \<and> distinct (map (\<lambda>a. pathname (node_at s a)) xs) \<and>
     ht_map (dictStore s) = map_of (map (\<lambda>a. (pathname (node_at s a), a)) xs)"

definition count_rep :: "CacheStorage \<Rightarrow> ptr list \<Rightarrow> bool" where
  "count_rep s xs \<longleftrightarrow>
     currFileNum s = length xs \<and> currStorageSize s = total_size (abs_files s xs) \<and>
     length xs \<le> maxFileNum s \<and> maxFileNum s < size_max \<and>
     currStorageSize s \<le> maxStorageSize s \<and> maxStorageSize s < size_max"

definition store_rep :: "CacheStorage \<Rightarrow> ptr list \<Rightarrow> bool" where
  "store_rep s xs \<longleftrightarrow>
     list_rep s xs \<and> dict_rep s xs \<and> count_rep s xs \<and> (\<forall>a \<in> set xs. node_ok (node_at s a)) \<and>
     0 \<le> replacementAlgo s \<and> replacementAlgo s \<le> 2"

section \<open>Reading the representation\<close>

lemma abs_file_links [simp]:
  "abs_file (n\<lparr>prevPtr := p\<rparr>) = abs_file n" "abs_file (n\<lparr>nextPtr := p\<rparr>) = abs_file n"
  "abs_file (n\<lparr>isBeingWritten := b\<rparr>) = abs_file n" "abs_file (n\<lparr>activeReaders := r\<rparr>) = abs_file n"
  by (simp_all add: abs_file_def file_data_def)

lemma abs_file_sel [simp]:
  "a_path (abs_file n) = pathname n" "a_data (abs_file n) = file_data n"
  "a_lock (abs_file n) = lockedBy n" "a_wait (abs_file n) = pendingLocks n"
  "a_open (abs_file n) = openDescriptors n" "a_first (abs_file n) = canDoFirstWrite n"
  "a_refs (abs_file n) = refCount n" "a_last (abs_file n) = lastRef n" "a_ins (abs_file n) = insertionTime n"
  by (simp_all add: abs_file_def)

lemma node_ok_cong:
  assumes "content n' = content n" "contentSize n' = contentSize n"
    "uncompressedSize n' = uncompressedSize n"
  shows "node_ok n' = node_ok n" and "file_data n' = file_data n"
  using assms by (simp_all add: node_ok_def content_ok_def file_data_def)

lemma node_ok_csize: "node_ok n \<Longrightarrow> contentSize n = csize (abs_file n)"
  by (simp add: node_ok_def content_ok_def csize_def)

lemma abs_files_simps [simp]:
  "abs_files s [] = []"
  "abs_files s (a # xs) = abs_file (node_at s a) # abs_files s xs"
  "abs_files s (xs @ ys) = abs_files s xs @ abs_files s ys"
  "length (abs_files s xs) = length xs"
  by (simp_all add: abs_files_def)

lemma total_size_simps [simp]:
  "total_size [] = 0" "total_size (f # fs) = csize f + total_size fs" "total_size (fs @ gs) = total_size fs + total_size gs"
  by (simp_all add: total_size_def)

lemma abs_files_frame:
  "(\<And>a. a \<in> set xs \<Longrightarrow> heap s' a = heap s a) \<Longrightarrow> abs_files s' xs = abs_files s xs"
  by (simp add: abs_files_def)

lemma paths_abs: "map (\<lambda>a. pathname (node_at s a)) xs = map a_path (abs_files s xs)"
  by (simp add: abs_files_def)

lemma store_rep_node:
  "store_rep s xs \<Longrightarrow> a \<in> set xs \<Longrightarrow> a \<noteq> NULL \<and> (\<exists>n. heap s a = Some n \<and> node_ok n)"
  using dll_node [of "heap s" NULL xs NULL a] by (fastforce simp: store_rep_def list_rep_def)

lemma store_rep_deref:
  "store_rep s xs \<Longrightarrow> a \<in> set xs \<Longrightarrow> deref s a = Some (node_at s a)"
  using store_rep_node [of s xs a] by (auto simp: deref_def)

lemma store_rep_split:
  assumes "store_rep s (us @ a # vs)"
  shows "prevPtr (node_at s a) = last_of us NULL" and "nextPtr (node_at s a) = first_of vs NULL"
  using assms by (auto simp: store_rep_def list_rep_def dll_append)

lemma a_lookup_iff:
  assumes "distinct (map a_path fs)"
  shows "a_lookup fs p = Some f \<longleftrightarrow> f \<in> set fs \<and> a_path f = p"
  using assms by (induction fs) (auto simp: a_lookup_def image_iff)

lemma a_lookup_in: "a_lookup fs p = Some f \<Longrightarrow> f \<in> set fs \<and> a_path f = p"
  by (auto simp: a_lookup_def find_Some_iff)

lemma a_lookup_None: "a_lookup fs p = None \<longleftrightarrow> (\<forall>f \<in> set fs. a_path f \<noteq> p)"
  by (auto simp: a_lookup_def find_None_iff)

lemma a_absent:
  assumes "\<forall>f \<in> set fs. a_path f \<noteq> p"
  shows "a_update p g fs = fs" and "a_remove p fs = fs"
  using assms by (induction fs) (auto simp: a_update_def a_remove_def)

lemma a_append [simp]:
  "a_update p g (fs @ gs) = a_update p g fs @ a_update p g gs"
  "a_remove p (fs @ gs) = a_remove p fs @ a_remove p gs"
  "a_update p g (f # fs) = (if a_path f = p then g f else f) # a_update p g fs"
  "a_remove p (f # fs) = (if a_path f = p then a_remove p fs else f # a_remove p fs)"
  "a_update p g [] = []" "a_remove p [] = []"
  by (simp_all add: a_update_def a_remove_def)

lemma a_update_split:
  assumes "distinct (map a_path (fs @ f # gs))"
  shows "a_update (a_path f) g (fs @ f # gs) = fs @ g f # gs"
    and "a_remove (a_path f) (fs @ f # gs) = fs @ gs"
    and "a_lookup (fs @ f # gs) (a_path f) = Some f"
proof -
  have fs: "\<forall>f' \<in> set fs. a_path f' \<noteq> a_path f" and gs: "\<forall>f' \<in> set gs. a_path f' \<noteq> a_path f"
    using assms by (auto simp: image_iff)
  show "a_update (a_path f) g (fs @ f # gs) = fs @ g f # gs" and "a_remove (a_path f) (fs @ f # gs) = fs @ gs"
    by (simp_all add: a_absent [OF fs] a_absent [OF gs])
  show "a_lookup (fs @ f # gs) (a_path f) = Some f"
    using a_lookup_iff [OF assms] by simp
qed

text \<open>The three outcomes of a search.\<close>

lemma find_file:
  assumes "store_rep s xs"
  obtains (empty) "p = []" "findFile s p = Inl EINVAL"
  | (missing) "p \<noteq> []" "findFile s p = Inl ENOENT" "a_lookup (abs_files s xs) p = None"
  | (found) us a vs where "p \<noteq> []" "findFile s p = Inr a" "xs = us @ a # vs" "pathname (node_at s a) = p"
      "a_lookup (abs_files s xs) p = Some (abs_file (node_at s a))"
proof (cases "p = []")
  case True
  then show ?thesis using empty by (simp add: findFile_def)
next
  case False
  have wf: "ht_wf (dictStore s)" and dist: "distinct (map (\<lambda>a. pathname (node_at s a)) xs)"
    and dict: "ht_map (dictStore s) = map_of (map (\<lambda>a. (pathname (node_at s a), a)) xs)"
    using assms by (simp_all add: store_rep_def dict_rep_def)
  have find: "icl_hash_find (dictStore s) p = ht_map (dictStore s) p"
    using wf by (rule icl.find_contents)
  show ?thesis
  proof (cases "ht_map (dictStore s) p")
    case None
    then have "a_lookup (abs_files s xs) p = None"
      by (auto simp: dict map_of_eq_None_iff a_lookup_None abs_files_def image_iff)
    then show ?thesis using missing False None find by (simp add: findFile_def)
  next
    case (Some a)
    then have "a \<in> set xs" and path: "pathname (node_at s a) = p"
      by (auto simp: dict dest!: map_of_SomeD)
    then obtain us vs where xs: "xs = us @ a # vs" by (meson split_list)
    have "a_lookup (abs_files s xs) p = Some (abs_file (node_at s a))"
      using a_update_split(3) [of "abs_files s us" "abs_file (node_at s a)" "abs_files s vs"] dist path
      by (simp add: xs paths_abs)
    then show ?thesis using found [of a us vs] False Some find xs path by (simp add: findFile_def)
  qed
qed

section \<open>Updating a node\<close>

text \<open>A change of a node that leaves its links, its name and the size of its content alone.\<close>

lemma store_rep_update:
  assumes rep: "store_rep s (us @ a # vs)" and n: "heap s a = Some n"
    and "prevPtr n' = prevPtr n" "nextPtr n' = nextPtr n" "pathname n' = pathname n"
    and "contentSize n' = contentSize n" and "node_ok n'"
  shows "store_rep (s\<lparr>heap := (heap s)(a \<mapsto> n')\<rparr>) (us @ a # vs)"
    and "abs_files (s\<lparr>heap := (heap s)(a \<mapsto> n')\<rparr>) (us @ a # vs) =
      abs_files s us @ abs_file n' # abs_files s vs"
proof -
  let ?s' = "s\<lparr>heap := (heap s)(a \<mapsto> n')\<rparr>"
  have nin: "a \<notin> set us" "a \<notin> set vs" using rep by (auto simp: store_rep_def list_rep_def)
  have fr: "abs_files ?s' us = abs_files s us" "abs_files ?s' vs = abs_files s vs"
    using nin by (auto intro!: abs_files_frame)
  show files: "abs_files ?s' (us @ a # vs) = abs_files s us @ abs_file n' # abs_files s vs"
    by (simp add: fr)
  have paths: "pathname (node_at ?s' b) = pathname (node_at s b)" for b
    using n assms(5) by simp
  have sz: "csize (abs_file n') = csize (abs_file (node_at s a))"
    using assms(6,7) rep n node_ok_csize [of n'] node_ok_csize [of n] by (auto simp: store_rep_def)
  have dl: "dll (heap s) NULL (us @ a # vs) NULL" using rep by (simp add: store_rep_def list_rep_def)
  have "list_rep ?s' (us @ a # vs)"
    using rep dll_update [OF dl n assms(3,4)] by (simp add: store_rep_def list_rep_def)
  moreover have "dict_rep ?s' (us @ a # vs)"
    using rep by (simp only: store_rep_def dict_rep_def paths) simp
  moreover have "count_rep ?s' (us @ a # vs)"
    using rep sz by (simp add: store_rep_def count_rep_def fr)
  moreover have "\<forall>b \<in> set (us @ a # vs). node_ok (node_at ?s' b)"
    using rep assms(7) by (auto simp: store_rep_def)
  ultimately show "store_rep ?s' (us @ a # vs)" using rep by (simp add: store_rep_def)
qed

text \<open>Fields that no part of the representation looks at.\<close>

lemma store_rep_irrelevant [simp]:
  "store_rep (s\<lparr>logBuffer := l\<rparr>) xs = store_rep s xs"
  "store_rep (s\<lparr>numVictims := v\<rparr>) xs = store_rep s xs"
  "store_rep (s\<lparr>maxReachedFileNum := v\<rparr>) xs = store_rep s xs"
  "store_rep (s\<lparr>maxReachedStorageSize := v\<rparr>) xs = store_rep s xs"
  "abs_files (s\<lparr>logBuffer := l\<rparr>) xs = abs_files s xs"
  "abs_files (s\<lparr>numVictims := v\<rparr>) xs = abs_files s xs"
  "abs_files (s\<lparr>maxReachedFileNum := v\<rparr>) xs = abs_files s xs"
  "abs_files (s\<lparr>maxReachedStorageSize := v\<rparr>) xs = abs_files s xs"
  by (simp_all add: store_rep_def list_rep_def dict_rep_def count_rep_def abs_files_def)

lemma abs_files_fields [simp]:
  "abs_files (s\<lparr>hPtr := p\<rparr>) xs = abs_files s xs"
  "abs_files (s\<lparr>tPtr := p\<rparr>) xs = abs_files s xs"
  "abs_files (s\<lparr>dictStore := d\<rparr>) xs = abs_files s xs"
  "abs_files (s\<lparr>currFileNum := k\<rparr>) xs = abs_files s xs"
  "abs_files (s\<lparr>currStorageSize := k\<rparr>) xs = abs_files s xs"
  by (simp_all add: abs_files_def)

section \<open>Removing a file\<close>

lemma destroyFile_links:
  assumes rep: "list_rep s (us @ a # vs)" and n: "heap s a = Some n"
  obtains s' where
    "(if prevPtr n \<noteq> NULL then modify s (prevPtr n) (\<lambda>p. p\<lparr>nextPtr := nextPtr n\<rparr>)
      else Some (s\<lparr>hPtr := nextPtr n\<rparr>)) \<bind>
     (\<lambda>s. if nextPtr n \<noteq> NULL then modify s (nextPtr n) (\<lambda>p. p\<lparr>prevPtr := prevPtr n\<rparr>)
           else Some (s\<lparr>tPtr := prevPtr n\<rparr>)) = Some s'"
    and "list_rep s' (us @ vs)" and "abs_files s' us = abs_files s us" and "abs_files s' vs = abs_files s vs"
    and "heap s' a = Some n" and "\<And>b. b \<notin> set us \<Longrightarrow> b \<notin> set vs \<Longrightarrow> heap s' b = heap s b"
    and "\<And>b. node_ok (node_at s b) \<Longrightarrow> node_ok (node_at s' b)"
    and "\<And>b. pathname (node_at s' b) = pathname (node_at s b)"
    and "\<And>b. activity (node_at s' b) = activity (node_at s b)"
    and "\<exists>h t hp. s' = s\<lparr>hPtr := h, tPtr := t, heap := hp\<rparr>"
proof -
  have dist: "distinct (us @ a # vs)" and dl: "dll (heap s) NULL (us @ a # vs) NULL"
    and hd: "hPtr s = first_of (us @ a # vs) NULL" and tl: "tPtr s = last_of (us @ a # vs) NULL"
    using rep by (simp_all add: list_rep_def)
  have nn: "NULL \<notin> set (us @ a # vs)" using dll_node [OF dl] by blast
  have ud: "dll (heap s) NULL us a" and vd: "dll (heap s) a vs NULL" and dn: "a \<noteq> NULL"
    using dl by (auto simp: dll_append)
  note un = dll_unlink [OF dl dist nn nn n]
  define f where "f = (if us \<noteq> [] then (\<lambda>s. s\<lparr>heap := (heap s)(last_of us NULL \<mapsto>
      (node_at s (last_of us NULL))\<lparr>nextPtr := first_of vs NULL\<rparr>)\<rparr>)
    else (\<lambda>s. s\<lparr>hPtr := first_of vs NULL\<rparr>))"
  define g where "g = (if vs \<noteq> [] then (\<lambda>s. s\<lparr>heap := (heap s)(first_of vs NULL \<mapsto>
      (node_at s (first_of vs NULL))\<lparr>prevPtr := last_of us NULL\<rparr>)\<rparr>)
    else (\<lambda>s. s\<lparr>tPtr := last_of us NULL\<rparr>))"
  have lu: "us \<noteq> [] \<Longrightarrow> last_of us NULL \<in> set us \<and> last_of us NULL \<noteq> NULL \<and> (\<exists>y. heap s (last_of us NULL) = Some y)"
    using dll_node [OF ud last_of_in] last_of_in [of us NULL] by simp
  have fv: "vs \<noteq> [] \<Longrightarrow> first_of vs NULL \<in> set vs \<and> first_of vs NULL \<noteq> NULL \<and> (\<exists>z. heap s (first_of vs NULL) = Some z)"
    using dll_node [OF vd first_of_in] first_of_in [of vs NULL] by simp
  have pn: "prevPtr n \<noteq> NULL \<longleftrightarrow> us \<noteq> []" "nextPtr n \<noteq> NULL \<longleftrightarrow> vs \<noteq> []"
    using un(1,2) lu fv by (metis last_of.simps(1), metis first_of.simps(1))
  have disj: "set us \<inter> set vs = {}" "a \<notin> set us" "a \<notin> set vs" using dist by auto
  have eq1: "(if prevPtr n \<noteq> NULL then modify s (prevPtr n) (\<lambda>p. p\<lparr>nextPtr := nextPtr n\<rparr>)
      else Some (s\<lparr>hPtr := nextPtr n\<rparr>)) = Some (f s)"
  proof (cases "us = []")
    case False
    then obtain y where "last_of us NULL \<noteq> NULL" "heap s (last_of us NULL) = Some y" using lu by blast
    then show ?thesis using False pn(1) by (simp add: un(1,2) f_def modify_def deref_def)
  qed (use pn(1) in \<open>simp add: un(1,2) f_def\<close>)
  have eq2: "(if nextPtr n \<noteq> NULL then modify (f s) (nextPtr n) (\<lambda>p. p\<lparr>prevPtr := prevPtr n\<rparr>)
      else Some ((f s)\<lparr>tPtr := prevPtr n\<rparr>)) = Some (g (f s))"
  proof (cases "vs = []")
    case False
    then obtain z where z: "first_of vs NULL \<noteq> NULL" "heap s (first_of vs NULL) = Some z"
      and "first_of vs NULL \<in> set vs" using fv by blast
    then have "us \<noteq> [] \<Longrightarrow> first_of vs NULL \<noteq> last_of us NULL" using lu disj by auto
    then show ?thesis using False pn(2) z by (simp add: un(1,2) f_def g_def modify_def deref_def)
  qed (use pn(2) in \<open>simp add: un(1,2) g_def\<close>)
  show ?thesis
  proof (rule that [of "g (f s)"])
    show "(if prevPtr n \<noteq> NULL then modify s (prevPtr n) (\<lambda>p. p\<lparr>nextPtr := nextPtr n\<rparr>)
      else Some (s\<lparr>hPtr := nextPtr n\<rparr>)) \<bind>
     (\<lambda>s. if nextPtr n \<noteq> NULL then modify s (nextPtr n) (\<lambda>p. p\<lparr>prevPtr := prevPtr n\<rparr>)
           else Some (s\<lparr>tPtr := prevPtr n\<rparr>)) = Some (g (f s))"
      by (simp only: eq1 eq2 Option.bind.simps)
    have u': "dll (heap (g (f s))) NULL us (first_of vs NULL)"
    proof (cases "us = []")
      case False
      then obtain y where y: "heap s (last_of us NULL) = Some y" using lu by blast
      have "first_of vs NULL \<notin> set us" if "vs \<noteq> []" using fv [OF that] disj by auto
      then show ?thesis using un(3) [OF False y] y False
        by (cases "vs = []") (simp_all add: f_def g_def)
    qed simp
    have v': "dll (heap (g (f s))) (last_of us NULL) vs NULL"
    proof (cases "vs = []")
      case False
      then obtain z where z: "heap s (first_of vs NULL) = Some z" using fv by blast
      have "last_of us NULL \<notin> set vs" if "us \<noteq> []" using lu [OF that] disj by auto
      moreover have "last_of us NULL \<noteq> first_of vs NULL" if "us \<noteq> []"
        using lu [OF that] fv [OF False] disj by auto
      ultimately show ?thesis using un(4) [OF False z] z False
        by (cases "us = []") (simp_all add: f_def g_def fun_upd_twist)
    qed simp
    show "list_rep (g (f s)) (us @ vs)"
    proof -
      have "hPtr (g (f s)) = first_of (us @ vs) NULL"
        using hd by (cases us) (simp_all add: f_def g_def)
      moreover have "tPtr (g (f s)) = last_of (us @ vs) NULL"
        using tl last_of_ne [of vs a "last_of us NULL"] by (simp add: f_def g_def last_of_append)
      moreover have "dll (heap (g (f s))) NULL (us @ vs) NULL"
        using u' v' by (simp only: dll_append)
      ultimately show ?thesis using dist by (simp add: list_rep_def)
    qed
    show "abs_files (g (f s)) us = abs_files s us" "abs_files (g (f s)) vs = abs_files s vs"
      by (simp_all add: abs_files_def f_def g_def)
    show other: "heap (g (f s)) b = heap s b" if "b \<notin> set us" "b \<notin> set vs" for b
    proof -
      have "us \<noteq> [] \<Longrightarrow> b \<noteq> last_of us NULL" and "vs \<noteq> [] \<Longrightarrow> b \<noteq> first_of vs NULL"
        using that last_of_in first_of_in by blast+
      then show ?thesis by (simp add: f_def g_def)
    qed
    show "heap (g (f s)) a = Some n" using n disj other by simp
    show "node_ok (node_at s b) \<Longrightarrow> node_ok (node_at (g (f s)) b)" for b
      by (auto simp: f_def g_def node_ok_def quiet_def content_ok_def file_data_def)
    show "pathname (node_at (g (f s)) b) = pathname (node_at s b)" for b
      by (simp add: f_def g_def)
    show "activity (node_at (g (f s)) b) = activity (node_at s b)" for b
      by (simp add: f_def g_def activity_def)
    show "\<exists>h t hp. g (f s) = s\<lparr>hPtr := h, tPtr := t, heap := hp\<rparr>"
      by (cases s) (auto simp: f_def g_def)
  qed
qed

lemma map_of_remove_middle:
  assumes "distinct (map fst (kus @ (k, v) # kvs))"
  shows "map_of (kus @ kvs) = (map_of (kus @ (k, v) # kvs))(k := None)"
proof -
  have "k \<notin> fst ` set kus" and "k \<notin> fst ` set kvs" using assms by auto
  then have "map_of kus k = None" and "map_of kvs k = None" by (simp_all add: map_of_eq_None_iff)
  then show ?thesis by (auto simp: fun_eq_iff map_add_def split: option.splits)
qed

lemma destroyFile_rep:
  assumes rep: "store_rep s (us @ a # vs)" and quiet_a: "quiet (node_at s a)"
  obtains s' where
    "destroyFile s a nl d =
       Some (s', if pendingLocks (node_at s a) \<noteq> [] then pendingLocks (node_at s a) else nl)"
    and "store_rep s' (us @ vs)"
    and "abs_store s' (us @ vs) = (abs_store s (us @ a # vs))\<lparr>f_files := abs_files s us @ abs_files s vs\<rparr>"
    and "heap s' a = (if d then None else Some ((node_at s a)\<lparr>openDescriptors := []\<rparr>))"
    and "\<And>b. b \<notin> set (us @ a # vs) \<Longrightarrow> heap s' b = heap s b"
    and "\<And>b. b \<in> set (us @ vs) \<Longrightarrow> activity (node_at s' b) = activity (node_at s b)"
proof -
  obtain n where n: "heap s a = Some n" and nok: "node_ok n" and an: "a \<noteq> NULL"
    using store_rep_node [OF rep, of a] by auto
  have lr: "list_rep s (us @ a # vs)" using rep by (simp add: store_rep_def)
  then have nin: "a \<notin> set us" "a \<notin> set vs" and du: "distinct (us @ vs)" by (auto simp: list_rep_def)
  obtain s1 where links: "(if prevPtr n \<noteq> NULL then modify s (prevPtr n) (\<lambda>p. p\<lparr>nextPtr := nextPtr n\<rparr>)
      else Some (s\<lparr>hPtr := nextPtr n\<rparr>)) \<bind>
     (\<lambda>s. if nextPtr n \<noteq> NULL then modify s (nextPtr n) (\<lambda>p. p\<lparr>prevPtr := prevPtr n\<rparr>)
           else Some (s\<lparr>tPtr := prevPtr n\<rparr>)) = Some s1"
    and lr1: "list_rep s1 (us @ vs)" and fu: "abs_files s1 us = abs_files s us"
    and fv: "abs_files s1 vs = abs_files s vs" and h1: "heap s1 a = Some n"
    and fr1: "\<And>b. b \<notin> set us \<Longrightarrow> b \<notin> set vs \<Longrightarrow> heap s1 b = heap s b"
    and nok1: "\<And>b. node_ok (node_at s b) \<Longrightarrow> node_ok (node_at s1 b)"
    and path1: "\<And>b. pathname (node_at s1 b) = pathname (node_at s b)"
    and quiet1: "\<And>b. activity (node_at s1 b) = activity (node_at s b)"
    and "\<exists>h t hp. s1 = s\<lparr>hPtr := h, tPtr := t, heap := hp\<rparr>"
    by (rule destroyFile_links [OF lr n]) (rule that)
  then obtain h t hp where s1: "s1 = s\<lparr>hPtr := h, tPtr := t, heap := hp\<rparr>" by blast
  have wf: "ht_wf (dictStore s)" and dp: "distinct (map (\<lambda>b. pathname (node_at s b)) (us @ a # vs))"
    and dm: "ht_map (dictStore s) = map_of (map (\<lambda>b. (pathname (node_at s b), b)) (us @ a # vs))"
    using rep by (simp_all add: store_rep_def dict_rep_def)
  have "distinct (map fst (map (\<lambda>b. (pathname (node_at s b), b)) (us @ a # vs)))"
    using dp by (simp add: comp_def)
  then have dist_kv: "distinct (map fst (map (\<lambda>b. (pathname (node_at s b), b)) us @
      (pathname n, a) # map (\<lambda>b. (pathname (node_at s b), b)) vs))"
    using n by simp
  have at: "ht_map (dictStore s) (pathname n) \<noteq> None"
    using n by (simp add: dm map_add_def split: option.split)
  let ?del = "icl_hash_delete (dictStore s) (pathname n)"
  have del: "snd ?del = 0" "ht_wf (fst ?del)" "ht_map (fst ?del) = (ht_map (dictStore s))(pathname n := None)"
    using icl.delete_present [OF wf at] by simp_all
  define s2 where "s2 = s1\<lparr>heap := (heap s1)(a := (if d then None else Some (n\<lparr>openDescriptors := []\<rparr>))),
     currFileNum := size_sub (currFileNum s) 1, currStorageSize := size_sub (currStorageSize s) (contentSize n),
     dictStore := fst ?del\<rparr>"
  have quiet: "quiet n" using quiet_a n by simp
  have res: "destroyFile s a nl d = Some (s2, if pendingLocks n \<noteq> [] then pendingLocks n else nl)"
  proof -
    have mod: "modify s1 a (\<lambda>n. n\<lparr>openDescriptors := []\<rparr>) =
        Some (s1\<lparr>heap := (heap s1)(a \<mapsto> n\<lparr>openDescriptors := []\<rparr>)\<rparr>)"
      using h1 an by (simp add: modify_def deref_def)
    have d0: "deref s a = Some n" using n an by (simp add: deref_def)
    have sel: "dictStore s1 = dictStore s" "currFileNum s1 = currFileNum s"
      "currStorageSize s1 = currStorageSize s" by (simp_all add: s1)
    show ?thesis
      unfolding destroyFile_def d0 Option.bind.simps bind_assoc [symmetric]
      by (subst links) (simp add: quiet mod Let_def s2_def sel case_prod_beta del(1))
  qed
  have files: "abs_files s2 us = abs_files s us" "abs_files s2 vs = abs_files s vs"
    using fu fv nin by (auto simp: s2_def abs_files_def)
  have path2: "pathname (node_at s2 b) = pathname (node_at s b)" if "b \<noteq> a" for b
    using path1 [of b] that by (simp add: s2_def)
  have cs: "contentSize n = csize (abs_file n)" using node_ok_csize [OF nok] .
  have cnt: "currFileNum s = length (us @ a # vs)" "currStorageSize s = total_size (abs_files s (us @ a # vs))"
    "length (us @ a # vs) \<le> maxFileNum s" "maxFileNum s < size_max"
    "currStorageSize s \<le> maxStorageSize s" "maxStorageSize s < size_max"
    using rep unfolding store_rep_def count_rep_def by blast+
  have c1: "size_sub (currFileNum s) 1 = length (us @ vs)"
    using cnt(1,3,4) by (subst size_sub_small) simp_all
  have c2: "size_sub (currStorageSize s) (contentSize n) = total_size (abs_files s us) + total_size (abs_files s vs)"
    using cnt(2,5,6) n cs by (subst size_sub_small) simp_all
  have "list_rep s2 (us @ vs)"
    using lr1 nin by (simp add: list_rep_def s2_def)
  moreover have "dict_rep s2 (us @ vs)"
  proof -
    have eq: "map (\<lambda>b. (pathname (node_at s2 b), b)) us = map (\<lambda>b. (pathname (node_at s b), b)) us"
      "map (\<lambda>b. (pathname (node_at s2 b), b)) vs = map (\<lambda>b. (pathname (node_at s b), b)) vs"
      "map (\<lambda>b. pathname (node_at s2 b)) us = map (\<lambda>b. pathname (node_at s b)) us"
      "map (\<lambda>b. pathname (node_at s2 b)) vs = map (\<lambda>b. pathname (node_at s b)) vs"
      using nin path2 by (simp_all, (metis path2 nin)+)
    have "ht_map (fst ?del) = map_of (map (\<lambda>b. (pathname (node_at s b), b)) us @
        map (\<lambda>b. (pathname (node_at s b), b)) vs)"
      using map_of_remove_middle [OF dist_kv] n by (simp only: del(3) dm map_append list.map option.sel)
    then show ?thesis using dp del(2) unfolding dict_rep_def map_append eq
      by (simp add: s2_def)
  qed
  moreover have "count_rep s2 (us @ vs)"
    using cnt c1 c2 files by (simp add: count_rep_def s2_def s1)
  moreover have "\<forall>b \<in> set (us @ vs). node_ok (node_at s2 b)"
  proof
    fix b assume "b \<in> set (us @ vs)"
    then have "node_ok (node_at s b)" and "b \<noteq> a" using rep nin by (auto simp: store_rep_def)
    then show "node_ok (node_at s2 b)" using nok1 by (simp add: s2_def)
  qed
  ultimately have rep2: "store_rep s2 (us @ vs)"
    using rep by (simp add: store_rep_def s2_def s1)
  show ?thesis
  proof (rule that [of s2])
    show "destroyFile s a nl d = Some (s2, if pendingLocks (node_at s a) \<noteq> [] then pendingLocks (node_at s a) else nl)"
      using res n by simp
    show "store_rep s2 (us @ vs)" by (rule rep2)
    show "abs_store s2 (us @ vs) = (abs_store s (us @ a # vs))\<lparr>f_files := abs_files s us @ abs_files s vs\<rparr>"
      using files by (simp add: abs_store_def s2_def s1)
    show "heap s2 a = (if d then None else Some ((node_at s a)\<lparr>openDescriptors := []\<rparr>))"
      using n by (simp add: s2_def)
    show "heap s2 b = heap s b" if "b \<notin> set (us @ a # vs)" for b
      using fr1 [of b] that by (simp add: s2_def)
    show "activity (node_at s2 b) = activity (node_at s b)" if "b \<in> set (us @ vs)" for b
    proof -
      have "b \<noteq> a" using that nin by auto
      then show ?thesis using quiet1 [of b] by (simp add: s2_def)
    qed
  qed
qed

section \<open>Adding a file\<close>

lemma addFile_links:
  assumes rep: "list_rep s xs" and n: "heap s p = Some n" and p: "p \<noteq> NULL" "p \<notin> set xs"
    and links: "prevPtr n = NULL" "nextPtr n = NULL"
  obtains s' where
    "(if hPtr s = NULL then Some (s\<lparr>hPtr := p\<rparr>)
      else modify s p (\<lambda>n. n\<lparr>prevPtr := tPtr s\<rparr>) \<bind>
           (\<lambda>s. if tPtr s \<noteq> NULL then modify s (tPtr s) (\<lambda>n. n\<lparr>nextPtr := p\<rparr>) else Some s)) = Some s'"
    and "list_rep (s'\<lparr>tPtr := p\<rparr>) (xs @ [p])" and "abs_files s' xs = abs_files s xs"
    and "\<exists>q. heap s' p = Some (n\<lparr>prevPtr := q\<rparr>)"
    and "\<And>b. b \<notin> set xs \<Longrightarrow> b \<noteq> p \<Longrightarrow> heap s' b = heap s b"
    and "\<And>b. node_ok (node_at s b) \<Longrightarrow> node_ok (node_at s' b)"
    and "\<And>b. pathname (node_at s' b) = pathname (node_at s b)"
    and "\<And>b. activity (node_at s' b) = activity (node_at s b)"
    and "\<exists>h hp. s' = s\<lparr>hPtr := h, heap := hp\<rparr>"
proof -
  have dist: "distinct xs" and dl: "dll (heap s) NULL xs NULL"
    and hd: "hPtr s = first_of xs NULL" and tl: "tPtr s = last_of xs NULL"
    using rep by (simp_all add: list_rep_def)
  show ?thesis
  proof (cases "xs = []")
    case True
    show ?thesis
    proof (rule that [of "s\<lparr>hPtr := p\<rparr>"])
      show "list_rep (s\<lparr>hPtr := p, tPtr := p\<rparr>) (xs @ [p])"
        using True n p links by (simp add: list_rep_def)
      show "\<exists>q. heap (s\<lparr>hPtr := p\<rparr>) p = Some (n\<lparr>prevPtr := q\<rparr>)"
        using n links by (intro exI [of _ NULL]) simp
      show "\<exists>h hp. s\<lparr>hPtr := p\<rparr> = s\<lparr>hPtr := h, heap := hp\<rparr>"
        by (intro exI [of _ p] exI [of _ "heap s"]) simp
    qed (use True hd in simp_all)
  next
    case False
    define q where "q = last_of xs NULL"
    have q: "q \<in> set xs" unfolding q_def using last_of_in [OF False] .
    have "q \<noteq> NULL \<and> (\<exists>y. heap s q = Some y)" using dll_node [OF dl q] .
    then obtain y where qn: "q \<noteq> NULL" and y: "heap s q = Some y" by blast
    have qp: "q \<noteq> p" using q p by auto
    have h: "hPtr s \<noteq> NULL" using hd dll_node [OF dl first_of_in [OF False]] by simp
    define hp where "hp = (heap s)(p \<mapsto> n\<lparr>prevPtr := q\<rparr>, q \<mapsto> y\<lparr>nextPtr := p\<rparr>)"
    show ?thesis
    proof (rule that [of "s\<lparr>heap := hp\<rparr>"])
      show "(if hPtr s = NULL then Some (s\<lparr>hPtr := p\<rparr>)
        else modify s p (\<lambda>n. n\<lparr>prevPtr := tPtr s\<rparr>) \<bind>
           (\<lambda>s. if tPtr s \<noteq> NULL then modify s (tPtr s) (\<lambda>n. n\<lparr>nextPtr := p\<rparr>) else Some s)) =
        Some (s\<lparr>heap := hp\<rparr>)"
        using h n p y qn qp by (simp add: modify_def deref_def tl q_def [symmetric] hp_def)
      have "dll ((heap s)(q \<mapsto> y\<lparr>nextPtr := p\<rparr>)) NULL xs p"
        using dll_set_next [OF dl False dist] y by (simp add: q_def)
      then have "dll hp NULL xs p"
        using p(2) dll_frame_upd [of p xs "(heap s)(q \<mapsto> y\<lparr>nextPtr := p\<rparr>)"] qp
        by (simp add: hp_def fun_upd_twist [of p q])
      then have "dll hp NULL (xs @ [p]) NULL"
        using p(1) qp links by (simp add: dll_append q_def [symmetric] hp_def)
      then show "list_rep (s\<lparr>heap := hp, tPtr := p\<rparr>) (xs @ [p])"
        using False hd dist p by (cases xs) (simp_all add: list_rep_def last_of_append)
      show "abs_files (s\<lparr>heap := hp\<rparr>) xs = abs_files s xs"
        using p(2) y unfolding abs_files_def hp_def by (intro map_cong) auto
      show "\<exists>q. heap (s\<lparr>heap := hp\<rparr>) p = Some (n\<lparr>prevPtr := q\<rparr>)"
        using qp by (intro exI [of _ q]) (simp add: hp_def)
      show "heap (s\<lparr>heap := hp\<rparr>) b = heap s b" if "b \<notin> set xs" "b \<noteq> p" for b
        using that q by (auto simp: hp_def)
      show "node_ok (node_at s b) \<Longrightarrow> node_ok (node_at (s\<lparr>heap := hp\<rparr>) b)" for b
        using n y by (auto simp: hp_def node_ok_def quiet_def content_ok_def file_data_def)
      show "pathname (node_at (s\<lparr>heap := hp\<rparr>) b) = pathname (node_at s b)" for b
        using n y by (simp add: hp_def)
      show "activity (node_at (s\<lparr>heap := hp\<rparr>) b) = activity (node_at s b)" for b
        using n y by (simp add: hp_def activity_def)
      show "\<exists>h hp'. s\<lparr>heap := hp\<rparr> = s\<lparr>hPtr := h, heap := hp'\<rparr>"
        by (intro exI [of _ "hPtr s"] exI [of _ hp]) simp
    qed
  qed
qed

lemma addFileToStore_rep:
  assumes rep: "store_rep s xs" and n: "heap s p = Some n" and p: "p \<noteq> NULL" "p \<notin> set xs"
    and links: "prevPtr n = NULL" "nextPtr n = NULL" and nok: "node_ok n"
    and new: "a_lookup (abs_files s xs) (pathname n) = None" and room: "length xs < maxFileNum s"
    and size: "currStorageSize s + contentSize n \<le> maxStorageSize s"
  obtains s' where "addFileToStore s p = Some s'" and "store_rep s' (xs @ [p])"
    and "abs_store s' (xs @ [p]) = (abs_store s xs)\<lparr>f_files := abs_files s xs @ [abs_file n],
      f_topNum := max (maxReachedFileNum s) (length xs + 1),
      f_topSize := max (maxReachedStorageSize s) (currStorageSize s + contentSize n)\<rparr>"
    and "\<And>b. b \<notin> set xs \<Longrightarrow> b \<noteq> p \<Longrightarrow> heap s' b = heap s b"
    and "\<And>b. activity (node_at s' b) = activity (node_at s b)"
proof -
  have lr: "list_rep s xs" using rep by (simp add: store_rep_def)
  obtain s1 where run: "(if hPtr s = NULL then Some (s\<lparr>hPtr := p\<rparr>)
      else modify s p (\<lambda>n. n\<lparr>prevPtr := tPtr s\<rparr>) \<bind>
           (\<lambda>s. if tPtr s \<noteq> NULL then modify s (tPtr s) (\<lambda>n. n\<lparr>nextPtr := p\<rparr>) else Some s)) = Some s1"
    and lr1: "list_rep (s1\<lparr>tPtr := p\<rparr>) (xs @ [p])" and f1: "abs_files s1 xs = abs_files s xs"
    and hp1: "\<exists>q. heap s1 p = Some (n\<lparr>prevPtr := q\<rparr>)"
    and fr1: "\<And>b. b \<notin> set xs \<Longrightarrow> b \<noteq> p \<Longrightarrow> heap s1 b = heap s b"
    and nok1: "\<And>b. node_ok (node_at s b) \<Longrightarrow> node_ok (node_at s1 b)"
    and path1: "\<And>b. pathname (node_at s1 b) = pathname (node_at s b)"
    and quiet1: "\<And>b. activity (node_at s1 b) = activity (node_at s b)"
    and "\<exists>h hp. s1 = s\<lparr>hPtr := h, heap := hp\<rparr>"
    by (rule addFile_links [OF lr n p links]) (rule that)
  then obtain h hp where s1: "s1 = s\<lparr>hPtr := h, heap := hp\<rparr>" by blast
  obtain q where np: "heap s1 p = Some (n\<lparr>prevPtr := q\<rparr>)" using hp1 by blast
  have wf: "ht_wf (dictStore s)" and dp: "distinct (map (\<lambda>b. pathname (node_at s b)) xs)"
    and dm: "ht_map (dictStore s) = map_of (map (\<lambda>b. (pathname (node_at s b), b)) xs)"
    using rep by (simp_all add: store_rep_def dict_rep_def)
  have fresh: "pathname n \<notin> (\<lambda>b. pathname (node_at s b)) ` set xs"
    using new by (auto simp: a_lookup_None abs_files_def)
  then have none: "ht_map (dictStore s) (pathname n) = None"
    unfolding dm map_of_eq_None_iff by (simp add: image_image)
  let ?ins = "icl_hash_insert True (dictStore s) (pathname n) p"
  have ins: "snd ?ins" "ht_wf (fst ?ins)" "ht_map (fst ?ins) = (ht_map (dictStore s))(pathname n \<mapsto> p)"
    using icl.insert_absent [OF wf none, of p] by simp_all
  have cnt: "currFileNum s = length xs" "currStorageSize s = total_size (abs_files s xs)"
    "maxFileNum s < size_max" "maxStorageSize s < size_max"
    using rep unfolding store_rep_def count_rep_def by blast+
  have c1: "size_add (currFileNum s) 1 = length xs + 1"
    using cnt room by (subst size_add_small) simp_all
  have c2: "size_add (currStorageSize s) (contentSize n) = currStorageSize s + contentSize n"
    using size cnt(4) by (intro size_add_small) simp
  define s2 where "s2 = s1\<lparr>tPtr := p, dictStore := fst ?ins, currFileNum := length xs + 1,
     currStorageSize := currStorageSize s + contentSize n,
     maxReachedFileNum := max (maxReachedFileNum s) (length xs + 1),
     maxReachedStorageSize := max (maxReachedStorageSize s) (currStorageSize s + contentSize n)\<rparr>"
  have d1: "deref (s1\<lparr>tPtr := p\<rparr>) p = Some (n\<lparr>prevPtr := q\<rparr>)" using np p(1) by (simp add: deref_def)
  have sel: "dictStore s1 = dictStore s" "currFileNum s1 = currFileNum s" "currStorageSize s1 = currStorageSize s"
    "maxReachedFileNum s1 = maxReachedFileNum s" "maxReachedStorageSize s1 = maxReachedStorageSize s"
    by (simp_all add: s1)
  have res: "addFileToStore s p = Some s2"
    unfolding addFileToStore_def run Option.bind.simps Let_def d1
    using ins(1) c1 c2 by (simp add: case_prod_beta sel s2_def max_def)
  have f2: "abs_files s2 (xs @ [p]) = abs_files s xs @ [abs_file n]"
    using f1 np by (simp add: s2_def)
  have path2: "pathname (node_at s2 b) = pathname (node_at s b)" for b
    using path1 by (simp add: s2_def)
  have "list_rep s2 (xs @ [p])" using lr1 by (simp add: list_rep_def s2_def)
  moreover have "dict_rep s2 (xs @ [p])"
  proof -
    have "ht_map (fst ?ins) = map_of (map (\<lambda>b. (pathname (node_at s b), b)) (xs @ [p]))"
      using n fresh none by (auto simp: ins(3) dm fun_eq_iff map_add_def split: option.splits)
    moreover have "distinct (map (\<lambda>b. pathname (node_at s b)) (xs @ [p]))"
      using dp fresh n by simp
    ultimately show ?thesis using ins(2) unfolding dict_rep_def path2 by (simp add: s2_def)
  qed
  moreover have "count_rep s2 (xs @ [p])"
    using cnt room size node_ok_csize [OF nok] f2 by (simp add: count_rep_def s2_def s1)
  moreover have "\<forall>b \<in> set (xs @ [p]). node_ok (node_at s2 b)"
    using rep nok1 n nok by (auto simp: store_rep_def s2_def)
  ultimately have "store_rep s2 (xs @ [p])" using rep by (simp add: store_rep_def s2_def s1)
  moreover have "abs_store s2 (xs @ [p]) = (abs_store s xs)\<lparr>f_files := abs_files s xs @ [abs_file n],
      f_topNum := max (maxReachedFileNum s) (length xs + 1),
      f_topSize := max (maxReachedStorageSize s) (currStorageSize s + contentSize n)\<rparr>"
    using f2 by (simp add: abs_store_def s2_def s1)
  moreover have "heap s2 b = heap s b" if "b \<notin> set xs" "b \<noteq> p" for b
    using fr1 that by (simp add: s2_def)
  moreover have "activity (node_at s2 b) = activity (node_at s b)" for b
    using quiet1 by (simp add: s2_def)
  ultimately show ?thesis using that res by blast
qed

end
