(* ===== verification/Example.thy ===== *)
theory Example
  imports StorageSpec
begin

text \<open>
  A small store on which the properties of the storage are exercised: a file \<open>/a\<close> with content
  \<open>xx\<close>, locked by client 5 with client 6 waiting, and an empty file \<open>/b\<close> that both have opened.
\<close>

definition example_a :: FileNode where
  "example_a = \<lparr>pathname = ''/a'', content = ''xx2'' @ [NUL], contentSize = 3, uncompressedSize = 2,
     lockedBy = 5, pendingLocks = [6], openDescriptors = [5], isBeingWritten = False, activeReaders = 0,
     canDoFirstWrite = 0, refCount = 4, lastRef = 200, insertionTime = 100, prevPtr = NULL, nextPtr = 2\<rparr>"

definition example_b :: FileNode where
  "example_b = \<lparr>pathname = ''/b'', content = calloc INITIALBUFSIZ, contentSize = 0, uncompressedSize = 0,
     lockedBy = 0, pendingLocks = [], openDescriptors = [5, 6], isBeingWritten = False, activeReaders = 0,
     canDoFirstWrite = 0, refCount = 1, lastRef = 150, insertionTime = 120, prevPtr = 1, nextPtr = NULL\<rparr>"

definition example_dict :: "ptr icl_hash" where
  "example_dict = \<lparr>nbuckets = 1, nentries = 2, buckets = [[(''/b'', 2), (''/a'', 1)]],
     hash_function = hash_pjw, hash_key_compare = string_compare\<rparr>"

definition example_store :: "int \<Rightarrow> CacheStorage" where
  "example_store algo = \<lparr>maxFileNum = 2, maxStorageSize = 10, currFileNum = 2, currStorageSize = 3,
     replacementAlgo = algo, hPtr = 1, tPtr = 2, dictStore = example_dict, logBuffer = [],
     maxReachedFileNum = 2, maxReachedStorageSize = 3, numVictims = 0,
     heap = [1 \<mapsto> example_a, 2 \<mapsto> example_b]\<rparr>"

lemma example_xx: "rle_spec ''xx'' = ''xx2''"
  by (simp add: chunk_mid digit_char_def char_of_def bit_simps bit_0)

lemma example_data [simp]: "file_data example_a = ''xx''" "file_data example_b = []"
proof -
  have "RLEdecompress (''xx2'' @ [NUL]) 3 2 0 = Some ''xx''"
    using RLEdecompress_spec [of "''xx''" 0] unfolding example_xx by (simp add: calloc_def numeral_3_eq_3 numeral_2_eq_2)
  then show "file_data example_a = ''xx''" by (simp add: file_data_def example_a_def)
  show "file_data example_b = []"
    using rle.dec_enc [of "[]" "[]" 0 0]
    by (simp add: file_data_def example_b_def RLEdecompress_def rld_loop.simps calloc_def)
qed

lemma example_ok: "node_ok example_a" "node_ok example_b"
proof -
  have "RLEcompress ''xx'' 2 = Some (''xx2'' @ [NUL], 3)"
    using RLEcompress_spec [of "''xx''"] unfolding example_xx by (simp add: calloc_def numeral_2_eq_2)
  then show "node_ok example_a"
    unfolding node_ok_def content_ok_def example_data example_xx
    by (simp add: example_a_def quiet_def numeral_2_eq_2)
  show "node_ok example_b"
    unfolding node_ok_def content_ok_def example_data by (simp add: example_b_def quiet_def)
qed

lemma example_quiet: "quiet example_a" "quiet example_b"
  by (simp_all add: quiet_def example_a_def example_b_def)

lemma example_dict_wf: "ht_wf example_dict"
  by (simp add: ht_wf_def example_dict_def hash_val_def)

lemma example_rep: "0 \<le> algo \<Longrightarrow> algo \<le> 2 \<Longrightarrow> store_rep (example_store algo) [1, 2]"
proof -
  assume algo: "0 \<le> algo" "algo \<le> 2"
  have h: "heap (example_store algo) 1 = Some example_a" "heap (example_store algo) 2 = Some example_b"
    by (simp_all add: example_store_def)
  note h' = h [unfolded One_nat_def]
  have sel: "prevPtr example_a = NULL" "nextPtr example_a = 2" "prevPtr example_b = 1"
    "nextPtr example_b = NULL" "pathname example_a = ''/a''" "pathname example_b = ''/b''"
    by (simp_all add: example_a_def example_b_def)
  have "list_rep (example_store algo) [1, 2]"
    by (simp add: list_rep_def example_store_def sel)
  moreover have "dict_rep (example_store algo) [1, 2]"
  proof -
    have "ht_map example_dict = map_of [(''/a'', 1), (''/b'', 2)]"
      by (auto simp: fun_eq_iff ht_map_def example_dict_def hash_val_def)
    moreover have "dictStore (example_store algo) = example_dict" by (simp add: example_store_def)
    ultimately show ?thesis using example_dict_wf by (simp add: dict_rep_def h' sel)
  qed
  moreover have "count_rep (example_store algo) [1, 2]"
  proof -
    have "total_size (abs_files (example_store algo) [1, 2]) = 3"
      unfolding abs_files_simps total_size_simps csize_def h option.sel abs_file_sel example_data example_xx
      by simp
    moreover have "(10::nat) < size_max" "(2::nat) < size_max" by (simp_all add: size_max_def)
    ultimately show ?thesis unfolding count_rep_def by (simp add: example_store_def)
  qed
  ultimately show ?thesis
    using example_ok algo by (simp add: store_rep_def h') (simp add: example_store_def)
qed

end
