(* ===== verification/Eviction.thy ===== *)
theory Eviction
  imports Example
begin

text \<open>
  The choice of a victim, on the abstract store and as \<open>getVictim\<close> makes it on the linked list, the
  reset of the reference counts, and what the three replacement policies guarantee as long as
  times and counts fit in an \<open>int\<close>.
\<close>

section \<open>The policies on the list of files\<close>

definition a_cmp :: "int \<Rightarrow> afile \<Rightarrow> afile \<Rightarrow> int" where
  "a_cmp algo f1 f2 =
     int_of_long (if algo = LRU_ALGO then a_last f2 - a_last f1 else int (size_sub (a_refs f2) (a_refs f1)))"

definition better :: "int \<Rightarrow> afile \<Rightarrow> afile \<Rightarrow> afile" where
  "better algo v f = (if 0 < a_cmp algo f v then f else v)"

definition candidates :: "cstring option \<Rightarrow> afile list \<Rightarrow> afile list" where
  "candidates spare fs = filter (\<lambda>f. Some (a_path f) \<noteq> spare) fs"

definition a_victim :: "int \<Rightarrow> cstring option \<Rightarrow> afile list \<Rightarrow> afile option" where
  "a_victim algo spare fs =
     (case candidates spare fs of
        [] \<Rightarrow> None
      | c # cs \<Rightarrow> Some (if algo = FIFO_ALGO then c else foldl (better algo) c cs))"

definition a_reset :: "afile list \<Rightarrow> afile list" where
  "a_reset fs = map (\<lambda>f. f\<lparr>a_refs := 0\<rparr>) fs"

section \<open>The scan of the linked list\<close>

lemma size_sub_self [simp]: "size_sub a a = 0"
proof -
  have "a mod size_max \<le> size_max" by (simp add: less_imp_le)
  then have "a + (size_max - a mod size_max) = (a - a mod size_max) + size_max"
    using mod_less_eq_dividend [of a size_max] by linarith
  also have "\<dots> = size_max * (a div size_max + 1)"
    by (simp add: minus_mod_eq_mult_div)
  finally show ?thesis unfolding size_sub_def by (simp only: mod_mult_self1_is_0)
qed

lemma a_cmp_self [simp]: "a_cmp algo f f = 0"
  by (simp add: a_cmp_def int_of_long_def)

lemma cmp_fns_abs:
  "algo = 1 \<or> algo = 2 \<Longrightarrow> \<exists>cmp. cmp_fns algo = Some cmp \<and> (\<forall>c v. cmp c v = a_cmp algo (abs_file c) (abs_file v))"
  by (auto simp: cmp_fns_def lru_cmp_def lfu_cmp_def a_cmp_def LRU_ALGO_def)

definition pick :: "CacheStorage \<Rightarrow> ptr \<Rightarrow> ptr \<Rightarrow> ptr \<Rightarrow> ptr" where
  "pick s spare v c =
     (if c \<noteq> spare \<and> 0 < a_cmp (replacementAlgo s) (abs_file (node_at s c)) (abs_file (node_at s v)) then c else v)"

lemma victim_scan_pick:
  assumes algo: "replacementAlgo s = 1 \<or> replacementAlgo s = 2"
  shows "dll (heap s) p ys NULL \<Longrightarrow> v \<noteq> NULL \<and> heap s v \<noteq> None \<or> set ys \<subseteq> {spare} \<Longrightarrow>
    victim_scan s (first_of ys NULL) spare v = Some (foldl (pick s spare) v ys)"
proof (induction ys arbitrary: p v)
  case Nil
  then show ?case by (simp add: victim_scan.simps)
next
  case (Cons c ys)
  obtain cmp where cmp: "cmp_fns (replacementAlgo s) = Some cmp"
    and abs: "cmp x y = a_cmp (replacementAlgo s) (abs_file x) (abs_file y)" for x y
    using cmp_fns_abs [OF algo] by blast
  obtain n where n: "c \<noteq> NULL" "heap s c = Some n" "nextPtr n = first_of ys NULL" and dl: "dll (heap s) c ys NULL"
    using Cons.prems(1) by auto
  show ?case
  proof (cases "c = spare")
    case True
    then have "pick s spare v c = v" by (simp add: pick_def)
    moreover have "v \<noteq> NULL \<and> heap s v \<noteq> None \<or> set ys \<subseteq> {spare}" using Cons.prems(2) by auto
    ultimately show ?thesis
      using Cons.IH [OF dl, of v] n True by (subst victim_scan.simps) (simp add: deref_def)
  next
    case False
    then have v: "v \<noteq> NULL" "heap s v \<noteq> None" using Cons.prems(2) by auto
    then obtain w where w: "heap s v = Some w" by blast
    have "pick s spare v c \<noteq> NULL \<and> heap s (pick s spare v c) \<noteq> None"
      using v n by (simp add: pick_def)
    then have "victim_scan s (first_of ys NULL) spare (pick s spare v c) =
        Some (foldl (pick s spare) (pick s spare v c) ys)"
      using Cons.IH [OF dl] by blast
    then show ?thesis
      using n False v(1) w by (subst victim_scan.simps) (auto simp: deref_def cmp abs pick_def split: if_splits)
  qed
qed

lemma pick_foldl:
  assumes "v \<noteq> spare"
  shows "foldl (pick s spare) v ys \<in> insert v (set ys) - {spare}"
    and "abs_file (node_at s (foldl (pick s spare) v ys)) =
      foldl (better (replacementAlgo s)) (abs_file (node_at s v)) (abs_files s (filter (\<lambda>a. a \<noteq> spare) ys))"
  using assms
proof (induction ys arbitrary: v)
  case (Cons c ys)
  { case 1
    then show ?case using Cons.IH(1) [of "pick s spare v c"] by (auto simp: pick_def split: if_splits) }
  { case 2
    then have "pick s spare v c \<noteq> spare" by (simp add: pick_def)
    note ih = Cons.IH(2) [OF this]
    show ?case
    proof (cases "c = spare")
      case True
      then have "pick s spare v c = v" by (simp add: pick_def)
      then show ?thesis using ih True by simp
    next
      case False
      then have "abs_file (node_at s (pick s spare v c)) =
          better (replacementAlgo s) (abs_file (node_at s v)) (abs_file (node_at s c))"
        by (simp add: pick_def better_def)
      then show ?thesis using ih False by simp
    qed }
qed simp_all

lemma candidates_abs:
  assumes "distinct (map (\<lambda>a. pathname (node_at s a)) xs)" and "spare \<in> set xs"
  shows "candidates (Some (pathname (node_at s spare))) (abs_files s xs) = abs_files s (filter (\<lambda>a. a \<noteq> spare) xs)"
proof -
  have "pathname (node_at s a) = pathname (node_at s spare) \<longleftrightarrow> a = spare" if "a \<in> set xs" for a
    using assms that by (auto simp: distinct_map inj_on_def)
  then have "filter (\<lambda>a. pathname (node_at s a) \<noteq> pathname (node_at s spare)) xs = filter (\<lambda>a. a \<noteq> spare) xs"
    by (intro filter_cong) auto
  then show ?thesis by (simp add: candidates_def abs_files_def filter_map comp_def)
qed

text \<open>\<open>getVictim\<close> with no file to spare, and with the file that is being written.\<close>

lemma getVictim_start:
  assumes rep: "store_rep s xs" and v: "filter (\<lambda>a. a \<noteq> spare) xs = c # cs"
    and start: "(if hPtr s \<noteq> spare then Some (hPtr s) else do { h \<leftarrow> deref s (hPtr s); Some (nextPtr h) }) = Some c"
  obtains v where "getVictim s spare = Some (s\<lparr>numVictims := size_add (numVictims s) 1\<rparr>, v)"
    and "v \<in> set xs" and "v \<noteq> spare"
    and "abs_file (node_at s v) = (if replacementAlgo s = FIFO_ALGO then abs_file (node_at s c)
      else foldl (better (replacementAlgo s)) (abs_file (node_at s c)) (abs_files s cs))"
    and "replacementAlgo s = FIFO_ALGO \<Longrightarrow> v = c"
proof -
  have "c \<in> set (filter (\<lambda>a. a \<noteq> spare) xs)" using v by simp
  then have c: "c \<in> set xs" "c \<noteq> spare" by auto
  have hd: "hPtr s = first_of xs NULL" and dl: "dll (heap s) NULL xs NULL"
    using rep by (simp_all add: store_rep_def list_rep_def)
  show ?thesis
  proof (cases "replacementAlgo s = FIFO_ALGO")
    case True
    then show ?thesis using that [of c] start c by (simp add: getVictim_def)
  next
    case False
    then have algo: "replacementAlgo s = 1 \<or> replacementAlgo s = 2"
      using rep by (auto simp: store_rep_def FIFO_ALGO_def)
    have "c \<noteq> NULL \<and> heap s c \<noteq> None" using store_rep_node [OF rep c(1)] by auto
    then have scan: "victim_scan s (hPtr s) spare c = Some (foldl (pick s spare) c xs)"
      using victim_scan_pick [OF algo dl, of c spare] hd by simp
    have "better (replacementAlgo s) f f = f" for f by (simp add: better_def)
    then have "abs_file (node_at s (foldl (pick s spare) c xs)) =
        foldl (better (replacementAlgo s)) (abs_file (node_at s c)) (abs_files s cs)"
      using pick_foldl(2) [OF c(2), of s xs] v by simp
    moreover have "foldl (pick s spare) c xs \<in> set xs" "foldl (pick s spare) c xs \<noteq> spare"
      using pick_foldl(1) [OF c(2), of s xs] c by auto
    ultimately show ?thesis
      using that [of "foldl (pick s spare) c xs"] False start scan by (simp add: getVictim_def)
  qed
qed

text \<open>Where the scan starts: the first file that is not to be spared.\<close>

lemma first_candidate:
  assumes rep: "store_rep s xs" and sp: "spare = NULL \<or> spare \<in> set xs" and ne: "xs \<noteq> []" "xs \<noteq> [spare]"
  obtains c cs where "filter (\<lambda>a. a \<noteq> spare) xs = c # cs"
    and "(if hPtr s \<noteq> spare then Some (hPtr s) else do { h \<leftarrow> deref s (hPtr s); Some (nextPtr h) }) = Some c"
proof -
  have dist: "distinct xs" and hd: "hPtr s = first_of xs NULL"
    using rep by (simp_all add: store_rep_def list_rep_def)
  obtain x ys where xs: "xs = x # ys" using ne(1) by (cases xs) auto
  show ?thesis
  proof (cases "x = spare")
    case False
    then show ?thesis using that [of x "filter (\<lambda>a. a \<noteq> spare) ys"] hd by (simp add: xs)
  next
    case True
    then obtain z zs where ys: "ys = z # zs" using ne xs by (cases ys) auto
    have "deref s x = Some (node_at s x)" using store_rep_deref [OF rep] xs by simp
    moreover have "nextPtr (node_at s x) = z"
      using store_rep_split(2) [of s "[]" x ys] rep xs ys by simp
    moreover have "filter (\<lambda>a. a \<noteq> spare) xs = z # zs"
      using True dist xs ys by (auto simp: filter_id_conv)
    ultimately show ?thesis using that [of z zs] True hd xs by simp
  qed
qed

lemma getVictim_any:
  assumes rep: "store_rep s xs" and ne: "xs \<noteq> []"
  obtains v where "getVictim s NULL = Some (s\<lparr>numVictims := size_add (numVictims s) 1\<rparr>, v)"
    and "v \<in> set xs" and "a_victim (replacementAlgo s) None (abs_files s xs) = Some (abs_file (node_at s v))"
proof -
  have nn: "NULL \<notin> set xs" using store_rep_node [OF rep] by blast
  then have "xs \<noteq> [NULL]" by auto
  then obtain c cs where f: "filter (\<lambda>a. a \<noteq> NULL) xs = c # cs"
    and start: "(if hPtr s \<noteq> NULL then Some (hPtr s) else do { h \<leftarrow> deref s (hPtr s); Some (nextPtr h) }) = Some c"
    using first_candidate [OF rep _ ne] by blast
  have "filter (\<lambda>a. a \<noteq> NULL) xs = xs" using nn by (intro filter_True) metis
  then have xs: "xs = c # cs" using f by simp
  obtain v where v: "getVictim s NULL = Some (s\<lparr>numVictims := size_add (numVictims s) 1\<rparr>, v)" "v \<in> set xs"
    and "abs_file (node_at s v) = (if replacementAlgo s = FIFO_ALGO then abs_file (node_at s c)
      else foldl (better (replacementAlgo s)) (abs_file (node_at s c)) (abs_files s cs))"
    by (rule getVictim_start [OF rep f start]) (rule that)
  then show ?thesis using that by (simp add: a_victim_def candidates_def xs)
qed

lemma getVictim_spare:
  assumes rep: "store_rep s xs" and sp: "spare \<in> set xs" and ne: "xs \<noteq> [spare]"
  obtains v where "getVictim s spare = Some (s\<lparr>numVictims := size_add (numVictims s) 1\<rparr>, v)"
    and "v \<in> set xs" and "v \<noteq> spare"
    and "a_victim (replacementAlgo s) (Some (pathname (node_at s spare))) (abs_files s xs) = Some (abs_file (node_at s v))"
proof -
  have dp: "distinct (map (\<lambda>a. pathname (node_at s a)) xs)"
    using rep by (simp add: store_rep_def dict_rep_def)
  have "xs \<noteq> []" using sp by auto
  then obtain c cs where f: "filter (\<lambda>a. a \<noteq> spare) xs = c # cs"
    and start: "(if hPtr s \<noteq> spare then Some (hPtr s) else do { h \<leftarrow> deref s (hPtr s); Some (nextPtr h) }) = Some c"
    using first_candidate [OF rep disjI2 [OF sp] _ ne] by blast
  obtain v where v: "getVictim s spare = Some (s\<lparr>numVictims := size_add (numVictims s) 1\<rparr>, v)" "v \<in> set xs"
      "v \<noteq> spare"
    and "abs_file (node_at s v) = (if replacementAlgo s = FIFO_ALGO then abs_file (node_at s c)
      else foldl (better (replacementAlgo s)) (abs_file (node_at s c)) (abs_files s cs))"
    by (rule getVictim_start [OF rep f start]) (rule that)
  then show ?thesis
    using that candidates_abs [OF dp sp] f by (simp add: a_victim_def)
qed

text \<open>When the file to spare is the only one there is no victim.\<close>

lemma getVictim_alone:
  assumes rep: "store_rep s [spare]"
  shows "getVictim s spare = Some (s\<lparr>numVictims := size_add (numVictims s) 1\<rparr>, NULL)"
proof -
  have h: "hPtr s = spare" "spare \<noteq> NULL" "deref s spare = Some (node_at s spare)"
    using rep store_rep_node [OF rep, of spare] store_rep_deref [OF rep, of spare]
    by (auto simp: store_rep_def list_rep_def)
  have n: "nextPtr (node_at s spare) = NULL" using store_rep_split(2) [of s "[]" spare "[]"] rep by simp
  have "victim_scan s NULL spare NULL = Some NULL" by (simp add: victim_scan.simps [of s NULL])
  then have "victim_scan s spare spare NULL = Some NULL"
    using h n by (simp add: victim_scan.simps [of s spare])
  then show ?thesis using h n by (simp add: getVictim_def)
qed

section \<open>Resetting the reference counts\<close>

lemma reset_refs_from:
  assumes "store_rep s (us @ vs)"
  shows "\<exists>s'. reset_refs s (first_of vs NULL) = Some s' \<and> store_rep s' (us @ vs) \<and>
    abs_store s' (us @ vs) = (abs_store s (us @ vs))\<lparr>f_files := abs_files s us @ a_reset (abs_files s vs)\<rparr> \<and>
    currStorageSize s' = currStorageSize s \<and> (\<forall>b. b \<notin> set (us @ vs) \<longrightarrow> heap s' b = heap s b) \<and>
    (\<forall>b \<in> set (us @ vs). \<exists>r. node_at s' b = (node_at s b)\<lparr>refCount := r\<rparr>)"
  using assms
proof (induction vs arbitrary: us s)
  case Nil
  have "\<exists>r. node_at s b = (node_at s b)\<lparr>refCount := r\<rparr>" for b
    by (intro exI [of _ "refCount (node_at s b)"]) simp
  then show ?case using Nil by (simp add: reset_refs.simps abs_store_def a_reset_def)
next
  case (Cons v vs)
  let ?n = "node_at s v"
  let ?s1 = "s\<lparr>heap := (heap s)(v \<mapsto> ?n\<lparr>refCount := 0\<rparr>)\<rparr>"
  obtain n where n: "v \<noteq> NULL" "heap s v = Some n" "node_ok n" using store_rep_node [OF Cons.prems, of v] by auto
  have ok: "node_ok (n\<lparr>refCount := 0\<rparr>)" using n(3) by (subst node_ok_cong(1) [of _ n]) (simp_all add: quiet_def)
  have rep1: "store_rep ?s1 (us @ v # vs)"
    using store_rep_update(1) [OF Cons.prems n(2), of "n\<lparr>refCount := 0\<rparr>"] ok n(2) by simp
  have f1: "abs_files ?s1 (us @ v # vs) = abs_files s us @ (abs_file ?n)\<lparr>a_refs := 0\<rparr> # abs_files s vs"
    using store_rep_update(2) [OF Cons.prems n(2), of "n\<lparr>refCount := 0\<rparr>"] ok n(2)
    by (simp add: abs_file_def file_data_def)
  have nxt: "nextPtr ?n = first_of vs NULL" using store_rep_split(2) [OF Cons.prems] .
  have step: "reset_refs s (first_of (v # vs) NULL) = reset_refs ?s1 (first_of vs NULL)"
    using n nxt by (subst reset_refs.simps) (simp add: deref_def modify_def)
  have len: "length (abs_files ?s1 us) = length (abs_files s us)" by simp
  have parts: "abs_files ?s1 us = abs_files s us" "abs_file (node_at ?s1 v) = (abs_file ?n)\<lparr>a_refs := 0\<rparr>"
    "abs_files ?s1 vs = abs_files s vs"
    using f1 unfolding abs_files_simps append_eq_append_conv [OF disjI1, OF len] by simp_all
  obtain s' where s': "reset_refs ?s1 (first_of vs NULL) = Some s'" "store_rep s' ((us @ [v]) @ vs)"
    "abs_store s' ((us @ [v]) @ vs) = (abs_store ?s1 ((us @ [v]) @ vs))\<lparr>f_files :=
       abs_files ?s1 (us @ [v]) @ a_reset (abs_files ?s1 vs)\<rparr>"
    "currStorageSize s' = currStorageSize ?s1" and fr: "\<forall>b. b \<notin> set ((us @ [v]) @ vs) \<longrightarrow> heap s' b = heap ?s1 b"
    and nd: "\<forall>b \<in> set ((us @ [v]) @ vs). \<exists>r. node_at s' b = (node_at ?s1 b)\<lparr>refCount := r\<rparr>"
    using Cons.IH [of ?s1 "us @ [v]"] rep1 by auto
  have "abs_store s' (us @ v # vs) = (abs_store s (us @ v # vs))\<lparr>f_files :=
      abs_files s us @ a_reset (abs_files s (v # vs))\<rparr>"
    using s'(3) parts by (simp add: abs_store_def a_reset_def)
  moreover have "\<forall>b. b \<notin> set (us @ v # vs) \<longrightarrow> heap s' b = heap s b" using fr by auto
  moreover have "\<forall>b \<in> set (us @ v # vs). \<exists>r. node_at s' b = (node_at s b)\<lparr>refCount := r\<rparr>"
  proof
    fix b assume "b \<in> set (us @ v # vs)"
    then obtain r where "node_at s' b = (node_at ?s1 b)\<lparr>refCount := r\<rparr>" using nd by auto
    then show "\<exists>r. node_at s' b = (node_at s b)\<lparr>refCount := r\<rparr>" by (intro exI [of _ r]) simp
  qed
  ultimately show ?case using s' step by simp
qed

section \<open>What the policies guarantee\<close>

text \<open>The quantity that the policy minimises.\<close>

definition key :: "int \<Rightarrow> FileNode \<Rightarrow> int" where
  "key algo n = (if algo = LRU_ALGO then lastRef n else int (refCount n))"

definition a_key :: "int \<Rightarrow> afile \<Rightarrow> int" where
  "a_key algo f = (if algo = LRU_ALGO then a_last f else int (a_refs f))"

lemma a_key_abs [simp]: "a_key algo (abs_file n) = key algo n"
  by (simp add: a_key_def key_def)

lemma a_cmp_key:
  assumes "0 \<le> a_key algo f" "a_key algo f < 2 ^ 31" "0 \<le> a_key algo v" "a_key algo v < 2 ^ 31"
  shows "0 < a_cmp algo f v \<longleftrightarrow> a_key algo f < a_key algo v"
  using assms int_of_long_small [of "a_last v - a_last f"] int_of_long_size_sub [of "a_refs v" "a_refs f"]
  by (auto simp: a_cmp_def a_key_def)

text \<open>
  What the scan relies on: a positive comparison of \<open>f\<close> with \<open>v\<close> says that \<open>f\<close> has the lower rank,
  as long as the ranks of both fit in the result. The first file of lowest rank survives the scan.
\<close>

locale replacement_policy =
  fixes cmp :: "'f \<Rightarrow> 'f \<Rightarrow> int" and rank :: "'f \<Rightarrow> int" and fits :: "'f \<Rightarrow> bool"
  assumes cmp_rank: "fits f \<Longrightarrow> fits v \<Longrightarrow> 0 < cmp f v \<longleftrightarrow> rank f < rank v"
begin

lemma scan_in: "foldl (\<lambda>v f. if 0 < cmp f v then f else v) c cs \<in> insert c (set cs)"
proof (induction cs arbitrary: c)
  case (Cons d cs)
  then show ?case using Cons [of "if 0 < cmp d c then d else c"] by (auto split: if_splits)
qed simp

lemma scan_min:
  assumes "\<forall>f \<in> insert c (set cs). fits f"
  shows "\<forall>f \<in> insert c (set cs). rank (foldl (\<lambda>v f. if 0 < cmp f v then f else v) c cs) \<le> rank f"
  using assms
proof (induction cs arbitrary: c)
  case (Cons d cs)
  let ?c = "if 0 < cmp d c then d else c"
  have "\<forall>f \<in> insert ?c (set cs). fits f" using Cons.prems by simp
  note ih = Cons.IH [OF this]
  have "rank ?c \<le> rank c" "rank ?c \<le> rank d" using cmp_rank [of d c] Cons.prems by auto
  then show ?case using ih by fastforce
qed simp

end

text \<open>The comparators of \<^verbatim>\<open>cacheFns.c\<close>, and the comparison of the abstract files.\<close>

interpretation fifo: replacement_policy fifo_cmp insertionTime "\<lambda>n. 0 \<le> insertionTime n \<and> insertionTime n < 2 ^ 31"
  by unfold_locales (use int_of_long_small in \<open>simp add: fifo_cmp_def\<close>)

interpretation lru: replacement_policy lru_cmp lastRef "\<lambda>n. 0 \<le> lastRef n \<and> lastRef n < 2 ^ 31"
  by unfold_locales (use int_of_long_small in \<open>simp add: lru_cmp_def\<close>)

interpretation lfu: replacement_policy lfu_cmp "\<lambda>n. int (refCount n)" "\<lambda>n. refCount n < 2 ^ 31"
  by unfold_locales (use int_of_long_size_sub in \<open>simp add: lfu_cmp_def\<close>)

interpretation policy: replacement_policy "a_cmp algo" "a_key algo" "\<lambda>f. 0 \<le> a_key algo f \<and> a_key algo f < 2 ^ 31" for algo
  by unfold_locales (use a_cmp_key in blast)

lemma better_scan: "better algo = (\<lambda>v f. if 0 < a_cmp algo f v then f else v)"
  by (simp add: fun_eq_iff better_def)

lemma a_victim_min:
  assumes "a_victim algo spare fs = Some v" and "algo \<noteq> FIFO_ALGO"
    and "\<forall>f \<in> set fs. 0 \<le> a_key algo f \<and> a_key algo f < 2 ^ 31"
  shows "\<forall>f \<in> set fs. Some (a_path f) \<noteq> spare \<longrightarrow> a_key algo v \<le> a_key algo f"
proof (cases "candidates spare fs")
  case (Cons c cs)
  then have sub: "insert c (set cs) = {f \<in> set fs. Some (a_path f) \<noteq> spare}"
    unfolding candidates_def by (metis list.simps(15) set_filter)
  have v: "v = foldl (better algo) c cs" using assms(1,2) Cons by (simp add: a_victim_def)
  show ?thesis using policy.scan_min [of c cs algo] assms(3) unfolding v sub better_scan by blast
qed (use assms(1) in \<open>simp add: a_victim_def\<close>)

lemma a_victim_in:
  "a_victim algo spare fs = Some v \<Longrightarrow> v \<in> set fs \<and> Some (a_path v) \<noteq> spare"
proof (cases "candidates spare fs")
  case (Cons c cs)
  assume v: "a_victim algo spare fs = Some v"
  have "foldl (better algo) c cs \<in> insert c (set cs)" unfolding better_scan by (rule policy.scan_in)
  then have "v \<in> set (candidates spare fs)" using v Cons by (auto simp: a_victim_def split: if_splits)
  then show ?thesis by (simp add: candidates_def)
qed (simp add: a_victim_def)

lemma a_victim_None: "a_victim algo spare fs = None \<longleftrightarrow> (\<forall>f \<in> set fs. Some (a_path f) = spare)"
proof -
  have "a_victim algo spare fs = None \<longleftrightarrow> candidates spare fs = []"
    by (simp add: a_victim_def split: list.split)
  then show ?thesis by (simp add: candidates_def filter_empty_conv)
qed

text \<open>C23: In a consistent store, choosing a victim never faults, never chooses the file to spare (none, or a
  file of the store) and, as long as there is another file, chooses a file of the store: under FIFO the one
  inserted first among the others; under LRU one whose \<open>lastRef\<close>, the time it was last used or 0 if it has not
  been used since it was created, is the smallest of the others; and under LFU one whose count of uses is the
  smallest of the others; these times and counts have to fit in a signed 32-bit integer. When the file to
  spare is the only one, there is no victim: the result is \<open>NULL\<close>.\<close>

theorem getVictim_policy:
  assumes "store_rep s xs" and "xs \<noteq> []" and "spare = NULL \<or> spare \<in> set xs"
  shows "\<exists>v. getVictim s spare = Some (s\<lparr>numVictims := size_add (numVictims s) 1\<rparr>, v) \<and>
    (if xs = [spare] then v = NULL else v \<in> set xs - {spare}) \<and>
    (xs \<noteq> [spare] \<longrightarrow> replacementAlgo s = FIFO_ALGO \<longrightarrow> v = hd (filter (\<lambda>a. a \<noteq> spare) xs)) \<and>
    (replacementAlgo s = LRU_ALGO \<longrightarrow> (\<forall>a \<in> set xs. 0 \<le> lastRef (node_at s a) \<and> lastRef (node_at s a) < 2 ^ 31) \<longrightarrow>
       (\<forall>a \<in> set xs - {spare}. lastRef (node_at s v) \<le> lastRef (node_at s a))) \<and>
    (replacementAlgo s = LFU_ALGO \<longrightarrow> (\<forall>a \<in> set xs. refCount (node_at s a) < 2 ^ 31) \<longrightarrow>
       (\<forall>a \<in> set xs - {spare}. refCount (node_at s v) \<le> refCount (node_at s a)))"
proof (cases "xs = [spare]")
  case True
  then show ?thesis using getVictim_alone assms(1) by simp
next
  case False
  obtain c cs where f: "filter (\<lambda>a. a \<noteq> spare) xs = c # cs"
    and start: "(if hPtr s \<noteq> spare then Some (hPtr s) else do { h \<leftarrow> deref s (hPtr s); Some (nextPtr h) }) = Some c"
    by (rule first_candidate [OF assms(1,3,2) False]) (rule that)
  obtain v where v: "getVictim s spare = Some (s\<lparr>numVictims := size_add (numVictims s) 1\<rparr>, v)" "v \<in> set xs" "v \<noteq> spare"
    and av: "abs_file (node_at s v) = (if replacementAlgo s = FIFO_ALGO then abs_file (node_at s c)
      else foldl (better (replacementAlgo s)) (abs_file (node_at s c)) (abs_files s cs))"
    and fifo: "replacementAlgo s = FIFO_ALGO \<Longrightarrow> v = c"
    by (rule getVictim_start [OF assms(1) f start]) (rule that)
  have others: "set xs - {spare} = insert c (set cs)"
  proof -
    have "set xs - {spare} = set (filter (\<lambda>a. a \<noteq> spare) xs)" by auto
    then show ?thesis by (simp only: f list.set)
  qed
  have min: "\<forall>a \<in> set xs - {spare}. key (replacementAlgo s) (node_at s v) \<le> key (replacementAlgo s) (node_at s a)"
    if "replacementAlgo s \<noteq> FIFO_ALGO"
      "\<forall>a \<in> set xs. 0 \<le> key (replacementAlgo s) (node_at s a) \<and> key (replacementAlgo s) (node_at s a) < 2 ^ 31"
  proof -
    have "\<forall>g \<in> insert (abs_file (node_at s c)) (set (abs_files s cs)).
        0 \<le> a_key (replacementAlgo s) g \<and> a_key (replacementAlgo s) g < 2 ^ 31"
      using that(2) others by (auto simp: abs_files_def)
    then have "\<forall>g \<in> insert (abs_file (node_at s c)) (set (abs_files s cs)).
        a_key (replacementAlgo s) (abs_file (node_at s v)) \<le> a_key (replacementAlgo s) g"
      using policy.scan_min [of _ _ "replacementAlgo s"] av that(1) by (simp only: better_scan if_False)
    moreover have "abs_file (node_at s a) \<in> insert (abs_file (node_at s c)) (set (abs_files s cs))"
      if "a \<in> set xs - {spare}" for a
      using that unfolding others by (auto simp: abs_files_def)
    ultimately show ?thesis by (metis a_key_abs)
  qed
  have lru: "\<forall>a \<in> set xs - {spare}. lastRef (node_at s v) \<le> lastRef (node_at s a)"
    if "replacementAlgo s = LRU_ALGO" "\<forall>a \<in> set xs. 0 \<le> lastRef (node_at s a) \<and> lastRef (node_at s a) < 2 ^ 31"
    using min that by (simp add: key_def LRU_ALGO_def FIFO_ALGO_def)
  have lfu: "\<forall>a \<in> set xs - {spare}. refCount (node_at s v) \<le> refCount (node_at s a)"
    if "replacementAlgo s = LFU_ALGO" "\<forall>a \<in> set xs. refCount (node_at s a) < 2 ^ 31"
    using min that by (simp add: key_def LRU_ALGO_def LFU_ALGO_def FIFO_ALGO_def)
  show ?thesis using v fifo f False lru lfu by (intro exI [of _ v] conjI) simp_all
qed

theorem getVictim_policy_witness:
  "getVictim (example_store LRU_ALGO) NULL = Some ((example_store LRU_ALGO)\<lparr>numVictims := 1\<rparr>, 2) \<and>
   getVictim (example_store LRU_ALGO) 2 = Some ((example_store LRU_ALGO)\<lparr>numVictims := 1\<rparr>, 1)"
proof -
  have rep: "store_rep (example_store LRU_ALGO) [1, 2]" by (rule example_rep) (simp_all add: LRU_ALGO_def)
  have n: "size_add (numVictims (example_store LRU_ALGO)) 1 = 1"
    by (simp add: example_store_def size_add_def size_max_def)
  have at: "node_at (example_store LRU_ALGO) 1 = example_a" "node_at (example_store LRU_ALGO) 2 = example_b"
    by (simp_all add: example_store_def)
  obtain v where v: "getVictim (example_store LRU_ALGO) NULL = Some ((example_store LRU_ALGO)\<lparr>numVictims := 1\<rparr>, v)" "v \<in> {1, 2}"
    and min: "\<forall>a \<in> {1, 2}. lastRef (node_at (example_store LRU_ALGO) v) \<le> lastRef (node_at (example_store LRU_ALGO) a)"
    using getVictim_policy [OF rep, of NULL] at n by (auto simp: example_store_def example_a_def example_b_def)
  then have "v = 2" using at by (auto simp: example_a_def example_b_def)
  then show ?thesis using v(1) getVictim_policy [OF rep, of 2] n by auto
qed

end
