(* ===== verification/HandlersSpec.thy ===== *)
theory HandlersSpec
  imports Handlers Eviction
begin

text \<open>
  What each handler does, on the abstract store: a specification without pointers, hash table,
  compressed contents or counters, with the same error cases, log entries, evictions and lists of
  clients to notify. \<open>sim\<close> relates a store to the abstract store it represents.
\<close>

section \<open>Specifications\<close>

definition upd :: "cstring \<Rightarrow> (afile \<Rightarrow> afile) \<Rightarrow> fstore \<Rightarrow> fstore" where
  "upd path g fs = fs\<lparr>f_files := a_update path g (f_files fs)\<rparr>"

definition entry :: "env \<Rightarrow> buffer list \<Rightarrow> cstring \<Rightarrow> cstring \<Rightarrow> int \<Rightarrow> fd \<Rightarrow> nat \<Rightarrow> buffer list" where
  "entry env l op path outcome requestor n =
     l @ [event_block (clock env (length l)) (self env) op path outcome requestor n]"

definition logged :: "env \<Rightarrow> cstring \<Rightarrow> cstring \<Rightarrow> int \<Rightarrow> fd \<Rightarrow> nat \<Rightarrow> fstore \<Rightarrow> fstore" where
  "logged env op path outcome requestor n fs =
     fs\<lparr>f_log := entry env (f_log fs) op path outcome requestor n\<rparr>"

definition touch :: "env \<Rightarrow> afile \<Rightarrow> afile" where
  "touch env f = f\<lparr>a_last := now env, a_refs := size_add (a_refs f) 1\<rparr>"

text \<open>A client may read and write a file it has opened and that nobody else has locked.\<close>

definition granted :: "afile \<Rightarrow> fd \<Rightarrow> bool" where
  "granted f requestor \<longleftrightarrow> (a_lock f = 0 \<or> a_lock f = requestor) \<and> requestor \<in> set (a_open f)"

definition spec_make_room :: "env \<Rightarrow> fd \<Rightarrow> fstore \<Rightarrow> fd list \<Rightarrow> fstore \<times> fd list" where
  "spec_make_room env requestor fs notify =
     (if length (f_files fs) = f_maxNum fs then
        (case a_victim (f_algo fs) None (f_files fs) of
           None \<Rightarrow> (fs, notify)
         | Some v \<Rightarrow>
             (logged env ''EVICTED'' (a_path v) 0 requestor 0
                (fs\<lparr>f_files := a_reset (a_remove (a_path v) (f_files fs)), f_victims := size_add (f_victims fs) 1\<rparr>),
              if a_wait v \<noteq> [] then a_wait v else notify))
      else (fs, notify))"

definition new_file :: "env \<Rightarrow> cstring \<Rightarrow> bool \<Rightarrow> fd \<Rightarrow> afile" where
  "new_file env path lock requestor =
     \<lparr>a_path = path, a_data = [], a_lock = (if lock then requestor else 0), a_wait = [],
      a_open = [requestor], a_first = (if lock then requestor else 0), a_refs = 0, a_last = 0,
      a_ins = now env\<rparr>"

definition spec_add :: "afile \<Rightarrow> fstore \<Rightarrow> fstore" where
  "spec_add f fs =
     fs\<lparr>f_files := f_files fs @ [f], f_topNum := max (f_topNum fs) (length (f_files fs) + 1),
        f_topSize := max (f_topSize fs) (total_size (f_files fs) + csize f)\<rparr>"

definition spec_open ::
  "env \<Rightarrow> fstore \<Rightarrow> cstring \<Rightarrow> int \<Rightarrow> fd list \<Rightarrow> fd \<Rightarrow> (errno + int) \<times> fd list \<times> fstore"
where
  "spec_open env fs path flags notify requestor =
     (if path = [] \<or> requestor \<le> 0 then (Inl EINVAL, notify, fs)
      else let create = IS_SET O_CREATE flags; lock = IS_SET O_LOCK flags in
        (case a_lookup (f_files fs) path of
           Some f \<Rightarrow>
             if create then (Inl EPERM, notify, fs)
             else if lock \<and> a_lock f \<noteq> 0 then (Inl EACCES, notify, fs)
             else (Inr 0, notify, upd path (\<lambda>f. f\<lparr>a_lock := (if lock then requestor else a_lock f),
                                                   a_open := a_open f @ [requestor]\<rparr>) fs)
         | None \<Rightarrow>
             if \<not> create then (Inl ENOENT, notify, fs)
             else let (fs, notify) = spec_make_room env requestor fs notify in
               if \<not> mem_ok env then (Inl ENOMEM, notify, fs)
               else (Inr 0, notify,
                     spec_add (new_file env path lock requestor) (logged env ''OPEN'' path 0 requestor 0 fs))))"

definition spec_read :: "env \<Rightarrow> fstore \<Rightarrow> cstring \<Rightarrow> fd \<Rightarrow> (errno + char list) \<times> fstore" where
  "spec_read env fs path requestor =
     (if bad_input path requestor then (Inl EINVAL, fs)
      else case a_lookup (f_files fs) path of
        None \<Rightarrow> (Inl ENOENT, logged env ''READ'' path (errno_value ENOENT) requestor 0 fs)
      | Some f \<Rightarrow>
          if \<not> granted f requestor
          then (Inl EACCES, logged env ''READ'' path (errno_value EACCES) requestor 0 fs)
          else (Inr (a_data f), logged env ''READ'' path 0 requestor (csize f)
                  (upd path (\<lambda>f. (touch env f)\<lparr>a_first := 0\<rparr>) fs)))"

text \<open>What \<open>readNFilesHandler\<close> sends: for each file the sizes of its name and content, and both.\<close>

definition serialize :: "afile \<Rightarrow> char list" where
  "serialize f = pad10 (length (a_path f)) @ a_path f @ pad10 (length (a_data f)) @ a_data f"

definition first_files :: "int \<Rightarrow> afile list \<Rightarrow> afile list" where
  "first_files upperLimit fs = (if upperLimit \<le> 0 then fs else take (nat upperLimit) fs)"

definition response :: "afile list \<Rightarrow> char list" where
  "response fs = concat (map serialize fs)"

definition spec_read_n :: "env \<Rightarrow> errno option \<Rightarrow> fstore \<Rightarrow> int \<Rightarrow> fd \<Rightarrow> (errno + int) \<times> char list \<times> fstore" where
  "spec_read_n env errno0 fs upperLimit requestor =
     (let sent = first_files upperLimit (f_files fs) in
      (case errno0 of Some e \<Rightarrow> Inl e | None \<Rightarrow> Inr (int (length sent)), response sent,
       logged env ''READ'' ''READ_N_FILES'' 0 requestor (length (response sent)) fs))"

text \<open>
  Evicting files other than \<open>path\<close> until \<open>need\<close> bytes fit beside the others; the victims are
  collected in reverse order, without the clients that had them open.
\<close>

lemma a_victim_shorter:
  "a_victim algo spare fs = Some v \<Longrightarrow> length (a_remove (a_path v) fs) < length fs"
  using a_victim_in [of algo spare fs v] unfolding a_remove_def by (auto intro: length_filter_less)

function spec_evict ::
  "env \<Rightarrow> cstring \<Rightarrow> nat \<Rightarrow> fd \<Rightarrow> fstore \<Rightarrow> fd list \<Rightarrow> afile list \<Rightarrow> fstore \<times> fd list \<times> afile list"
where
  "spec_evict env path need requestor fs notify evicted =
     (if f_maxSize fs < total_size (a_remove path (f_files fs)) + need then
        (case a_victim (f_algo fs) (Some path) (f_files fs) of
           None \<Rightarrow> (fs, notify, evicted)
         | Some v \<Rightarrow>
             spec_evict env path need requestor
               (logged env ''EVICTED'' (a_path v) 0 requestor 0
                 (fs\<lparr>f_files := a_remove (a_path v) (f_files fs), f_victims := size_add (f_victims fs) 1\<rparr>))
               (notify @ a_wait v) (v\<lparr>a_open := []\<rparr> # evicted))
      else (fs, notify, evicted))"
  by pat_completeness auto
termination
  by (relation "measure (\<lambda>(env, path, need, requestor, fs, notify, evicted). length (f_files fs))")
    (auto simp: logged_def dest: a_victim_shorter)

declare spec_evict.simps [simp del]

definition spec_store :: "cstring \<Rightarrow> char list \<Rightarrow> fstore \<Rightarrow> fstore" where
  "spec_store path newContent fs =
     (let fs' = upd path (\<lambda>f. f\<lparr>a_data := a_data f @ newContent\<rparr>) fs in
      fs'\<lparr>f_topSize := max (f_topSize fs') (total_size (f_files fs'))\<rparr>)"

definition spec_write ::
  "env \<Rightarrow> fstore \<Rightarrow> cstring \<Rightarrow> char list \<Rightarrow> fd \<Rightarrow> (errno + int) \<times> fd list \<times> afile list \<times> fstore"
where
  "spec_write env fs path newContent requestor =
     (if bad_input path requestor then (Inl EINVAL, [], [], fs)
      else case a_lookup (f_files fs) path of
        None \<Rightarrow> (Inl ENOENT, [], [], logged env ''WRITE'' path (errno_value ENOENT) requestor 0 fs)
      | Some f \<Rightarrow>
          if \<not> granted f requestor
          then (Inl EACCES, [], [], logged env ''WRITE'' path (errno_value EACCES) requestor 0 fs)
          else
            let need = length (rle_spec (a_data f @ newContent)); fs = upd path (touch env) fs in
            if f_maxSize fs < need
            then (Inl E2BIG, [], [], logged env ''WRITE'' path (errno_value E2BIG) requestor 0 fs)
            else
              let (fs, notify, evicted) = spec_evict env path need requestor fs [] [] in
              (Inr 0, notify, evicted,
               upd path (\<lambda>f. f\<lparr>a_first := 0\<rparr>)
                 (logged env ''WRITE'' path 0 requestor (length newContent)
                   (spec_store path newContent (fs\<lparr>f_files := a_reset (f_files fs)\<rparr>)))))"

definition spec_lock :: "env \<Rightarrow> fstore \<Rightarrow> cstring \<Rightarrow> fd \<Rightarrow> (errno + int) \<times> fstore" where
  "spec_lock env fs path requestor =
     (if path = [] then (Inl EINVAL, logged env ''LOCK'' path (errno_value EINVAL) requestor 0 fs)
      else case a_lookup (f_files fs) path of
        None \<Rightarrow> (Inl ENOENT, logged env ''LOCK'' path (errno_value ENOENT) requestor 0 fs)
      | Some f \<Rightarrow>
          if a_lock f \<noteq> 0 \<and> a_lock f \<noteq> requestor
          then (Inr (-2), logged env ''LOCK'' path (-2) requestor 0
                  (upd path (\<lambda>f. f\<lparr>a_wait := a_wait f @ [requestor]\<rparr>) fs))
          else (Inr 0, logged env ''LOCK'' path 0 requestor 0
                  (upd path (\<lambda>f. (touch env f)\<lparr>a_lock := requestor, a_first := 0\<rparr>) fs)))"

text \<open>Handing a lock over to the client that waited longest, or releasing it.\<close>

definition hand_over :: "afile \<Rightarrow> afile" where
  "hand_over f = f\<lparr>a_lock := (case a_wait f of [] \<Rightarrow> 0 | w # _ \<Rightarrow> w), a_wait := tl (a_wait f)\<rparr>"

definition spec_unlock :: "env \<Rightarrow> fstore \<Rightarrow> cstring \<Rightarrow> fd \<Rightarrow> fd \<Rightarrow> (errno + int) \<times> fd \<times> fstore" where
  "spec_unlock env fs path newLockFd requestor =
     (if bad_input path requestor then (Inl EINVAL, newLockFd, fs)
      else case a_lookup (f_files fs) path of
        None \<Rightarrow> (Inl ENOENT, newLockFd, logged env ''UNLOCK'' path (errno_value ENOENT) requestor 0 fs)
      | Some f \<Rightarrow>
          if a_lock f \<noteq> requestor
          then (Inl EACCES, newLockFd, logged env ''UNLOCK'' path (errno_value EACCES) requestor 0
                  (upd path (touch env) fs))
          else (Inr 0, a_lock (hand_over f), logged env ''UNLOCK'' path 0 requestor 0
                  (upd path (\<lambda>f. (hand_over (touch env f))\<lparr>a_first := 0\<rparr>) fs)))"

definition spec_close :: "env \<Rightarrow> fstore \<Rightarrow> cstring \<Rightarrow> fd \<Rightarrow> (errno + int) \<times> fstore" where
  "spec_close env fs path requestor =
     (if bad_input path requestor then (Inl EINVAL, fs)
      else case a_lookup (f_files fs) path of
        None \<Rightarrow> (Inl ENOENT, fs)
      | Some f \<Rightarrow>
          (Inr 0, logged env ''CLOSE'' path 0 requestor 0
             (upd path (\<lambda>f. (touch env f)\<lparr>a_open := remove1 requestor (a_open f), a_first := 0\<rparr>) fs)))"

definition spec_remove :: "env \<Rightarrow> fstore \<Rightarrow> cstring \<Rightarrow> fd list \<Rightarrow> fd \<Rightarrow> (errno + int) \<times> fd list \<times> fstore" where
  "spec_remove env fs path notify requestor =
     (if bad_input path requestor then (Inl EINVAL, notify, fs)
      else case a_lookup (f_files fs) path of
        None \<Rightarrow> (Inl ENOENT, notify, fs)
      | Some f \<Rightarrow>
          if a_lock f \<noteq> requestor then (Inl EACCES, notify, fs)
          else (Inr 0, if a_wait f \<noteq> [] then a_wait f else notify,
                logged env ''REMOVE'' path 0 requestor 0 (fs\<lparr>f_files := a_remove path (f_files fs)\<rparr>)))"

text \<open>The exit of a client, file by file.\<close>

definition exit_file :: "fd \<Rightarrow> afile \<Rightarrow> afile" where
  "exit_file requestor f =
     (let f = (if a_lock f = requestor then hand_over f else f) in
      f\<lparr>a_wait := remove1 requestor (a_wait f), a_open := remove1 requestor (a_open f)\<rparr>)"

definition exit_notify :: "fd \<Rightarrow> afile \<Rightarrow> fd list" where
  "exit_notify requestor f = (if a_lock f = requestor then take 1 (a_wait f) else [])"

definition spec_exit :: "fstore \<Rightarrow> fd list \<Rightarrow> fd \<Rightarrow> (errno + int) \<times> fd list \<times> fstore" where
  "spec_exit fs notify requestor =
     (if requestor \<le> 0 then (Inl EINVAL, notify, fs)
      else (Inr 0, notify @ concat (map (exit_notify requestor) (f_files fs)),
            fs\<lparr>f_files := map (exit_file requestor) (f_files fs)\<rparr>))"

definition spec_first_write :: "fstore \<Rightarrow> cstring \<Rightarrow> fd \<Rightarrow> bool" where
  "spec_first_write fs path requestor =
     (\<not> bad_input path requestor \<and>
      (case a_lookup (f_files fs) path of None \<Rightarrow> False | Some f \<Rightarrow> a_first f = requestor))"

section \<open>Well-formed abstract stores\<close>

definition file_ok :: "afile \<Rightarrow> bool" where
  "file_ok f \<longleftrightarrow>
     a_path f \<noteq> [] \<and> NUL \<notin> set (a_path f) \<and> length (a_path f) \<le> PATH_LIMIT \<and> a_data f \<noteq> [NUL] \<and> 0 \<le> a_lock f \<and>
     (\<forall>w \<in> set (a_wait f). 0 < w) \<and> (\<forall>w \<in> set (a_open f). 0 < w) \<and> (a_lock f = 0 \<longrightarrow> a_wait f = [])"

definition fs_ok :: "fstore \<Rightarrow> bool" where
  "fs_ok fs \<longleftrightarrow>
     distinct (map a_path (f_files fs)) \<and> (\<forall>f \<in> set (f_files fs). file_ok f) \<and>
     length (f_files fs) \<le> f_maxNum fs \<and> 0 < f_maxNum fs \<and>
     total_size (f_files fs) \<le> f_maxSize fs \<and> f_maxSize fs < 2 ^ 60"

text \<open>\<open>sim_busy busy s xs fs\<close>: \<open>s\<close> represents \<open>fs\<close>, and no reader or writer is active on a file
  outside \<open>busy\<close>. \<open>sim\<close> is the case of a store that no handler is working on.\<close>

definition sim_busy :: "ptr set \<Rightarrow> CacheStorage \<Rightarrow> ptr list \<Rightarrow> fstore \<Rightarrow> bool" where
  "sim_busy busy s xs fs \<longleftrightarrow>
     store_rep s xs \<and> (\<forall>a \<in> set xs. a \<notin> busy \<longrightarrow> quiet (node_at s a)) \<and> abs_store s xs = fs"

abbreviation sim :: "CacheStorage \<Rightarrow> ptr list \<Rightarrow> fstore \<Rightarrow> bool" where
  "sim \<equiv> sim_busy {}"

text \<open>The sizes within which a request must lie: names, descriptors, and contents.\<close>

definition request_ok :: "env \<Rightarrow> cstring \<Rightarrow> fd \<Rightarrow> bool" where
  "request_ok env path requestor \<longleftrightarrow>
     \<bar>self env\<bar> < 10 ^ 20 \<and> length path \<le> PATH_LIMIT \<and> \<bar>requestor\<bar> < 2 ^ 31"

end
