(* ===== verification/Refinement.thy ===== *)
theory Refinement
  imports HandlersSpec
begin

text \<open>
  Every handler refines its specification: on a store that represents a well-formed abstract store it
  never fails, returns what the specification returns and leaves a store that represents the
  specification's result.
\<close>

section \<open>Steps shared by the handlers\<close>

lemma logEvent_ok:
  assumes "\<bar>self env\<bar> < 10 ^ 20" and "\<bar>requestor\<bar> < 2 ^ 31" and "\<bar>outcome\<bar> < 10 ^ 10"
    and "n < 10 ^ 20" and "length path \<le> PATH_LIMIT" and "length op \<le> 12"
  shows "logEvent env op path outcome requestor n s =
    Some (s\<lparr>logBuffer := entry env (logBuffer s) op path outcome requestor n\<rparr>)"
proof -
  have "\<bar>requestor\<bar> < 10 ^ 10" using assms(2) by simp
  then show ?thesis
    using format_event_fits [OF assms(6,1) _ assms(3-5)] by (simp add: logEvent_def entry_def)
qed

lemma errno_value_small: "\<bar>errno_value e\<bar> < 10 ^ 10"
  by (cases e) simp_all

declare errno_value.simps [simp del]

lemma log_request:
  assumes "request_ok env path requestor" and "length op \<le> 12" and "n < 10 ^ 20" and "\<bar>outcome\<bar> < 10 ^ 10"
  shows "logEvent env op path outcome requestor n s =
    Some (s\<lparr>logBuffer := entry env (logBuffer s) op path outcome requestor n\<rparr>)"
  using assms by (intro logEvent_ok) (simp_all add: request_ok_def)

lemma log_request_error:
  assumes "request_ok env path requestor" and "length op \<le> 12"
  shows "logEvent env op path (errno_value e) requestor 0 s =
    Some (s\<lparr>logBuffer := entry env (logBuffer s) op path (errno_value e) requestor 0\<rparr>)"
  using assms by (intro log_request errno_value_small) simp_all

lemma sim_log:
  "sim_busy busy s xs fs \<Longrightarrow> sim_busy busy (s\<lparr>logBuffer := entry env (logBuffer s) op path outcome requestor n\<rparr>) xs
     (logged env op path outcome requestor n fs)"
  by (auto simp: sim_busy_def abs_store_def logged_def)

text \<open>A search in the store and in the list of files.\<close>

lemma sim_find:
  assumes "sim s xs fs"
  obtains (empty) "path = []" "findFile s path = Inl EINVAL"
  | (missing) "path \<noteq> []" "findFile s path = Inl ENOENT" "a_lookup (f_files fs) path = None"
  | (found) us a vs n where "path \<noteq> []" "findFile s path = Inr a" "xs = us @ a # vs" "heap s a = Some n"
      "deref s a = Some n" "a \<noteq> NULL" "node_ok n \<and> quiet n" "pathname n = path"
      "a_lookup (f_files fs) path = Some (abs_file n)"
proof -
  have rep: "store_rep s xs" and files: "f_files fs = abs_files s xs"
    and idle: "\<forall>a \<in> set xs. quiet (node_at s a)"
    using assms by (auto simp: sim_busy_def abs_store_def)
  show ?thesis
  proof (cases rule: find_file [OF rep, of path])
    case 1
    then show ?thesis using empty by blast
  next
    case 2
    then show ?thesis using missing files by simp
  next
    case (3 us a vs)
    obtain n where "a \<noteq> NULL" "heap s a = Some n" "node_ok n"
      using store_rep_node [OF rep, of a] 3(3) by auto
    moreover from this have "quiet n" using idle 3(3) by auto
    ultimately show ?thesis using found [of a us vs n] 3 files by (simp add: deref_def)
  qed
qed

text \<open>An update of the node of a file that keeps its links, name and size.\<close>

lemma quiet_update [simp]:
  "quiet (n\<lparr>pathname := x1\<rparr>) = quiet n" "quiet (n\<lparr>content := x2\<rparr>) = quiet n"
  "quiet (n\<lparr>contentSize := x3\<rparr>) = quiet n" "quiet (n\<lparr>uncompressedSize := x4\<rparr>) = quiet n"
  "quiet (n\<lparr>lockedBy := x5\<rparr>) = quiet n" "quiet (n\<lparr>pendingLocks := x6\<rparr>) = quiet n"
  "quiet (n\<lparr>openDescriptors := x7\<rparr>) = quiet n" "quiet (n\<lparr>canDoFirstWrite := x8\<rparr>) = quiet n"
  "quiet (n\<lparr>refCount := x9\<rparr>) = quiet n" "quiet (n\<lparr>lastRef := x10\<rparr>) = quiet n"
  "quiet (n\<lparr>prevPtr := x11\<rparr>) = quiet n" "quiet (n\<lparr>nextPtr := x11\<rparr>) = quiet n"
  "quiet (update_cache_bits env n) = quiet n"
  by (simp_all add: quiet_def update_cache_bits_def)

lemma sim_update:
  assumes sim: "sim_busy busy s (us @ a # vs) fs" and n: "heap s a = Some n"
    and "prevPtr n' = prevPtr n" "nextPtr n' = nextPtr n" "pathname n' = pathname n"
    and "contentSize n' = contentSize n" and "node_ok n'" and abs: "abs_file n' = g (abs_file n)"
    and quiet: "a \<notin> busy' \<longrightarrow> quiet n'" and busy: "\<forall>b \<in> busy. b = a \<or> b \<in> busy'"
  shows "sim_busy busy' (s\<lparr>heap := (heap s)(a \<mapsto> n')\<rparr>) (us @ a # vs) (upd (pathname n) g fs)"
proof -
  have rep: "store_rep s (us @ a # vs)" and fs: "fs = abs_store s (us @ a # vs)"
    and idle: "\<forall>b \<in> set (us @ a # vs). b \<notin> busy \<longrightarrow> quiet (node_at s b)"
    using sim by (simp_all add: sim_busy_def)
  let ?s' = "s\<lparr>heap := (heap s)(a \<mapsto> n')\<rparr>"
  note up = store_rep_update [OF rep n assms(3-7)]
  have "distinct (map a_path (abs_files s us @ abs_file n # abs_files s vs))"
    using rep n unfolding store_rep_def dict_rep_def paths_abs by simp
  then have "a_update (a_path (abs_file n)) g (abs_files s us @ abs_file n # abs_files s vs) =
      abs_files s us @ g (abs_file n) # abs_files s vs"
    by (rule a_update_split(1))
  then have "abs_files ?s' (us @ a # vs) = a_update (pathname n) g (abs_files s (us @ a # vs))"
    using up(2) n abs by simp
  then have "abs_store ?s' (us @ a # vs) = upd (pathname n) g fs"
    by (simp add: fs upd_def abs_store_def)
  moreover have "quiet (node_at ?s' b)" if "b \<in> set (us @ a # vs)" "b \<notin> busy'" for b
  proof (cases "b = a")
    case True
    then show ?thesis using that quiet by simp
  next
    case False
    then have "b \<notin> busy" using that busy by auto
    then show ?thesis using False that(1) idle by simp
  qed
  ultimately show ?thesis using up(1) by (simp add: sim_busy_def)
qed

lemma sim_update_log:
  assumes "sim_busy busy s (us @ a # vs) fs" and "heap s a = Some n"
    and "prevPtr n' = prevPtr n" "nextPtr n' = nextPtr n" "pathname n' = pathname n"
    and "contentSize n' = contentSize n" and "node_ok n'" and "abs_file n' = g (abs_file n)"
    and "a \<notin> busy' \<longrightarrow> quiet n'" and "\<forall>b \<in> busy. b = a \<or> b \<in> busy'"
  shows "sim_busy busy' (s\<lparr>heap := (heap s)(a \<mapsto> n'), logBuffer := entry env (logBuffer s) op path outcome requestor k\<rparr>)
    (us @ a # vs) (logged env op path outcome requestor k (upd (pathname n) g fs))"
  using sim_log [OF sim_update [where g = g, OF assms]] by simp

lemma update_cache_bits_simps [simp]:
  "prevPtr (update_cache_bits env n) = prevPtr n" "nextPtr (update_cache_bits env n) = nextPtr n"
  "pathname (update_cache_bits env n) = pathname n" "content (update_cache_bits env n) = content n"
  "contentSize (update_cache_bits env n) = contentSize n"
  "uncompressedSize (update_cache_bits env n) = uncompressedSize n"
  "lockedBy (update_cache_bits env n) = lockedBy n" "pendingLocks (update_cache_bits env n) = pendingLocks n"
  "openDescriptors (update_cache_bits env n) = openDescriptors n"
  "isBeingWritten (update_cache_bits env n) = isBeingWritten n"
  "activeReaders (update_cache_bits env n) = activeReaders n"
  "canDoFirstWrite (update_cache_bits env n) = canDoFirstWrite n"
  "insertionTime (update_cache_bits env n) = insertionTime n"
  "lastRef (update_cache_bits env n) = now env" "refCount (update_cache_bits env n) = size_add (refCount n) 1"
  by (simp_all add: update_cache_bits_def)

lemma abs_touch: "abs_file (update_cache_bits env n) = touch env (abs_file n)"
  by (simp add: abs_file_def touch_def file_data_def)

lemma access_denied_granted: "access_denied n requestor \<longleftrightarrow> \<not> granted (abs_file n) requestor"
  by (auto simp: access_denied_def granted_def)

lemma quiet_simps: "quiet n \<Longrightarrow> activeReaders n = 0 \<and> \<not> isBeingWritten n"
  by (simp add: quiet_def)

lemma csize_bound:
  assumes "sim_busy busy s xs fs" and "a \<in> set xs"
  shows "contentSize (node_at s a) < 10 ^ 20"
proof -
  have rep: "store_rep s xs" using assms(1) by (simp add: sim_busy_def)
  obtain us vs where xs: "xs = us @ a # vs" using assms(2) by (meson split_list)
  have "contentSize (node_at s a) = csize (abs_file (node_at s a))"
    using rep assms(2) node_ok_csize by (simp add: store_rep_def)
  moreover have "total_size (abs_files s xs) \<le> maxStorageSize s" "maxStorageSize s < size_max"
    using rep by (auto simp: store_rep_def count_rep_def)
  ultimately show ?thesis by (simp add: xs size_max_def)
qed

section \<open>Reading\<close>

lemma file_ok_decode:
  assumes "node_ok n" and "file_data n \<noteq> [NUL]"
  shows "RLEdecompress (content n) (contentSize n) (uncompressedSize n) extra = Some (file_data n @ calloc extra)"
proof (cases "file_data n = []")
  case True
  then have "uncompressedSize n = 0" "contentSize n = 0"
    using assms(1) by (simp_all add: node_ok_def content_ok_def)
  then show ?thesis using True by (simp add: RLEdecompress_def rld_loop.simps)
next
  case False
  then show ?thesis
    using assms rle.dec_enc [of "file_data n" "content n" "contentSize n" extra]
    by (simp add: node_ok_def content_ok_def)
qed

lemma readFile_refines:
  assumes sim: "sim s xs fs" and ok: "fs_ok fs" and req: "request_ok env path requestor"
    and spec: "spec_read env fs path requestor = (r, fs')"
  shows "\<exists>s'. readFileHandler env s path requestor =
      Some (case r of Inl e \<Rightarrow> Inl e | Inr d \<Rightarrow> Inr (d, length d), s') \<and> sim s' xs fs'"
proof (cases "bad_input path requestor")
  case True
  then show ?thesis using sim spec by (auto simp: readFileHandler_def spec_read_def)
next
  case False
  show ?thesis
  proof (cases rule: sim_find [OF sim, of path])
    case 1
    then show ?thesis using False by (simp add: bad_input_def)
  next
    case 2
    then show ?thesis
      using False spec sim_log [OF sim, of env "''READ''" path "errno_value ENOENT" requestor 0]
      by (auto simp: readFileHandler_def readFile_enter_def spec_read_def log_request_error [OF req])
  next
    case (3 us a vs n)
    have nok: "node_ok n" and qn: "quiet n" using 3(7) by simp_all
    note quiet = quiet_simps [OF qn]
    show ?thesis
    proof (cases "granted (abs_file n) requestor")
      case False
      then show ?thesis
        using 3 \<open>\<not> bad_input path requestor\<close> spec sim_log [OF sim, of env "''READ''" path "errno_value EACCES" requestor 0]
        by (auto simp: readFileHandler_def readFile_enter_def spec_read_def log_request_error [OF req]
            access_denied_granted)
    next
      case True
      let ?n' = "(update_cache_bits env n)\<lparr>canDoFirstWrite := 0\<rparr>"
      have d: "file_data n \<noteq> [NUL]"
      proof -
        have "abs_file n \<in> set (f_files fs)" using 3 a_lookup_in by blast
        then show ?thesis using ok by (auto simp: fs_ok_def file_ok_def)
      qed
      have dec: "RLEdecompress (content n) (contentSize n) (uncompressedSize n) 0 = Some (file_data n)"
        using file_ok_decode [OF nok d, of 0] by (simp add: calloc_def)
      have sz: "contentSize n < 10 ^ 20" using csize_bound [OF sim, of a] 3 by simp
      have us: "uncompressedSize n = length (file_data n)" "contentSize n = csize (abs_file n)"
        using nok node_ok_csize [OF nok] unfolding node_ok_def content_ok_def by blast+
      have "node_ok ?n'" using nok by (subst node_ok_cong(1) [of _ n]) simp_all
      moreover have "abs_file ?n' = (touch env (abs_file n))\<lparr>a_first := 0\<rparr>"
        by (simp add: abs_file_def touch_def file_data_def)
      ultimately have "sim (s\<lparr>heap := (heap s)(a \<mapsto> ?n'), logBuffer := entry env (logBuffer s) ''READ'' path 0 requestor (csize (abs_file n))\<rparr>)
          (us @ a # vs) (logged env ''READ'' path 0 requestor (csize (abs_file n)) (upd (pathname n) (\<lambda>f. (touch env f)\<lparr>a_first := 0\<rparr>) fs))"
        using 3 sim by (intro sim_update_log [where n = n and busy = "{}"]) simp_all
      moreover have "readFileHandler env s path requestor = Some (Inr (file_data n, length (file_data n)),
          s\<lparr>heap := (heap s)(a \<mapsto> ?n'), logBuffer := entry env (logBuffer s) ''READ'' path 0 requestor (csize (abs_file n))\<rparr>)"
      proof -
        let ?n1 = "update_cache_bits env (n\<lparr>activeReaders := 1\<rparr>)"
        let ?s1 = "s\<lparr>heap := (heap s)(a \<mapsto> ?n1)\<rparr>"
        let ?s2 = "?s1\<lparr>logBuffer := entry env (logBuffer s) ''READ'' path 0 requestor (csize (abs_file n))\<rparr>"
        have enter: "readFile_enter env s path requestor = Some (Inr a, ?s1)"
          using 3 True quiet
          by (simp add: readFile_enter_def access_denied_granted modify_def size_add_small size_max_def)
        have body: "readFile_body env ?s1 a path requestor = Some ((file_data n, length (file_data n)), ?s2)"
          using 3 dec sz us by (simp add: readFile_body_def deref_def log_request [OF req])
        have one: "size_sub 1 1 = 0" by simp
        have n2: "?n1\<lparr>activeReaders := size_sub (activeReaders ?n1) 1, canDoFirstWrite := 0\<rparr> = ?n'"
          using quiet one by (cases n) (simp add: update_cache_bits_def)
        have "readFile_leave ?s2 a = Some (s\<lparr>heap := (heap s)(a \<mapsto> ?n'),
            logBuffer := entry env (logBuffer s) ''READ'' path 0 requestor (csize (abs_file n))\<rparr>)"
          using \<open>a \<noteq> NULL\<close> n2 by (cases s) (simp add: readFile_leave_def modify_def deref_def)
        then show ?thesis
          using \<open>\<not> bad_input path requestor\<close> enter body by (simp add: readFileHandler_def)
      qed
      ultimately show ?thesis
        using 3 \<open>\<not> bad_input path requestor\<close> True spec by (auto simp: spec_read_def)
    qed
  qed
qed

section \<open>Locking, unlocking, closing\<close>

lemma lockFile_refines:
  assumes sim: "sim s xs fs" and req: "request_ok env path requestor" and pos: "0 < requestor"
    and spec: "spec_lock env fs path requestor = (r, fs')"
  shows "\<exists>s'. lockFileHandler env s path requestor = Some (r, s') \<and> sim s' xs fs'"
proof (cases rule: sim_find [OF sim, of path])
  case 1
  then show ?thesis
    using spec sim_log [OF sim, of env "''LOCK''" path "errno_value EINVAL" requestor 0]
      log_request_error [OF req, of "''LOCK''" EINVAL s]
    by (auto simp: lockFileHandler_def lockFile_enter_def spec_lock_def)
next
  case 2
  then show ?thesis
    using spec sim_log [OF sim, of env "''LOCK''" path "errno_value ENOENT" requestor 0]
    by (auto simp: lockFileHandler_def lockFile_enter_def spec_lock_def log_request_error [OF req])
next
  case (3 us a vs n)
  have nok: "node_ok n" and quiet: "quiet n" using 3(7) by simp_all
  show ?thesis
  proof (cases "lockedBy n \<noteq> 0 \<and> lockedBy n \<noteq> requestor")
    case True
    let ?n' = "n\<lparr>pendingLocks := pendingLocks n @ [requestor]\<rparr>"
    have "node_ok ?n'" using nok by (subst node_ok_cong(1) [of _ n]) simp_all
    moreover have "abs_file ?n' = (abs_file n)\<lparr>a_wait := a_wait (abs_file n) @ [requestor]\<rparr>"
      by (simp add: abs_file_def file_data_def)
    ultimately have "sim (s\<lparr>heap := (heap s)(a \<mapsto> ?n'), logBuffer := entry env (logBuffer s) ''LOCK'' path (-2) requestor 0\<rparr>)
        (us @ a # vs) (logged env ''LOCK'' path (-2) requestor 0 (upd (pathname n) (\<lambda>f. f\<lparr>a_wait := a_wait f @ [requestor]\<rparr>) fs))"
      using 3 sim by (intro sim_update_log [where n = n and busy = "{}"]) simp_all
    moreover have "lockFileHandler env s path requestor = Some (Inr (-2),
        s\<lparr>heap := (heap s)(a \<mapsto> ?n'), logBuffer := entry env (logBuffer s) ''LOCK'' path (-2) requestor 0\<rparr>)"
      using 3 True quiet pos
      by (simp add: lockFileHandler_def lockFile_enter_def modify_def log_request [OF req])
    ultimately show ?thesis using 3 True spec by (auto simp: spec_lock_def)
  next
    case False
    let ?n' = "(update_cache_bits env n)\<lparr>lockedBy := requestor, canDoFirstWrite := 0\<rparr>"
    have "node_ok ?n'" using nok by (subst node_ok_cong(1) [of _ n]) simp_all
    moreover have "abs_file ?n' = (touch env (abs_file n))\<lparr>a_lock := requestor, a_first := 0\<rparr>"
      by (simp add: abs_file_def touch_def file_data_def)
    ultimately have "sim (s\<lparr>heap := (heap s)(a \<mapsto> ?n'), logBuffer := entry env (logBuffer s) ''LOCK'' path 0 requestor 0\<rparr>)
        (us @ a # vs) (logged env ''LOCK'' path 0 requestor 0
          (upd (pathname n) (\<lambda>f. (touch env f)\<lparr>a_lock := requestor, a_first := 0\<rparr>) fs))"
      using 3 sim by (intro sim_update_log [where n = n and busy = "{}"]) simp_all
    moreover have "lockFileHandler env s path requestor = Some (Inr 0,
        s\<lparr>heap := (heap s)(a \<mapsto> ?n'), logBuffer := entry env (logBuffer s) ''LOCK'' path 0 requestor 0\<rparr>)"
    proof -
      let ?n1 = "update_cache_bits env (n\<lparr>isBeingWritten := True\<rparr>)"
      let ?s1 = "s\<lparr>heap := (heap s)(a \<mapsto> ?n1)\<rparr>"
      let ?s2 = "s\<lparr>heap := (heap s)(a \<mapsto> ?n1\<lparr>lockedBy := requestor\<rparr>),
        logBuffer := entry env (logBuffer s) ''LOCK'' path 0 requestor 0\<rparr>"
      have enter: "lockFile_enter env s path requestor = Some (Inr (Some a), ?s1)"
        unfolding lockFile_enter_def using 3 False quiet by (simp only: sum.case Option.bind.simps) (simp add: modify_def)
      have body: "lockFile_body env ?s1 a path requestor = Some ?s2"
        using \<open>a \<noteq> NULL\<close> by (simp add: lockFile_body_def modify_def deref_def log_request [OF req])
      have n2: "?n1\<lparr>lockedBy := requestor, isBeingWritten := False, canDoFirstWrite := 0\<rparr> = ?n'"
        using quiet by (cases n) (simp add: update_cache_bits_def quiet_def)
      have "update_leave ?s2 a = Some (s\<lparr>heap := (heap s)(a \<mapsto> ?n'),
          logBuffer := entry env (logBuffer s) ''LOCK'' path 0 requestor 0\<rparr>)"
        using \<open>a \<noteq> NULL\<close> n2 by (cases s) (simp add: update_leave_def modify_def deref_def)
      then show ?thesis using enter body by (simp add: lockFileHandler_def)
    qed
    ultimately show ?thesis using 3 False spec by (auto simp: spec_lock_def)
  qed
qed

lemma unlockFile_refines:
  assumes sim: "sim s xs fs" and req: "request_ok env path requestor"
    and spec: "spec_unlock env fs path newLockFd requestor = (r, newLock, fs')"
  shows "\<exists>s'. unlockFileHandler env s path newLockFd requestor = Some (r, newLock, s') \<and> sim s' xs fs'"
proof (cases "bad_input path requestor")
  case True
  then show ?thesis using sim spec by (auto simp: unlockFileHandler_def spec_unlock_def)
next
  case good: False
  show ?thesis
  proof (cases rule: sim_find [OF sim, of path])
    case 1
    then show ?thesis using good by (simp add: bad_input_def)
  next
    case 2
    then show ?thesis
      using good spec sim_log [OF sim, of env "''UNLOCK''" path "errno_value ENOENT" requestor 0]
      by (auto simp: unlockFileHandler_def spec_unlock_def log_request_error [OF req])
  next
    case (3 us a vs n)
    have nok: "node_ok n" and quiet: "quiet n" using 3(7) by simp_all
    show ?thesis
    proof (cases "lockedBy n = requestor")
      case True
      let ?w = "if pendingLocks n = [] then 0 else hd (pendingLocks n)"
      let ?n' = "(update_cache_bits env n)\<lparr>pendingLocks := tl (pendingLocks n), lockedBy := ?w, canDoFirstWrite := 0\<rparr>"
      have "node_ok ?n'" using nok by (subst node_ok_cong(1) [of _ n]) simp_all
      moreover have "abs_file ?n' = (hand_over (touch env (abs_file n)))\<lparr>a_first := 0\<rparr>"
        by (simp add: abs_file_def touch_def file_data_def hand_over_def split: list.split)
      ultimately have "sim (s\<lparr>heap := (heap s)(a \<mapsto> ?n'), logBuffer := entry env (logBuffer s) ''UNLOCK'' path 0 requestor 0\<rparr>)
          (us @ a # vs) (logged env ''UNLOCK'' path 0 requestor 0
            (upd (pathname n) (\<lambda>f. (hand_over (touch env f))\<lparr>a_first := 0\<rparr>) fs))"
        using 3 sim by (intro sim_update_log [where n = n and busy = "{}"]) simp_all
      moreover have "a_lock (hand_over (abs_file n)) = ?w" by (simp add: hand_over_def split: list.split)
      moreover have "unlockFileHandler env s path newLockFd requestor = Some (Inr 0, ?w,
          s\<lparr>heap := (heap s)(a \<mapsto> ?n'), logBuffer := entry env (logBuffer s) ''UNLOCK'' path 0 requestor 0\<rparr>)"
        using 3 True good quiet
        by (simp add: unlockFileHandler_def modify_def deref_def log_request [OF req] pop_head)
      ultimately show ?thesis using 3 True good spec by (auto simp: spec_unlock_def)
    next
      case False
      let ?n' = "update_cache_bits env n"
      have "node_ok ?n'" using nok by (subst node_ok_cong(1) [of _ n]) simp_all
      then have "sim (s\<lparr>heap := (heap s)(a \<mapsto> ?n'), logBuffer := entry env (logBuffer s) ''UNLOCK'' path (errno_value EACCES) requestor 0\<rparr>)
          (us @ a # vs) (logged env ''UNLOCK'' path (errno_value EACCES) requestor 0 (upd (pathname n) (touch env) fs))"
        using 3 sim abs_touch by (intro sim_update_log [where n = n and busy = "{}"]) simp_all
      then show ?thesis using 3 False good quiet spec
        by (auto simp: unlockFileHandler_def spec_unlock_def modify_def deref_def log_request_error [OF req])
    qed
  qed
qed

lemma closeFile_refines:
  assumes sim: "sim s xs fs" and req: "request_ok env path requestor"
    and spec: "spec_close env fs path requestor = (r, fs')"
  shows "\<exists>s'. closeFileHandler env s path requestor = Some (r, s') \<and> sim s' xs fs'"
proof (cases "bad_input path requestor")
  case True
  then show ?thesis using sim spec by (auto simp: closeFileHandler_def spec_close_def)
next
  case good: False
  then have pos: "requestor \<noteq> -1" by (auto simp: bad_input_def)
  show ?thesis
  proof (cases rule: sim_find [OF sim, of path])
    case 1
    then show ?thesis using good by (simp add: bad_input_def)
  next
    case 2
    then show ?thesis using good spec sim by (auto simp: closeFileHandler_def spec_close_def)
  next
    case (3 us a vs n)
    have nok: "node_ok n" and quiet: "quiet n" using 3(7) by simp_all
    let ?n' = "(update_cache_bits env n)\<lparr>openDescriptors := remove1 requestor (openDescriptors n), canDoFirstWrite := 0\<rparr>"
    have "node_ok ?n'" using nok by (subst node_ok_cong(1) [of _ n]) simp_all
    moreover have "abs_file ?n' = (touch env (abs_file n))\<lparr>a_open := remove1 requestor (a_open (abs_file n)), a_first := 0\<rparr>"
      by (simp add: abs_file_def touch_def file_data_def)
    ultimately have "sim (s\<lparr>heap := (heap s)(a \<mapsto> ?n'), logBuffer := entry env (logBuffer s) ''CLOSE'' path 0 requestor 0\<rparr>)
        (us @ a # vs) (logged env ''CLOSE'' path 0 requestor 0
          (upd (pathname n) (\<lambda>f. (touch env f)\<lparr>a_open := remove1 requestor (a_open f), a_first := 0\<rparr>) fs))"
      using 3 sim by (intro sim_update_log [where n = n and busy = "{}"]) simp_all
    moreover have "closeFileHandler env s path requestor = Some (Inr 0,
        s\<lparr>heap := (heap s)(a \<mapsto> ?n'), logBuffer := entry env (logBuffer s) ''CLOSE'' path 0 requestor 0\<rparr>)"
    proof -
      let ?n2 = "(update_cache_bits env (n\<lparr>isBeingWritten := True\<rparr>))\<lparr>openDescriptors := remove1 requestor (openDescriptors n)\<rparr>"
      let ?s2 = "s\<lparr>heap := (heap s)(a \<mapsto> ?n2), logBuffer := entry env (logBuffer s) ''CLOSE'' path 0 requestor 0\<rparr>"
      have n2: "?n2\<lparr>isBeingWritten := False, canDoFirstWrite := 0\<rparr> = ?n'"
        using quiet by (cases n) (simp add: update_cache_bits_def quiet_def)
      have "update_leave ?s2 a = Some (s\<lparr>heap := (heap s)(a \<mapsto> ?n'),
          logBuffer := entry env (logBuffer s) ''CLOSE'' path 0 requestor 0\<rparr>)"
        using \<open>a \<noteq> NULL\<close> n2 by (cases s) (simp add: update_leave_def modify_def deref_def)
      moreover have "closeFileHandler env s path requestor = update_leave ?s2 a \<bind> (\<lambda>s. Some (Inr 0, s))"
        using 3(2,5,6) good pos quiet by (simp add: closeFileHandler_def modify_def deref_def log_request [OF req])
      ultimately show ?thesis by simp
    qed
    ultimately show ?thesis using 3 good spec by (auto simp: spec_close_def)
  qed
qed

lemma testFirstWrite_refines:
  assumes sim: "sim s xs fs"
  shows "testFirstWrite s path requestor = Some (spec_first_write fs path requestor)"
proof (cases rule: sim_find [OF sim, of path])
  case (3 us a vs n)
  show ?thesis unfolding testFirstWrite_def spec_first_write_def 3(2,9) by (simp add: 3(5))
qed (simp_all add: testFirstWrite_def spec_first_write_def bad_input_def)

end
