(* ===== verification/RefinementEvict.thy ===== *)
theory RefinementEvict
  imports Refinement
begin

text \<open>
  Refinement of the handlers that add and remove files: opening (with the eviction that makes
  room for a new file), removing, the exit of a client, and writing (with its eviction loop).
\<close>

section \<open>Removal\<close>

lemma not_busy: "a \<notin> ({} :: ptr set)"
  by simp

lemma sim_destroy:
  assumes sim: "sim_busy busy s (us @ a # vs) fs" and n: "heap s a = Some n" and idle: "a \<notin> busy"
  obtains s' where
    "destroyFile s a nl d = Some (s', if pendingLocks n \<noteq> [] then pendingLocks n else nl)"
    and "sim_busy busy s' (us @ vs) (fs\<lparr>f_files := a_remove (pathname n) (f_files fs)\<rparr>)"
    and "heap s' a = (if d then None else Some (n\<lparr>openDescriptors := []\<rparr>))"
    and "\<And>b. b \<notin> set (us @ a # vs) \<Longrightarrow> heap s' b = heap s b"
    and "\<And>b. b \<in> set (us @ vs) \<Longrightarrow> abs_file (node_at s' b) = abs_file (node_at s b) \<and>
      activity (node_at s' b) = activity (node_at s b)"
proof -
  have rep: "store_rep s (us @ a # vs)" and fs: "fs = abs_store s (us @ a # vs)"
    and quiet: "\<forall>b \<in> set (us @ a # vs). b \<notin> busy \<longrightarrow> quiet (node_at s b)"
    using sim by (simp_all add: sim_busy_def)
  have qa: "quiet (node_at s a)" using quiet idle by simp
  have "distinct (map a_path (abs_files s us @ abs_file n # abs_files s vs))"
    using rep n unfolding store_rep_def dict_rep_def paths_abs by simp
  from a_update_split(2) [OF this]
  have files: "a_remove (pathname n) (f_files fs) = abs_files s us @ abs_files s vs"
    using n by (simp add: fs abs_store_def)
  show ?thesis
  proof (rule destroyFile_rep [OF rep qa, of nl d])
    fix s'
    assume s': "destroyFile s a nl d =
        Some (s', if pendingLocks (node_at s a) \<noteq> [] then pendingLocks (node_at s a) else nl)"
      "store_rep s' (us @ vs)"
      "abs_store s' (us @ vs) = (abs_store s (us @ a # vs))\<lparr>f_files := abs_files s us @ abs_files s vs\<rparr>"
      "heap s' a = (if d then None else Some ((node_at s a)\<lparr>openDescriptors := []\<rparr>))"
      and fr: "\<And>b. b \<notin> set (us @ a # vs) \<Longrightarrow> heap s' b = heap s b"
      and q: "\<And>b. b \<in> set (us @ vs) \<Longrightarrow> activity (node_at s' b) = activity (node_at s b)"
    have "\<forall>b \<in> set (us @ vs). b \<notin> busy \<longrightarrow> quiet (node_at s' b)"
      using q quiet by (simp add: quiet_activity)
    then have "sim_busy busy s' (us @ vs) (fs\<lparr>f_files := a_remove (pathname n) (f_files fs)\<rparr>)"
      using s'(2,3) files by (simp add: sim_busy_def fs)
    moreover have "abs_files s' (us @ vs) = abs_files s (us @ vs)"
      using s'(3) by (simp add: abs_store_def)
    then have "\<And>b. b \<in> set (us @ vs) \<Longrightarrow> abs_file (node_at s' b) = abs_file (node_at s b)"
      unfolding abs_files_def map_eq_conv by blast
    ultimately show ?thesis using that s' fr n q by simp
  qed
qed

lemma removeFile_refines:
  assumes sim: "sim s xs fs" and req: "request_ok env path requestor"
    and spec: "spec_remove env fs path notify requestor = (r, notify', fs')"
  shows "\<exists>s' xs'. removeFileHandler env s path notify requestor = Some (r, notify', s') \<and> sim s' xs' fs'"
proof (cases "bad_input path requestor")
  case True
  then show ?thesis using sim spec by (auto simp: removeFileHandler_def spec_remove_def)
next
  case good: False
  show ?thesis
  proof (cases rule: sim_find [OF sim, of path])
    case 1
    then show ?thesis using good by (simp add: bad_input_def)
  next
    case 2
    then show ?thesis using good spec sim by (auto simp: removeFileHandler_def spec_remove_def)
  next
    case (3 us a vs n)
    show ?thesis
    proof (cases "lockedBy n = requestor")
      case False
      then have "r = Inl EACCES \<and> notify' = notify \<and> fs' = fs"
        using 3(9) good spec by (simp add: spec_remove_def)
      moreover have "removeFileHandler env s path notify requestor = Some (Inl EACCES, notify, s)"
        using 3(2,5) False good by (simp add: removeFileHandler_def)
      ultimately show ?thesis using sim by blast
    next
      case True
      let ?s1 = "s\<lparr>logBuffer := entry env (logBuffer s) ''REMOVE'' path 0 requestor 0\<rparr>"
      let ?fs1 = "logged env ''REMOVE'' path 0 requestor 0 fs"
      have sim1: "sim ?s1 (us @ a # vs) ?fs1" using sim_log [OF sim] 3(3) by simp
      have n1: "heap ?s1 a = Some n" using 3(4) by simp
      obtain s' where s': "destroyFile ?s1 a notify True = Some (s', if pendingLocks n \<noteq> [] then pendingLocks n else notify)"
        and sim': "sim s' (us @ vs) (?fs1\<lparr>f_files := a_remove (pathname n) (f_files ?fs1)\<rparr>)"
        by (rule sim_destroy [OF sim1 n1 not_busy, of notify True]) (rule that)
      have "removeFileHandler env s path notify requestor =
          Some (Inr 0, if pendingLocks n \<noteq> [] then pendingLocks n else notify, s')"
        using 3(2,5) True good s' by (simp add: removeFileHandler_def log_request [OF req])
      moreover have "?fs1\<lparr>f_files := a_remove (pathname n) (f_files ?fs1)\<rparr> = fs' \<and> r = Inr 0 \<and>
          notify' = (if pendingLocks n \<noteq> [] then pendingLocks n else notify)"
        using 3(8,9) True good spec by (auto simp: spec_remove_def logged_def)
      ultimately show ?thesis using sim' by auto
    qed
  qed
qed

section \<open>Opening\<close>

lemma open_existing_refines:
  assumes sim: "sim s (us @ a # vs) fs" and n: "heap s a = Some n" "a \<noteq> NULL" "node_ok n" "quiet n" and pos: "0 < requestor"
  shows "\<exists>s'. open_existing s a lock requestor =
      Some (if lock \<and> lockedBy n \<noteq> 0 then Inl EACCES else Inr 0, s') \<and>
    sim s' (us @ a # vs) (if lock \<and> lockedBy n \<noteq> 0 then fs
      else upd (pathname n) (\<lambda>f. f\<lparr>a_lock := (if lock then requestor else a_lock f), a_open := a_open f @ [requestor]\<rparr>) fs)"
proof (cases "lock \<and> lockedBy n \<noteq> 0")
  case True
  then show ?thesis using sim n by (simp add: open_existing_def deref_def)
next
  case False
  let ?n1 = "if lock then n\<lparr>lockedBy := requestor\<rparr> else n"
  let ?n' = "?n1\<lparr>openDescriptors := openDescriptors n @ [requestor]\<rparr>"
  have "node_ok ?n'" using n(3) by (subst node_ok_cong(1) [of _ n]) simp_all
  moreover have "abs_file ?n' = (abs_file n)\<lparr>a_lock := (if lock then requestor else a_lock (abs_file n)),
      a_open := a_open (abs_file n) @ [requestor]\<rparr>"
    by (simp add: abs_file_def file_data_def)
  ultimately have "sim (s\<lparr>heap := (heap s)(a \<mapsto> ?n')\<rparr>) (us @ a # vs)
      (upd (pathname n) (\<lambda>f. f\<lparr>a_lock := (if lock then requestor else a_lock f), a_open := a_open f @ [requestor]\<rparr>) fs)"
    using n by (intro sim_update [OF sim, where n = n]) simp_all
  moreover have "open_existing s a lock requestor = Some (Inr 0, s\<lparr>heap := (heap s)(a \<mapsto> ?n')\<rparr>)"
  proof (cases lock)
    case True
    then have "lockedBy n = 0" using False by simp
    then show ?thesis using True n pos by (simp add: open_existing_def modify_def deref_def)
  next
    case False
    then show ?thesis using n pos by (simp add: open_existing_def modify_def deref_def)
  qed
  ultimately show ?thesis using False by auto
qed

lemma sim_addFile:
  assumes sim: "sim s xs fs" and n: "heap s p = Some n" and p: "p \<noteq> NULL" "p \<notin> set xs"
    and links: "prevPtr n = NULL" "nextPtr n = NULL" and nok: "node_ok n" and quiet_n: "quiet n"
    and new: "a_lookup (f_files fs) (pathname n) = None" and room: "length (f_files fs) < f_maxNum fs"
    and size: "total_size (f_files fs) + csize (abs_file n) \<le> f_maxSize fs"
  obtains s' where "addFileToStore s p = Some s'" and "sim s' (xs @ [p]) (spec_add (abs_file n) fs)"
proof -
  have rep: "store_rep s xs" and fs: "fs = abs_store s xs" and idle: "\<forall>a \<in> set xs. quiet (node_at s a)"
    using sim by (simp_all add: sim_busy_def)
  have cnt: "currStorageSize s = total_size (abs_files s xs)"
    using rep by (simp add: store_rep_def count_rep_def)
  have sz: "contentSize n = csize (abs_file n)" using node_ok_csize [OF nok] .
  show ?thesis
  proof (rule addFileToStore_rep [OF rep n p links nok])
    show "a_lookup (abs_files s xs) (pathname n) = None" using new by (simp add: fs abs_store_def)
    show "length xs < maxFileNum s" using room by (simp add: fs abs_store_def)
    show "currStorageSize s + contentSize n \<le> maxStorageSize s"
      using size cnt sz by (simp add: fs abs_store_def)
    fix s'
    assume "addFileToStore s p = Some s'" and "store_rep s' (xs @ [p])"
      and "abs_store s' (xs @ [p]) = (abs_store s xs)\<lparr>f_files := abs_files s xs @ [abs_file n],
        f_topNum := max (maxReachedFileNum s) (length xs + 1),
        f_topSize := max (maxReachedStorageSize s) (currStorageSize s + contentSize n)\<rparr>"
      and "\<And>b. activity (node_at s' b) = activity (node_at s b)"
    then show ?thesis using that cnt sz idle quiet_n n by (simp add: quiet_activity sim_busy_def fs spec_add_def abs_store_def)
  qed
qed

lemma new_node_ok:
  "node_ok \<lparr>pathname = path, content = calloc k, contentSize = 0, uncompressedSize = 0,
     lockedBy = l, pendingLocks = [], openDescriptors = d, isBeingWritten = False,
     activeReaders = 0, canDoFirstWrite = w, refCount = 0, lastRef = 0, insertionTime = t,
     prevPtr = NULL, nextPtr = NULL\<rparr>"
  "file_data \<lparr>pathname = path, content = calloc k, contentSize = 0, uncompressedSize = 0,
     lockedBy = l, pendingLocks = [], openDescriptors = d, isBeingWritten = False,
     activeReaders = 0, canDoFirstWrite = w, refCount = 0, lastRef = 0, insertionTime = t,
     prevPtr = NULL, nextPtr = NULL\<rparr> = []"
  by (simp_all add: node_ok_def content_ok_def file_data_def RLEdecompress_def rld_loop.simps calloc_def)

text \<open>A node outside the list does not matter.\<close>

lemma sim_alloc:
  assumes "sim_busy busy s xs fs" and "p \<notin> set xs"
  shows "sim_busy busy (s\<lparr>heap := (heap s)(p := v)\<rparr>) xs fs"
proof -
  have eq: "node_at (s\<lparr>heap := (heap s)(p := v)\<rparr>) a = node_at s a" if "a \<in> set xs" for a
    using that assms(2) by auto
  have files: "abs_files (s\<lparr>heap := (heap s)(p := v)\<rparr>) xs = abs_files s xs"
    using assms(2) by (intro abs_files_frame) auto
  have maps: "map (\<lambda>a. pathname (node_at (s\<lparr>heap := (heap s)(p := v)\<rparr>) a)) xs = map (\<lambda>a. pathname (node_at s a)) xs"
    "map (\<lambda>a. (pathname (node_at (s\<lparr>heap := (heap s)(p := v)\<rparr>) a), a)) xs = map (\<lambda>a. (pathname (node_at s a), a)) xs"
    using eq by simp_all
  have "list_rep (s\<lparr>heap := (heap s)(p := v)\<rparr>) xs = list_rep s xs"
    using assms(2) by (simp add: list_rep_def)
  moreover have "dict_rep (s\<lparr>heap := (heap s)(p := v)\<rparr>) xs = dict_rep s xs"
    unfolding dict_rep_def maps by simp
  moreover have "count_rep (s\<lparr>heap := (heap s)(p := v)\<rparr>) xs = count_rep s xs"
    unfolding count_rep_def files by simp
  ultimately show ?thesis
    using assms(1) files eq unfolding sim_busy_def store_rep_def abs_store_def by simp
qed

lemma fresh_not_in:
  "sim_busy busy s xs fs \<Longrightarrow> heap s p = None \<Longrightarrow> p \<notin> set xs"
  using store_rep_node by (fastforce simp: sim_busy_def)

definition alloc_ok :: "env \<Rightarrow> CacheStorage \<Rightarrow> bool" where
  "alloc_ok env s \<longleftrightarrow> fresh env \<noteq> NULL \<and> heap s (fresh env) = None"

lemma open_new_refines:
  assumes sim: "sim s xs fs" and al: "alloc_ok env s" and req: "request_ok env path requestor" "0 < requestor"
    and new: "a_lookup (f_files fs) path = None" and room: "length (f_files fs) < f_maxNum fs"
    and size: "total_size (f_files fs) \<le> f_maxSize fs"
  shows "\<exists>s' xs'. open_new env s path lock requestor =
      Some (if mem_ok env then Inr 0 else Inl ENOMEM, s') \<and>
    sim s' xs' (if mem_ok env
      then spec_add (new_file env path lock requestor) (logged env ''OPEN'' path 0 requestor 0 fs) else fs)"
proof (cases "mem_ok env")
  case False
  then show ?thesis using sim by (auto simp: open_new_def allocFile_def)
next
  case True
  let ?p = "fresh env"
  let ?l = "if lock then requestor else 0"
  let ?n = "\<lparr>pathname = path, content = calloc INITIALBUFSIZ, contentSize = 0, uncompressedSize = 0,
     lockedBy = ?l, pendingLocks = [], openDescriptors = [requestor], isBeingWritten = False,
     activeReaders = 0, canDoFirstWrite = ?l, refCount = 0, lastRef = 0, insertionTime = now env,
     prevPtr = NULL, nextPtr = NULL\<rparr>"
  let ?s1 = "s\<lparr>heap := (heap s)(?p \<mapsto> ?n)\<rparr>"
  let ?s2 = "?s1\<lparr>logBuffer := entry env (logBuffer s) ''OPEN'' path 0 requestor 0\<rparr>"
  let ?fs2 = "logged env ''OPEN'' path 0 requestor 0 fs"
  have p: "?p \<noteq> NULL" "?p \<notin> set xs" using al fresh_not_in [OF sim] by (simp_all add: alloc_ok_def)
  have sim2: "sim ?s2 xs ?fs2" using sim_log [OF sim_alloc [OF sim p(2)]] by simp
  have abs: "abs_file ?n = new_file env path lock requestor"
    unfolding abs_file_def new_node_ok(2) new_file_def by simp
  have f2: "f_files ?fs2 = f_files fs" "f_maxNum ?fs2 = f_maxNum fs" "f_maxSize ?fs2 = f_maxSize fs"
    by (simp_all add: logged_def)
  obtain s' where s': "addFileToStore ?s2 ?p = Some s'" "sim s' (xs @ [?p]) (spec_add (abs_file ?n) ?fs2)"
  proof (rule sim_addFile [OF sim2 _ p])
    show "heap ?s2 ?p = Some ?n" by simp
    show "node_ok ?n" by (rule new_node_ok(1))
    show "quiet ?n" by (simp add: quiet_def)
    show "total_size (f_files ?fs2) + csize (abs_file ?n) \<le> f_maxSize ?fs2"
      using size by (simp add: abs f2 new_file_def csize_def)
    show "a_lookup (f_files ?fs2) (pathname ?n) = None" using new by (simp add: f2)
    show "length (f_files ?fs2) < f_maxNum ?fs2" using room by (simp add: f2)
  qed (use that in simp_all)
  have "length path < INITIALBUFSIZ" using req(1) by (simp add: request_ok_def PATH_LIMIT_def INITIALBUFSIZ_def)
  then have "open_new env s path lock requestor = addFileToStore ?s2 ?p \<bind> (\<lambda>s. Some (Inr 0, s))"
    using True p(1) req(2)
    by (cases lock) (simp_all add: open_new_def allocFile_def modify_def deref_def log_request [OF req(1)])
  then show ?thesis using True s' abs by auto
qed

text \<open>A victim can be named in the log.\<close>

lemma log_victim:
  assumes "fs_ok fs" and "f \<in> set (f_files fs)" and "request_ok env path requestor"
  shows "request_ok env (a_path f) requestor"
  using assms by (auto simp: fs_ok_def file_ok_def request_ok_def)

lemma sim_counts:
  assumes "sim_busy busy s xs fs"
  shows "currFileNum s = length (f_files fs)" and "maxFileNum s = f_maxNum fs"
    and "currStorageSize s = total_size (f_files fs)" and "maxStorageSize s = f_maxSize fs"
    and "replacementAlgo s = f_algo fs" and "length xs = length (f_files fs)" and "f_files fs = abs_files s xs"
    and "logBuffer s = f_log fs" and "numVictims s = f_victims fs"
  using assms by (auto simp: sim_busy_def store_rep_def count_rep_def abs_store_def)

lemma sim_victims:
  "sim_busy busy s xs fs \<Longrightarrow> sim_busy busy (s\<lparr>numVictims := v\<rparr>) xs (fs\<lparr>f_victims := v\<rparr>)"
  by (auto simp: sim_busy_def abs_store_def)

lemma sim_reset:
  assumes "sim_busy busy s xs fs"
  obtains s' where "reset_refs s (hPtr s) = Some s'" and "sim_busy busy s' xs (fs\<lparr>f_files := a_reset (f_files fs)\<rparr>)"
    and "\<And>b. b \<notin> set xs \<Longrightarrow> heap s' b = heap s b"
    and "\<And>b. b \<in> set xs \<Longrightarrow> \<exists>r. node_at s' b = (node_at s b)\<lparr>refCount := r\<rparr>"
proof -
  have rep: "store_rep s ([] @ xs)" and fs: "fs = abs_store s xs"
    and idle: "\<forall>b \<in> set xs. b \<notin> busy \<longrightarrow> quiet (node_at s b)" using assms by (simp_all add: sim_busy_def)
  have hd: "hPtr s = first_of xs NULL" using rep by (simp add: store_rep_def list_rep_def)
  obtain s' where s': "reset_refs s (first_of xs NULL) = Some s'" "store_rep s' xs"
    "abs_store s' xs = (abs_store s xs)\<lparr>f_files := a_reset (abs_files s xs)\<rparr>"
    and fr: "\<forall>b. b \<notin> set xs \<longrightarrow> heap s' b = heap s b"
    and nd: "\<forall>b \<in> set xs. \<exists>r. node_at s' b = (node_at s b)\<lparr>refCount := r\<rparr>"
    using reset_refs_from [OF rep] by auto
  show ?thesis
  proof (rule that [of s'])
    have "quiet (node_at s' b) = quiet (node_at s b)" if "b \<in> set xs" for b
      using nd that by (metis quiet_update(9))
    then show "sim_busy busy s' xs (fs\<lparr>f_files := a_reset (f_files fs)\<rparr>)"
      using s' idle by (simp add: sim_busy_def fs abs_store_def)
  qed (use s'(1) hd fr nd in auto)
qed

lemma open_evict_refines:
  assumes sim: "sim s xs fs" and ok: "fs_ok fs" and al: "alloc_ok env s" and req: "request_ok env path requestor"
    and spec: "spec_make_room env requestor fs notify = (fs', notify')"
  shows "\<exists>s' xs'. open_evict env s notify requestor = Some (s', notify') \<and> sim s' xs' fs' \<and> alloc_ok env s'"
proof (cases "length (f_files fs) = f_maxNum fs")
  case False
  then show ?thesis
    using sim al spec sim_counts(1,2) [OF sim] by (auto simp: open_evict_def spec_make_room_def)
next
  case True
  have rep: "store_rep s xs" using sim by (simp add: sim_busy_def)
  have ne: "xs \<noteq> []" using True ok sim_counts(6) [OF sim] by (auto simp: fs_ok_def)
  let ?s1 = "s\<lparr>numVictims := size_add (numVictims s) 1\<rparr>"
  obtain v where v: "getVictim s NULL = Some (?s1, v)" "v \<in> set xs"
    "a_victim (replacementAlgo s) None (abs_files s xs) = Some (abs_file (node_at s v))"
    by (rule getVictim_any [OF rep ne]) (rule that)
  obtain us vs where xs: "xs = us @ v # vs" using v(2) by (meson split_list)
  obtain n where n: "v \<noteq> NULL" "heap s v = Some n" using store_rep_node [OF rep v(2)] by blast
  have av: "a_victim (f_algo fs) None (f_files fs) = Some (abs_file n)"
    using v(3) n sim_counts(5,7) [OF sim] by simp
  have "abs_file n \<in> set (f_files fs)" using a_victim_in [OF av] by simp
  from log_victim [OF ok this req] have reqv: "request_ok env (pathname n) requestor" by simp
  let ?s2 = "?s1\<lparr>logBuffer := entry env (logBuffer s) ''EVICTED'' (pathname n) 0 requestor 0\<rparr>"
  let ?fs2 = "logged env ''EVICTED'' (pathname n) 0 requestor 0 (fs\<lparr>f_victims := size_add (f_victims fs) 1\<rparr>)"
  have sim2: "sim ?s2 (us @ v # vs) ?fs2"
    using sim_log [OF sim_victims [OF sim]] sim_counts(9) [OF sim] unfolding xs by simp
  have n2: "heap ?s2 v = Some n" using n by simp
  obtain s3 where s3: "destroyFile ?s2 v notify True = Some (s3, if pendingLocks n \<noteq> [] then pendingLocks n else notify)"
    and sim3: "sim s3 (us @ vs) (?fs2\<lparr>f_files := a_remove (pathname n) (f_files ?fs2)\<rparr>)"
    and fr3: "\<And>b. b \<notin> set (us @ v # vs) \<Longrightarrow> heap s3 b = heap ?s2 b"
    by (rule sim_destroy [OF sim2 n2 not_busy, of notify True]) (rule that)
  let ?fs3 = "?fs2\<lparr>f_files := a_remove (pathname n) (f_files ?fs2)\<rparr>"
  obtain s4 where s4: "reset_refs s3 (hPtr s3) = Some s4" "sim s4 (us @ vs) (?fs3\<lparr>f_files := a_reset (f_files ?fs3)\<rparr>)"
    and fr4: "\<And>b. b \<notin> set (us @ vs) \<Longrightarrow> heap s4 b = heap s3 b"
    by (rule sim_reset [OF sim3]) (rule that)
  have "fresh env \<notin> set (us @ v # vs)" using al fresh_not_in [OF sim] xs by (simp add: alloc_ok_def)
  then have "alloc_ok env s4" using fr3 fr4 al by (simp add: alloc_ok_def)
  moreover have "open_evict env s notify requestor = Some (s4, if pendingLocks n \<noteq> [] then pendingLocks n else notify)"
    using True sim_counts(1,2) [OF sim] v(1) n s3 s4(1) log_request [OF reqv, of "''EVICTED''" 0 0 ?s1]
    by (simp add: open_evict_def deref_def)
  moreover have "?fs3\<lparr>f_files := a_reset (f_files ?fs3)\<rparr> = fs' \<and>
      notify' = (if pendingLocks n \<noteq> [] then pendingLocks n else notify)"
    using spec True av by (auto simp: spec_make_room_def logged_def)
  ultimately show ?thesis using s4(2) by auto
qed

lemma total_size_reset [simp]: "total_size (a_reset fs) = total_size fs"
  by (induction fs) (simp_all add: a_reset_def csize_def)

lemma total_size_remove: "total_size (a_remove p fs) \<le> total_size fs"
  by (induction fs) auto

lemma a_lookup_reset: "a_lookup (a_reset fs) p = map_option (\<lambda>f. f\<lparr>a_refs := 0\<rparr>) (a_lookup fs p)"
  by (induction fs) (auto simp: a_reset_def a_lookup_def)

lemma a_lookup_remove: "a_lookup (a_remove q fs) p = (if p = q then None else a_lookup fs p)"
  by (induction fs) (auto simp: a_lookup_def)

text \<open>There is room for a new file after the eviction.\<close>

lemma spec_make_room_room:
  assumes "fs_ok fs" and "spec_make_room env requestor fs notify = (fs', notify')"
  shows "length (f_files fs') < f_maxNum fs'" and "total_size (f_files fs') \<le> f_maxSize fs'"
    and "a_lookup (f_files fs) path = None \<Longrightarrow> a_lookup (f_files fs') path = None"
proof -
  have "length (f_files fs') < f_maxNum fs' \<and> total_size (f_files fs') \<le> f_maxSize fs' \<and>
      (a_lookup (f_files fs) path = None \<longrightarrow> a_lookup (f_files fs') path = None)"
  proof (cases "length (f_files fs) = f_maxNum fs")
    case False
    then show ?thesis using assms by (auto simp: spec_make_room_def fs_ok_def)
  next
    case True
    then have "f_files fs \<noteq> []" using assms(1) by (auto simp: fs_ok_def)
    then have "a_victim (f_algo fs) None (f_files fs) \<noteq> None"
      by (cases "f_files fs") (auto simp: a_victim_None)
    then obtain v where v: "a_victim (f_algo fs) None (f_files fs) = Some v" by blast
    have fs': "f_files fs' = a_reset (a_remove (a_path v) (f_files fs))" "f_maxNum fs' = f_maxNum fs"
      "f_maxSize fs' = f_maxSize fs"
      using assms(2) True v by (auto simp: spec_make_room_def logged_def)
    show ?thesis
      using assms(1) a_victim_shorter [OF v] total_size_remove [of "a_path v" "f_files fs"] True
      by (auto simp: fs' fs_ok_def a_lookup_reset a_lookup_remove) (simp_all add: a_reset_def)
  qed
  then show "length (f_files fs') < f_maxNum fs'" and "total_size (f_files fs') \<le> f_maxSize fs'"
    and "a_lookup (f_files fs) path = None \<Longrightarrow> a_lookup (f_files fs') path = None"
    by simp_all
qed

lemma openFile_refines:
  assumes sim: "sim s xs fs" and ok: "fs_ok fs" and al: "alloc_ok env s" and req: "request_ok env path requestor"
    and spec: "spec_open env fs path flags notify requestor = (r, notify', fs')"
  shows "\<exists>s' xs'. openFileHandler env s path flags notify requestor = Some (r, notify', s') \<and> sim s' xs' fs'"
proof (cases "path = [] \<or> requestor \<le> 0")
  case True
  then show ?thesis using sim spec by (auto simp: openFileHandler_def spec_open_def)
next
  case good: False
  let ?c = "IS_SET O_CREATE flags" and ?l = "IS_SET O_LOCK flags"
  show ?thesis
  proof (cases rule: sim_find [OF sim, of path])
    case 1
    then show ?thesis using good by simp
  next
    case 2
    show ?thesis
    proof (cases ?c)
      case False
      then show ?thesis using 2 good spec sim by (auto simp: openFileHandler_def spec_open_def)
    next
      case True
      obtain fs1 nl1 where room: "spec_make_room env requestor fs notify = (fs1, nl1)" by fastforce
      obtain s1 xs1 where ev: "open_evict env s notify requestor = Some (s1, nl1)" "sim s1 xs1 fs1" "alloc_ok env s1"
        using open_evict_refines [OF sim ok al req room] by blast
      have pos: "0 < requestor" using good by simp
      obtain s2 xs2 where new: "open_new env s1 path ?l requestor = Some (if mem_ok env then Inr 0 else Inl ENOMEM, s2)"
        "sim s2 xs2 (if mem_ok env then spec_add (new_file env path ?l requestor) (logged env ''OPEN'' path 0 requestor 0 fs1) else fs1)"
        using open_new_refines [OF ev(2,3) req pos spec_make_room_room(3) [OF ok room 2(3)] spec_make_room_room(1,2) [OF ok room]]
        by blast
      have "openFileHandler env s path flags notify requestor = Some (if mem_ok env then Inr 0 else Inl ENOMEM, nl1, s2)"
        using good 2 True ev(1) new(1) by (simp add: openFileHandler_def Let_def)
      moreover have "(r, notify', fs') = (if mem_ok env then Inr 0 else Inl ENOMEM, nl1,
          if mem_ok env then spec_add (new_file env path ?l requestor) (logged env ''OPEN'' path 0 requestor 0 fs1) else fs1)"
        using spec good 2 True room by (simp add: spec_open_def Let_def split: if_splits)
      ultimately show ?thesis using new(2) by auto
    qed
  next
    case (3 us a vs n)
    show ?thesis
    proof (cases ?c)
      case True
      then show ?thesis using 3(2,9) good spec sim by (auto simp: openFileHandler_def spec_open_def)
    next
      case False
      have pos: "0 < requestor" using good by simp
      obtain s' where s': "open_existing s a ?l requestor = Some (if ?l \<and> lockedBy n \<noteq> 0 then Inl EACCES else Inr 0, s')"
        "sim s' (us @ a # vs) (if ?l \<and> lockedBy n \<noteq> 0 then fs else upd (pathname n)
           (\<lambda>f. f\<lparr>a_lock := (if ?l then requestor else a_lock f), a_open := a_open f @ [requestor]\<rparr>) fs)"
        using open_existing_refines [OF _ 3(4,6) _ _ pos, of us vs fs ?l] sim 3(3,7) by blast
      have "openFileHandler env s path flags notify requestor =
          Some (if ?l \<and> lockedBy n \<noteq> 0 then Inl EACCES else Inr 0, notify, s')"
        using good 3(2) False s'(1) by (simp add: openFileHandler_def Let_def)
      moreover have "(r, notify', fs') = (if ?l \<and> lockedBy n \<noteq> 0 then Inl EACCES else Inr 0, notify,
          if ?l \<and> lockedBy n \<noteq> 0 then fs else upd (pathname n)
           (\<lambda>f. f\<lparr>a_lock := (if ?l then requestor else a_lock f), a_open := a_open f @ [requestor]\<rparr>) fs)"
        using spec good 3(8,9) False by (auto simp: spec_open_def Let_def split: if_splits)
      ultimately show ?thesis using s'(2) by auto
    qed
  qed
qed

section \<open>The exit of a client\<close>

lemma exit_node_abs:
  assumes "node_ok n" and "0 < requestor" and waits: "\<forall>w \<in> set (pendingLocks n). 0 < w"
  shows "\<exists>n'. exit_node requestor n notify = Some (n', notify @ exit_notify requestor (abs_file n)) \<and>
    abs_file n' = exit_file requestor (abs_file n) \<and> node_ok n' \<and> quiet n' = quiet n \<and> prevPtr n' = prevPtr n \<and>
    nextPtr n' = nextPtr n \<and> pathname n' = pathname n \<and> contentSize n' = contentSize n"
proof -
  have pos: "requestor \<noteq> -1" using assms(2) by simp
  let ?q = "if lockedBy n = requestor then tl (pendingLocks n) else pendingLocks n"
  let ?l = "if lockedBy n = requestor then (if pendingLocks n = [] then 0 else hd (pendingLocks n)) else lockedBy n"
  let ?n' = "n\<lparr>pendingLocks := remove1 requestor ?q, openDescriptors := remove1 requestor (openDescriptors n), lockedBy := ?l\<rparr>"
  have "exit_node requestor n notify = Some (?n', notify @ exit_notify requestor (abs_file n))"
    using pos waits
    by (cases "pendingLocks n"; cases n) (auto simp: exit_node_def exit_notify_def pop_head)
  moreover have "abs_file ?n' = exit_file requestor (abs_file n)"
    by (cases "pendingLocks n") (simp_all add: exit_file_def hand_over_def abs_file_def file_data_def)
  moreover have "node_ok ?n'" using assms(1) by (subst node_ok_cong(1) [of _ n]) simp_all
  ultimately show ?thesis by (intro exI [of _ ?n']) simp
qed

lemma exit_loop_from:
  assumes "store_rep s (us @ vs)" and "0 < requestor" and "\<forall>a \<in> set (us @ vs). quiet (node_at s a)"
    and "\<forall>f \<in> set (abs_files s vs). \<forall>w \<in> set (a_wait f). 0 < w"
  shows "\<exists>s'. exit_loop s requestor (first_of vs NULL) notify =
      Some (s', notify @ concat (map (exit_notify requestor) (abs_files s vs))) \<and> store_rep s' (us @ vs) \<and>
    (\<forall>a \<in> set (us @ vs). quiet (node_at s' a)) \<and>
    abs_store s' (us @ vs) = (abs_store s (us @ vs))\<lparr>f_files := abs_files s us @ map (exit_file requestor) (abs_files s vs)\<rparr>"
  using assms
proof (induction vs arbitrary: us s notify)
  case Nil
  then show ?case by (simp add: exit_loop.simps abs_store_def)
next
  case (Cons v vs)
  obtain n where n: "v \<noteq> NULL" "heap s v = Some n" "node_ok n" using store_rep_node [OF Cons.prems(1), of v] by auto
  have waits: "\<forall>w \<in> set (pendingLocks n). 0 < w" using Cons.prems(4) n by simp
  obtain n' where ex: "exit_node requestor n notify = Some (n', notify @ exit_notify requestor (abs_file n))"
    and abs: "abs_file n' = exit_file requestor (abs_file n)" and nok: "node_ok n'" and qn: "quiet n' = quiet n"
    and same: "prevPtr n' = prevPtr n" "nextPtr n' = nextPtr n" "pathname n' = pathname n" "contentSize n' = contentSize n"
    using exit_node_abs [OF n(3) Cons.prems(2) waits] by blast
  let ?s1 = "s\<lparr>heap := (heap s)(v \<mapsto> n')\<rparr>"
  note up = store_rep_update [OF Cons.prems(1) n(2) same nok]
  have parts: "abs_files ?s1 us = abs_files s us" "abs_files ?s1 vs = abs_files s vs"
    using up(2) unfolding abs_files_simps append_eq_append_conv [OF disjI1, OF trans [OF abs_files_simps(4) abs_files_simps(4) [symmetric]]]
    by simp_all
  have nxt: "nextPtr n' = first_of vs NULL" using store_rep_split(2) [OF Cons.prems(1)] same n by simp
  have quiet: "quiet n" using Cons.prems(3) n(2) by simp
  then have q1: "\<forall>a \<in> set ((us @ [v]) @ vs). quiet (node_at ?s1 a)" using Cons.prems(3) qn by simp
  have "\<forall>f \<in> set (abs_files ?s1 vs). \<forall>w \<in> set (a_wait f). 0 < w"
    unfolding parts using Cons.prems(4) by simp
  then obtain s' where s': "exit_loop ?s1 requestor (first_of vs NULL) (notify @ exit_notify requestor (abs_file n)) =
      Some (s', (notify @ exit_notify requestor (abs_file n)) @ concat (map (exit_notify requestor) (abs_files ?s1 vs)))"
    "store_rep s' ((us @ [v]) @ vs)" and q2: "\<forall>a \<in> set ((us @ [v]) @ vs). quiet (node_at s' a)"
    and abs': "abs_store s' ((us @ [v]) @ vs) = (abs_store ?s1 ((us @ [v]) @ vs))\<lparr>f_files :=
       abs_files ?s1 (us @ [v]) @ map (exit_file requestor) (abs_files ?s1 vs)\<rparr>"
    using Cons.IH [of ?s1 "us @ [v]" "notify @ exit_notify requestor (abs_file n)"] up(1) Cons.prems(2) q1 by auto
  have step: "exit_loop s requestor (first_of (v # vs) NULL) notify =
      exit_loop ?s1 requestor (first_of vs NULL) (notify @ exit_notify requestor (abs_file n))"
    using n quiet ex nxt by (subst exit_loop.simps) (simp add: deref_def modify_def)
  show ?case
  proof (intro exI [of _ s'] conjI)
    show "exit_loop s requestor (first_of (v # vs) NULL) notify =
        Some (s', notify @ concat (map (exit_notify requestor) (abs_files s (v # vs))))"
      using s'(1) parts(2) n(2) unfolding step by simp
    show "store_rep s' (us @ v # vs)" using s'(2) by simp
    show "\<forall>a \<in> set (us @ v # vs). quiet (node_at s' a)" using q2 by simp
    show "abs_store s' (us @ v # vs) = (abs_store s (us @ v # vs))\<lparr>f_files :=
        abs_files s us @ map (exit_file requestor) (abs_files s (v # vs))\<rparr>"
      using abs' parts abs n(2) by (simp add: abs_store_def)
  qed
qed

lemma clientExit_refines:
  assumes sim: "sim s xs fs" and ok: "fs_ok fs"
    and spec: "spec_exit fs notify requestor = (r, notify', fs')"
  shows "\<exists>s'. clientExitHandler s notify requestor = Some (r, notify', s') \<and> sim s' xs fs'"
proof (cases "requestor \<le> 0")
  case True
  then show ?thesis using sim spec by (auto simp: clientExitHandler_def spec_exit_def)
next
  case False
  have rep: "store_rep s ([] @ xs)" and fs: "fs = abs_store s xs"
    and idle: "\<forall>a \<in> set ([] @ xs). quiet (node_at s a)" using sim by (simp_all add: sim_busy_def)
  have hd: "hPtr s = first_of xs NULL" using rep by (simp add: store_rep_def list_rep_def)
  have "\<forall>f \<in> set (abs_files s xs). \<forall>w \<in> set (a_wait f). 0 < w"
    using ok by (auto simp: fs_ok_def file_ok_def fs abs_store_def)
  then obtain s' where s': "exit_loop s requestor (first_of xs NULL) notify =
      Some (s', notify @ concat (map (exit_notify requestor) (abs_files s xs)))"
    "store_rep s' xs" "abs_store s' xs = (abs_store s xs)\<lparr>f_files := map (exit_file requestor) (abs_files s xs)\<rparr>"
    "\<forall>a \<in> set xs. quiet (node_at s' a)"
    using exit_loop_from [OF rep _ idle, of requestor notify] False by auto
  have "clientExitHandler s notify requestor =
      Some (Inr 0, notify @ concat (map (exit_notify requestor) (abs_files s xs)), s')"
    using False s'(1) hd by (simp add: clientExitHandler_def)
  moreover have "(r, notify', fs') = (Inr 0, notify @ concat (map (exit_notify requestor) (abs_files s xs)),
      (abs_store s xs)\<lparr>f_files := map (exit_file requestor) (abs_files s xs)\<rparr>)"
    using False spec by (simp add: spec_exit_def fs abs_store_def)
  ultimately show ?thesis using s'(2-4) by (auto simp: sim_busy_def)
qed

end
