(* ===== verification/RefinementWrite.thy ===== *)
theory RefinementWrite
  imports RefinementEvict
begin

text \<open>
  Refinement of \<open>writeToFileHandler\<close>: its eviction loop always finds the room it needs, never runs into
  \<open>assert(victim)\<close>, and hands back exactly the files it took out, still intact, with the clients
  that waited for them.
\<close>

section \<open>The list of evicted files\<close>

fun sll :: "(ptr \<rightharpoonup> FileNode) \<Rightarrow> ptr \<Rightarrow> ptr list \<Rightarrow> bool" where
  "sll h p [] \<longleftrightarrow> p = NULL"
| "sll h p (e # es) \<longleftrightarrow> p = e \<and> e \<noteq> NULL \<and> (\<exists>n. h e = Some n \<and> sll h (nextPtr n) es)"

lemma sll_frame: "(\<And>e. e \<in> set es \<Longrightarrow> h' e = h e) \<Longrightarrow> sll h' p es = sll h p es"
  by (induction es arbitrary: p) auto

definition evicted_rep :: "CacheStorage \<Rightarrow> ptr \<Rightarrow> ptr list \<Rightarrow> afile list \<Rightarrow> bool" where
  "evicted_rep s p es evs \<longleftrightarrow>
     sll (heap s) p es \<and> distinct es \<and> map (\<lambda>e. abs_file (node_at s e)) es = evs \<and>
     (\<forall>e \<in> set es. node_ok (node_at s e))"

lemma evicted_rep_frame:
  assumes "evicted_rep s p es evs" and "\<And>e. e \<in> set es \<Longrightarrow> heap s' e = heap s e"
  shows "evicted_rep s' p es evs"
  using assms sll_frame [of es "heap s'" "heap s" p] by (auto simp: evicted_rep_def)

lemma evicted_rep_Cons:
  assumes "evicted_rep s p es evs" and "e \<notin> set es" and "e \<noteq> NULL" and "heap s e = Some n"
    and "nextPtr n = p" and "node_ok n"
  shows "evicted_rep s e (e # es) (abs_file n # evs)"
  using assms by (simp add: evicted_rep_def)

section \<open>Sizes\<close>

lemma total_size_split:
  assumes "distinct (map a_path fs)" and "a_lookup fs p = Some f"
  shows "total_size fs = csize f + total_size (a_remove p fs)"
proof -
  have "f \<in> set fs" and p: "a_path f = p" using a_lookup_in [OF assms(2)] by simp_all
  then obtain us vs where fs: "fs = us @ f # vs" by (meson split_list)
  show ?thesis using a_update_split(2) [of us f vs] assms(1) p by (simp add: fs)
qed

lemma fs_ok_remove:
  assumes "fs_ok fs"
  shows "fs_ok (fs\<lparr>f_files := a_remove p (f_files fs)\<rparr>)"
  using assms total_size_remove [of p "f_files fs"]
    le_trans [OF length_filter_le [of "\<lambda>f. a_path f \<noteq> p" "f_files fs"], of "f_maxNum fs"]
  by (auto simp: fs_ok_def a_remove_def distinct_map inj_on_def)

lemma fs_ok_irrelevant [simp]:
  "fs_ok (logged env op path out req k fs) = fs_ok fs"
  "fs_ok (fs\<lparr>f_victims := v\<rparr>) = fs_ok fs" "fs_ok (fs\<lparr>f_topSize := v\<rparr>) = fs_ok fs"
  by (simp_all add: fs_ok_def logged_def)

lemma logged_fields [simp]:
  "f_files (logged env op path out req k fs) = f_files fs" "f_maxSize (logged env op path out req k fs) = f_maxSize fs"
  "f_maxNum (logged env op path out req k fs) = f_maxNum fs" "f_algo (logged env op path out req k fs) = f_algo fs"
  "f_topNum (logged env op path out req k fs) = f_topNum fs" "f_topSize (logged env op path out req k fs) = f_topSize fs"
  "f_victims (logged env op path out req k fs) = f_victims fs"
  by (simp_all add: logged_def)

text \<open>The test of the loop, without wrap-around.\<close>

lemma room_test:
  assumes sim: "sim_busy busy s xs fs" and ok: "fs_ok fs" and a: "a \<in> set xs" and need: "need \<le> f_maxSize fs"
  shows "size_add (size_sub (currStorageSize s) (contentSize (node_at s a))) need =
    total_size (a_remove (pathname (node_at s a)) (f_files fs)) + need"
proof -
  have rep: "store_rep s xs" using sim by (simp add: sim_busy_def)
  then have cs: "contentSize (node_at s a) = csize (abs_file (node_at s a))"
    using a node_ok_csize by (simp add: store_rep_def)
  have "abs_file (node_at s a) \<in> set (f_files fs)"
    using a sim_counts(7) [OF sim] by (simp add: abs_files_def)
  then have "a_lookup (f_files fs) (pathname (node_at s a)) = Some (abs_file (node_at s a))"
    using ok a_lookup_iff by (fastforce simp: fs_ok_def)
  then have tot: "total_size (f_files fs) = csize (abs_file (node_at s a)) +
      total_size (a_remove (pathname (node_at s a)) (f_files fs))"
    using ok by (intro total_size_split) (simp_all add: fs_ok_def)
  have max: "total_size (f_files fs) \<le> f_maxSize fs" "f_maxSize fs < 2 ^ 60" using ok by (simp_all add: fs_ok_def)
  have "size_sub (currStorageSize s) (contentSize (node_at s a)) =
      total_size (a_remove (pathname (node_at s a)) (f_files fs))"
    using tot max sim_counts(3) [OF sim] cs by (subst size_sub_small) (simp_all add: size_max_def)
  then show ?thesis using tot max need by (subst size_add_small) (simp_all add: size_max_def)
qed

section \<open>The eviction loop\<close>

lemma evict_loop_refines:
  assumes "sim_busy {a} s xs fs" and "a \<in> set xs" and "pathname (node_at s a) = path" and "fs_ok fs"
    and "need \<le> f_maxSize fs" and "evicted_rep s ep es evs" and "set es \<inter> set xs = {}"
    and "request_ok env path requestor"
    and "spec_evict env path need requestor fs notify evs = (fs', notify', evs')"
  shows "\<exists>s' xs' ep' es'. evict_loop env a need requestor s notify ep = Some (s', notify', ep') \<and>
    sim_busy {a} s' xs' fs' \<and> a \<in> set xs' \<and> abs_file (node_at s' a) = abs_file (node_at s a) \<and>
    activity (node_at s' a) = activity (node_at s a) \<and> evicted_rep s' ep' es' evs' \<and> set es' \<inter> set xs' = {}"
  using assms
proof (induction env path need requestor fs notify evs arbitrary: s xs ep es rule: spec_evict.induct)
  case (1 env path need requestor fs notify evs)
  note sim = "1.prems"(1) and a = "1.prems"(2) and path = "1.prems"(3) and ok = "1.prems"(4)
    and need = "1.prems"(5) and ev = "1.prems"(6) and disj = "1.prems"(7) and req = "1.prems"(8)
    and spec = "1.prems"(9)
  have rep: "store_rep s xs" using sim by (simp add: sim_busy_def)
  have da: "deref s a = Some (node_at s a)" using store_rep_deref [OF rep a] .
  have test: "maxStorageSize s < size_add (size_sub (currStorageSize s) (contentSize (node_at s a))) need \<longleftrightarrow>
      f_maxSize fs < total_size (a_remove path (f_files fs)) + need"
    using room_test [OF sim ok a need] path sim_counts(4) [OF sim] by simp
  show ?case
  proof (cases "f_maxSize fs < total_size (a_remove path (f_files fs)) + need")
    case False
    then have "evict_loop env a need requestor s notify ep = Some (s, notify, ep)"
      using da test by (subst evict_loop.simps) simp
    moreover have "(fs', notify', evs') = (fs, notify, evs)"
      using spec False by (subst (asm) spec_evict.simps) simp
    ultimately show ?thesis using sim a ev disj by blast
  next
    case True
    have "xs \<noteq> [a]"
    proof
      assume "xs = [a]"
      then have "f_files fs = [abs_file (node_at s a)]" using sim_counts(7) [OF sim] by simp
      then show False using True need path by simp
    qed
    let ?s1 = "s\<lparr>numVictims := size_add (numVictims s) 1\<rparr>"
    let ?fs1 = "fs\<lparr>f_victims := size_add (f_victims fs) 1\<rparr>"
    obtain v where v: "getVictim s a = Some (?s1, v)" "v \<in> set xs" "v \<noteq> a"
      "a_victim (replacementAlgo s) (Some (pathname (node_at s a))) (abs_files s xs) = Some (abs_file (node_at s v))"
      by (rule getVictim_spare [OF rep a \<open>xs \<noteq> [a]\<close>]) (rule that)
    obtain us vs where xs: "xs = us @ v # vs" using v(2) by (meson split_list)
    have dxs: "distinct xs" using rep by (simp add: store_rep_def list_rep_def)
    obtain n where n: "v \<noteq> NULL" "heap s v = Some n" "node_ok n" using store_rep_node [OF rep v(2)] by blast
    have av: "a_victim (f_algo fs) (Some path) (f_files fs) = Some (abs_file n)"
      using v(4) n path sim_counts(5,7) [OF sim] by simp
    have "abs_file n \<in> set (f_files fs)" using a_victim_in [OF av] by simp
    from log_victim [OF ok this req] have reqv: "request_ok env (pathname n) requestor" by simp
    have sim1: "sim_busy {a} ?s1 (us @ v # vs) ?fs1"
      using sim_victims [OF sim] sim_counts(9) [OF sim] unfolding xs by simp
    have n1: "heap ?s1 v = Some n" and vb: "v \<notin> {a}" using n v(3) by simp_all
    obtain s2 where s2: "destroyFile ?s1 v [] False = Some (s2, if pendingLocks n \<noteq> [] then pendingLocks n else [])"
      and sim2: "sim_busy {a} s2 (us @ vs) (?fs1\<lparr>f_files := a_remove (pathname n) (f_files ?fs1)\<rparr>)"
      and h2: "heap s2 v = (if False then None else Some (n\<lparr>openDescriptors := []\<rparr>))"
      and fr2: "\<And>b. b \<notin> set (us @ v # vs) \<Longrightarrow> heap s2 b = heap ?s1 b"
      and abs2: "\<And>b. b \<in> set (us @ vs) \<Longrightarrow> abs_file (node_at s2 b) = abs_file (node_at ?s1 b) \<and>
          activity (node_at s2 b) = activity (node_at ?s1 b)"
      by (rule sim_destroy [OF sim1 n1 vb, of "[]" False]) (rule that)
    let ?fs2 = "?fs1\<lparr>f_files := a_remove (pathname n) (f_files ?fs1)\<rparr>"
    let ?n3 = "n\<lparr>openDescriptors := [], nextPtr := ep\<rparr>"
    let ?s3 = "s2\<lparr>heap := (heap s2)(v \<mapsto> ?n3)\<rparr>"
    let ?s4 = "?s3\<lparr>logBuffer := entry env (logBuffer s2) ''EVICTED'' (pathname n) 0 requestor 0\<rparr>"
    let ?fs4 = "logged env ''EVICTED'' (pathname n) 0 requestor 0 ?fs2"
    have nv: "v \<notin> set (us @ vs)" using dxs xs by auto
    have sim4: "sim_busy {a} ?s4 (us @ vs) ?fs4"
      using sim_log [OF sim_alloc [OF sim2 nv], where env = env and op = "''EVICTED''" and path = "pathname n"
          and outcome = 0 and requestor = requestor and n = 0] by simp
    have step: "evict_loop env a need requestor s notify ep =
        evict_loop env a need requestor ?s4 (notify @ pendingLocks n) v"
      using da test True v(1) n(1) s2 h2 log_request [OF reqv, of "''EVICTED''" 0 0 ?s3]
      by (subst evict_loop.simps) (simp add: modify_def deref_def)
    have a4: "a \<in> set (us @ vs)" using a v(3) xs by auto
    have abs4: "abs_file (node_at ?s4 a) = abs_file (node_at s a)"
      and act4: "activity (node_at ?s4 a) = activity (node_at s a)"
      using abs2 [OF a4] v(3) by simp_all
    then have path4: "pathname (node_at ?s4 a) = path" using path by (metis abs_file_sel(1))
    have ok4: "fs_ok ?fs4" using fs_ok_remove [of ?fs1 "pathname n"] ok by simp
    have nok3: "node_ok ?n3" using n(3) by (subst node_ok_cong(1) [of _ n]) simp_all
    have ve: "v \<notin> set es" using disj v(2) by auto
    have "evicted_rep ?s4 ep es evs"
    proof (rule evicted_rep_frame [OF ev])
      fix e assume e: "e \<in> set es"
      then have "e \<notin> set (us @ v # vs)" using disj xs by auto
      then show "heap ?s4 e = heap s e" using fr2 [of e] by auto
    qed
    then have ev4: "evicted_rep ?s4 v (v # es) (abs_file ?n3 # evs)"
      by (rule evicted_rep_Cons [OF _ ve n(1)]) (use nok3 in simp_all)
    have abs3: "abs_file ?n3 = (abs_file n)\<lparr>a_open := []\<rparr>" by (simp add: abs_file_def file_data_def)
    have disj4: "set (v # es) \<inter> set (us @ vs) = {}" using disj nv xs by auto
    have need4: "need \<le> f_maxSize ?fs4" using need by simp
    let ?fsn = "logged env ''EVICTED'' (a_path (abs_file n)) 0 requestor 0
      (fs\<lparr>f_files := a_remove (a_path (abs_file n)) (f_files fs), f_victims := size_add (f_victims fs) 1\<rparr>)"
    have fsn: "?fs4 = ?fsn" by (cases fs) simp
    have spec4: "spec_evict env path need requestor ?fsn (notify @ a_wait (abs_file n)) ((abs_file n)\<lparr>a_open := []\<rparr> # evs) =
        (fs', notify', evs')"
      using spec True av by (subst (asm) spec_evict.simps) simp
    note ih = "1.IH" [OF True av sim4 [unfolded fsn] a4 path4 ok4 [unfolded fsn] need4 [unfolded fsn] ev4 [unfolded abs3]
        disj4 req spec4]
    then show ?thesis using abs4 act4 unfolding step by auto
  qed
qed

section \<open>The update of the file\<close>

lemma total_size_update:
  assumes "distinct (map a_path fs)" and "a_lookup fs p = Some f" and "a_path (g f) = p"
  shows "total_size (a_update p g fs) = total_size (a_remove p fs) + csize (g f)"
proof -
  have "f \<in> set fs" and p: "a_path f = p" using a_lookup_in [OF assms(2)] by simp_all
  then obtain us vs where fs: "fs = us @ f # vs" by (meson split_list)
  show ?thesis
    using a_update_split(1) [of us f vs g] a_update_split(2) [of us f vs] assms(1) p by (simp add: fs)
qed

lemma sim_resize:
  assumes sim: "sim_busy busy s (us @ a # vs) fs" and n: "heap s a = Some n"
    and links: "prevPtr n' = prevPtr n" "nextPtr n' = nextPtr n" and path: "pathname n' = pathname n"
    and nok: "node_ok n'" and abs: "abs_file n' = g (abs_file n)" and quiet: "quiet n'" and busy: "busy \<subseteq> {a}"
    and k: "k = total_size (a_update (pathname n) g (f_files fs))" and room: "k \<le> f_maxSize fs"
  shows "sim (s\<lparr>currStorageSize := k, heap := (heap s)(a \<mapsto> n')\<rparr>)
    (us @ a # vs) (upd (pathname n) g fs)"
proof -
  have rep: "store_rep s (us @ a # vs)" and fs: "fs = abs_store s (us @ a # vs)"
    and idle: "\<forall>b \<in> set (us @ a # vs). b \<notin> busy \<longrightarrow> quiet (node_at s b)"
    using sim by (simp_all add: sim_busy_def)
  let ?s' = "s\<lparr>currStorageSize := k, heap := (heap s)(a \<mapsto> n')\<rparr>"
  have nin: "a \<notin> set us" "a \<notin> set vs" using rep by (auto simp: store_rep_def list_rep_def)
  have fr: "abs_files ?s' us = abs_files s us" "abs_files ?s' vs = abs_files s vs"
    using nin by (auto intro!: abs_files_frame)
  have "distinct (map a_path (abs_files s us @ abs_file n # abs_files s vs))"
    using rep n unfolding store_rep_def dict_rep_def paths_abs by simp
  then have upd: "a_update (a_path (abs_file n)) g (abs_files s us @ abs_file n # abs_files s vs) =
      abs_files s us @ g (abs_file n) # abs_files s vs"
    by (rule a_update_split(1))
  then have files: "abs_files ?s' (us @ a # vs) = a_update (pathname n) g (f_files fs)"
    using n abs by (simp add: fr fs abs_store_def)
  have dl: "dll (heap s) NULL (us @ a # vs) NULL" using rep by (simp add: store_rep_def list_rep_def)
  have "list_rep ?s' (us @ a # vs)"
    using rep dll_update [OF dl n links] by (simp add: store_rep_def list_rep_def)
  moreover have "dict_rep ?s' (us @ a # vs)"
  proof -
    have paths: "pathname (node_at ?s' b) = pathname (node_at s b)" for b using n path by simp
    show ?thesis using rep by (simp only: store_rep_def dict_rep_def paths) simp
  qed
  moreover have "count_rep ?s' (us @ a # vs)"
  proof -
    have "total_size (abs_files ?s' (us @ a # vs)) = k"
      by (simp only: files k [symmetric])
    then show ?thesis using rep room unfolding store_rep_def count_rep_def by (simp add: fs abs_store_def)
  qed
  moreover have "\<forall>b \<in> set (us @ a # vs). node_ok (node_at ?s' b)"
    using rep nok by (auto simp: store_rep_def)
  ultimately have "store_rep ?s' (us @ a # vs)" using rep by (simp add: store_rep_def)
  moreover have "\<forall>b \<in> set (us @ a # vs). quiet (node_at ?s' b)"
    using idle busy quiet by auto
  moreover have "abs_store ?s' (us @ a # vs) = upd (pathname n) g fs"
    using files unfolding abs_store_def upd_def by (simp add: fs abs_store_def)
  ultimately show ?thesis by (simp add: sim_busy_def)
qed

lemma sim_top:
  "sim_busy busy s xs fs \<Longrightarrow> sim_busy busy (s\<lparr>maxReachedStorageSize := v\<rparr>) xs (fs\<lparr>f_topSize := v\<rparr>)"
  by (auto simp: sim_busy_def abs_store_def)

lemma appended:
  assumes "node_ok n" and "file_data n \<noteq> [NUL]" and "len \<le> length buf"
  obtains packed where
    "appended_content n buf len = Some (packed, length (rle_spec (file_data n @ take len buf)))"
    and "RLEcompress (file_data n @ take len buf) (length (file_data n @ take len buf)) =
      Some (packed, length (rle_spec (file_data n @ take len buf)))"
proof -
  let ?d = "file_data n @ take len buf"
  obtain packed where packed: "RLEcompress ?d (length ?d) = Some (packed, length (rle_spec ?d))"
    using RLEcompress_spec [of ?d] by blast
  have us: "uncompressedSize n = length (file_data n)"
    using assms(1) by (simp add: node_ok_def content_ok_def)
  have "memcpy (file_data n @ calloc len) (length (file_data n)) (take len buf) = Some ?d"
    using memcpy_calloc [of "take len buf" len "file_data n"] assms(3) by (simp add: calloc_def)
  then have "appended_content n buf len = RLEcompress ?d (length (file_data n) + len)"
    using file_ok_decode [OF assms(1,2), of len] assms(3) us by (simp add: appended_content_def)
  moreover have "length (file_data n) + len = length ?d" using assms(3) by simp
  ultimately show ?thesis using that packed by simp
qed

lemma compressed_node_ok:
  assumes "RLEcompress d (length d) = Some (packed, length (rle_spec d))"
    and "content n = packed" and "uncompressedSize n = length d" and "contentSize n = length (rle_spec d)"
  shows "node_ok n" and "file_data n = d"
proof -
  show d: "file_data n = d"
  proof (cases "d = [NUL]")
    case True
    then have "packed = [NUL, NUL]" and "contentSize n = 1"
      using single_NUL [of 0] assms(1,4) by simp_all
    then show ?thesis using single_NUL [of 0] True assms(2,3) by (simp add: file_data_def)
  next
    case False
    then show ?thesis using rle.dec_enc_exact [OF assms(1) False] assms(2-4) by (simp add: file_data_def)
  qed
  show "node_ok n" unfolding node_ok_def content_ok_def d using assms by simp
qed

section \<open>writeToFileHandler\<close>

lemma paths_update: "(\<And>f. a_path (g f) = a_path f) \<Longrightarrow> map a_path (a_update p g fs) = map a_path fs"
  by (induction fs) simp_all

lemma total_size_same: "(\<And>f. a_data (g f) = a_data f) \<Longrightarrow> total_size (a_update p g fs) = total_size fs"
  by (induction fs) (simp_all add: csize_def)

lemma length_update [simp]: "length (a_update p g fs) = length fs"
  by (simp add: a_update_def)

lemma fs_ok_upd:
  assumes "fs_ok fs" and "\<And>f. a_path (g f) = a_path f"
    and "\<And>f. f \<in> set (f_files fs) \<Longrightarrow> a_path f = p \<Longrightarrow> file_ok f \<Longrightarrow> file_ok (g f)"
    and "total_size (a_update p g (f_files fs)) \<le> f_maxSize fs"
  shows "fs_ok (upd p g fs)"
proof -
  have "\<forall>f \<in> set (a_update p g (f_files fs)). file_ok f"
    using assms(1,3) by (auto simp: fs_ok_def a_update_def)
  then show ?thesis
    using assms(1,4) paths_update [of g p "f_files fs", OF assms(2)] by (simp add: fs_ok_def upd_def)
qed

lemma fs_ok_upd_same:
  assumes "fs_ok fs" and "\<And>f. a_path (g f) = a_path f" and "\<And>f. a_data (g f) = a_data f"
    and "\<And>f. f \<in> set (f_files fs) \<Longrightarrow> a_path f = p \<Longrightarrow> file_ok f \<Longrightarrow> file_ok (g f)"
  shows "fs_ok (upd p g fs)"
proof (rule fs_ok_upd [OF assms(1,2,4)])
  show "total_size (a_update p g (f_files fs)) \<le> f_maxSize fs"
    using assms(1) total_size_same [of g p "f_files fs", OF assms(3)] by (simp add: fs_ok_def)
qed

lemma fs_ok_upd_touch: "fs_ok fs \<Longrightarrow> fs_ok (upd path (touch env) fs)"
  by (rule fs_ok_upd_same) (simp_all add: touch_def file_ok_def)

text \<open>The file that is written to survives the evictions and the reset.\<close>

lemma spec_evict_keeps:
  assumes "spec_evict env path need requestor fs notify evs = (fs', notify', evs')"
  shows "a_lookup (f_files fs') path = a_lookup (f_files fs) path" and "f_maxSize fs' = f_maxSize fs"
    and "fs_ok fs \<Longrightarrow> fs_ok fs'"
    and "need \<le> f_maxSize fs \<Longrightarrow> total_size (a_remove path (f_files fs')) + need \<le> f_maxSize fs"
proof -
  have "a_lookup (f_files fs') path = a_lookup (f_files fs) path \<and> f_maxSize fs' = f_maxSize fs \<and>
      (fs_ok fs \<longrightarrow> fs_ok fs') \<and>
      (need \<le> f_maxSize fs \<longrightarrow> total_size (a_remove path (f_files fs')) + need \<le> f_maxSize fs)"
    using assms
  proof (induction env path need requestor fs notify evs rule: spec_evict.induct)
    case (1 env path need requestor fs notify evs)
    show ?case
    proof (cases "f_maxSize fs < total_size (a_remove path (f_files fs)) + need")
      case False
      then show ?thesis using "1.prems" by (subst (asm) spec_evict.simps) simp
    next
      case True
      show ?thesis
      proof (cases "a_victim (f_algo fs) (Some path) (f_files fs)")
        case None
        then have "a_remove path (f_files fs) = []"
          by (auto simp: a_victim_None a_remove_def filter_empty_conv)
        then show ?thesis using "1.prems" True None by (subst (asm) spec_evict.simps) simp
      next
        case (Some v)
        have "a_path v \<noteq> path" using a_victim_in [OF Some] by simp
        let ?fs1 = "logged env ''EVICTED'' (a_path v) 0 requestor 0
          (fs\<lparr>f_files := a_remove (a_path v) (f_files fs), f_victims := size_add (f_victims fs) 1\<rparr>)"
        have "spec_evict env path need requestor ?fs1 (notify @ a_wait v) (v\<lparr>a_open := []\<rparr> # evs) = (fs', notify', evs')"
          using "1.prems" True Some by (subst (asm) spec_evict.simps) simp
        note ih = "1.IH" [OF True Some this]
        have "fs_ok fs \<longrightarrow> fs_ok ?fs1" using fs_ok_remove [of fs "a_path v"] by simp
        then show ?thesis using ih \<open>a_path v \<noteq> path\<close> by (simp add: a_lookup_remove)
      qed
    qed
  qed
  then show "a_lookup (f_files fs') path = a_lookup (f_files fs) path" and "f_maxSize fs' = f_maxSize fs"
    and "fs_ok fs \<Longrightarrow> fs_ok fs'"
    and "need \<le> f_maxSize fs \<Longrightarrow> total_size (a_remove path (f_files fs')) + need \<le> f_maxSize fs"
    by blast+
qed

lemma writeToFile_enter_refines:
  assumes sim: "sim s xs fs" and req: "request_ok env path requestor" and good: "\<not> bad_input path requestor"
    and f: "a_lookup (f_files fs) path = Some f" and gr: "granted f requestor"
  obtains us a vs n where "xs = us @ a # vs" and "a \<noteq> NULL" and "node_ok n" and "quiet n" and "heap s a = Some n"
    and "pathname n = path" and "abs_file n = f"
    and "writeToFile_enter env s path requestor =
      Some (Inr a, s\<lparr>heap := (heap s)(a \<mapsto> update_cache_bits env (n\<lparr>isBeingWritten := True\<rparr>))\<rparr>)"
    and "sim_busy {a} (s\<lparr>heap := (heap s)(a \<mapsto> update_cache_bits env (n\<lparr>isBeingWritten := True\<rparr>))\<rparr>) xs
      (upd path (touch env) fs)"
proof (cases rule: sim_find [OF sim, of path])
  case 1
  then show ?thesis using good by (simp add: bad_input_def)
next
  case 2
  then show ?thesis using f by simp
next
  case (3 us a vs n)
  have nok: "node_ok n" and qn: "quiet n" using 3(7) by simp_all
  have fn: "f = abs_file n" using f 3(9) by simp
  let ?n1 = "update_cache_bits env (n\<lparr>isBeingWritten := True\<rparr>)"
  have "node_ok ?n1" using nok by (subst node_ok_cong(1) [of _ n]) simp_all
  moreover have "abs_file ?n1 = touch env (abs_file n)" by (simp add: abs_touch)
  ultimately have "sim_busy {a} (s\<lparr>heap := (heap s)(a \<mapsto> ?n1)\<rparr>) (us @ a # vs) (upd (pathname n) (touch env) fs)"
    using 3 sim by (intro sim_update [where n = n and busy = "{}"]) simp_all
  moreover have "writeToFile_enter env s path requestor = Some (Inr a, s\<lparr>heap := (heap s)(a \<mapsto> ?n1)\<rparr>)"
    using 3(2,5) gr fn quiet_simps [OF qn]
    by (simp add: writeToFile_enter_def access_denied_granted modify_def)
  ultimately show ?thesis using that [of us a vs n] 3 nok qn fn by simp
qed

lemma upd_id: "upd p (\<lambda>f. f) fs = fs"
  by (simp add: upd_def a_update_def)

text \<open>The code after the eviction: the file takes its new content and is released.\<close>

definition finish_write :: "env \<Rightarrow> CacheStorage \<Rightarrow> ptr \<Rightarrow> cstring \<Rightarrow> buffer \<Rightarrow> nat \<Rightarrow> nat \<Rightarrow> fd \<Rightarrow> CacheStorage option" where
  "finish_write env s a path packed need len requestor = do {
     s \<leftarrow> store_content s a packed need len;
     s \<leftarrow> logEvent env ''WRITE'' path 0 requestor len s;
     s \<leftarrow> modify s a (\<lambda>n. n\<lparr>canDoFirstWrite := 0\<rparr>);
     write_leave s a
   }"

lemma finish_write_refines:
  assumes sim: "sim_busy {a} s xs fs" and a: "a \<in> set xs" and ok: "fs_ok fs" and path: "pathname (node_at s a) = path"
    and act: "activeReaders (node_at s a) = 0" and req: "request_ok env path requestor"
    and packed: "RLEcompress d (length d) = Some (packed, need)" and d: "d = file_data (node_at s a) @ new"
    and len: "length new < 2 ^ 60" and need: "need \<le> f_maxSize fs"
    and room: "total_size (a_remove path (f_files fs)) + need \<le> f_maxSize fs"
  shows "\<exists>s'. finish_write env s a path packed need (length new) requestor = Some s' \<and>
    sim s' xs (upd path (\<lambda>f. f\<lparr>a_first := 0\<rparr>)
      (logged env ''WRITE'' path 0 requestor (length new) (spec_store path new fs))) \<and>
    (\<forall>b. b \<noteq> a \<longrightarrow> heap s' b = heap s b)"
proof -
  have rep: "store_rep s xs" using sim by (simp add: sim_busy_def)
  obtain us vs where xs: "xs = us @ a # vs" using a by (meson split_list)
  obtain n where an: "a \<noteq> NULL" and n: "heap s a = Some n" and nok: "node_ok n"
    using store_rep_node [OF rep a] by blast
  have pn: "pathname n = path" and act_n: "activeReaders n = 0" and dn: "d = file_data n @ new"
    using path act d n by simp_all
  have need_eq: "need = length (rle_spec d)" using packed RLEcompress_spec [of d] by simp
  have us: "uncompressedSize n = length (file_data n)" using nok by (simp add: node_ok_def content_ok_def)
  have cs: "contentSize n = csize (abs_file n)" using node_ok_csize [OF nok] .
  have look: "a_lookup (f_files fs) path = Some (abs_file n)"
  proof -
    have "abs_file n \<in> set (f_files fs)" using imageI [OF a, of "\<lambda>a. abs_file (node_at s a)"] n sim_counts(7) [OF sim]
      by (simp add: abs_files_def)
    then show ?thesis using ok pn a_lookup_iff [of "f_files fs"] by (simp add: fs_ok_def)
  qed
  let ?g = "\<lambda>f. f\<lparr>a_data := a_data f @ new, a_first := 0\<rparr>"
  let ?g1 = "\<lambda>f. f\<lparr>a_data := a_data f @ new\<rparr>"
  define k where "k = total_size (a_update path ?g (f_files fs))"
  have dist: "distinct (map a_path (f_files fs))" using ok by (simp add: fs_ok_def)
  have k1: "k = total_size (a_remove path (f_files fs)) + need"
    unfolding k_def using total_size_update [OF dist look, of ?g] pn
    by (simp add: csize_def need_eq dn)
  have k2: "total_size (a_update path ?g1 (f_files fs)) = k"
    using total_size_update [OF dist look, of ?g1] pn k1 by (simp add: csize_def need_eq dn)
  have test: "size_add (size_sub (currStorageSize s) (contentSize n)) need = k"
    using room_test [OF sim ok a need] n pn k1 by simp
  have small: "size_add (uncompressedSize n) (length new) = length d"
  proof -
    have "csize (abs_file n) \<le> f_maxSize fs" "f_maxSize fs < 2 ^ 60"
      using total_size_split [OF dist look] ok by (simp_all add: fs_ok_def)
    moreover have "length (file_data n) \<le> 3 * csize (abs_file n)"
      using length_rle_spec_lower [of "file_data n"] by (simp add: csize_def)
    ultimately show ?thesis using us len by (subst size_add_small) (simp_all add: size_max_def dn)
  qed
  let ?n' = "n\<lparr>content := packed, uncompressedSize := length d, contentSize := need, canDoFirstWrite := 0, isBeingWritten := False\<rparr>"
  have n': "node_ok ?n'" "file_data ?n' = d"
    by (rule compressed_node_ok [of d packed]; use packed need_eq in simp)+
  have abs': "abs_file ?n' = ?g (abs_file n)"
    unfolding abs_file_def n'(2) by (simp add: dn)
  have quiet': "quiet ?n'" using act_n by (simp add: quiet_def)
  define m where "m = max (maxReachedStorageSize s) k"
  let ?s1 = "s\<lparr>currStorageSize := k, heap := (heap s)(a \<mapsto> ?n')\<rparr>"
  let ?s' = "?s1\<lparr>maxReachedStorageSize := m, logBuffer := entry env (logBuffer s) ''WRITE'' path 0 requestor (length new)\<rparr>"
  have "sim ?s1 (us @ a # vs) (upd (pathname n) ?g fs)"
    by (rule sim_resize [where busy = "{a}", OF sim [unfolded xs] n])
      (use n'(1) abs' quiet' k1 room pn in \<open>simp_all add: k_def\<close>)
  then have sim': "sim ?s' xs (logged env ''WRITE'' path 0 requestor (length new) ((upd path ?g fs)\<lparr>f_topSize := m\<rparr>))"
    using sim_log [OF sim_top [of "{}" ?s1 xs "upd path ?g fs" m], of env "''WRITE''" path 0 requestor "length new"] pn xs
    by simp
  have fs': "logged env ''WRITE'' path 0 requestor (length new) ((upd path ?g fs)\<lparr>f_topSize := m\<rparr>) =
      upd path (\<lambda>f. f\<lparr>a_first := 0\<rparr>) (logged env ''WRITE'' path 0 requestor (length new) (spec_store path new fs))"
  proof -
    have up: "a_update path (\<lambda>f. f\<lparr>a_first := 0\<rparr>) (a_update path ?g1 (f_files fs)) = a_update path ?g (f_files fs)"
      by (simp add: a_update_def)
    have "max (f_topSize fs) k = m"
      using sim by (auto simp: sim_busy_def abs_store_def m_def)
    then show ?thesis using k2 up
      by (cases fs) (simp add: upd_def logged_def spec_store_def Let_def)
  qed
  let ?n1 = "n\<lparr>content := packed, uncompressedSize := length d, contentSize := need\<rparr>"
  have st: "store_content s a packed need (length new) =
      Some (s\<lparr>currStorageSize := k, maxReachedStorageSize := m, heap := (heap s)(a \<mapsto> ?n1)\<rparr>)"
    using an n test small by (simp add: store_content_def deref_def modify_def Let_def m_def max_def)
  have req_log: "logEvent env ''WRITE'' path 0 requestor (length new) t =
      Some (t\<lparr>logBuffer := entry env (logBuffer t) ''WRITE'' path 0 requestor (length new)\<rparr>)" for t
    using len by (intro log_request [OF req]) simp_all
  have "finish_write env s a path packed need (length new) requestor = Some ?s'"
    using an by (simp add: finish_write_def st req_log write_leave_def modify_def deref_def)
  then show ?thesis using sim' fs' by auto
qed

lemma writeToFile_denied:
  assumes sim: "sim s xs fs" and req: "request_ok env path requestor" and good: "\<not> bad_input path requestor"
    and r: "a_lookup (f_files fs) path = None \<and> e = ENOENT \<or>
      (\<exists>f. a_lookup (f_files fs) path = Some f \<and> \<not> granted f requestor \<and> e = EACCES)"
  shows "\<exists>s'. writeToFileHandler env s path buf len [] NULL requestor = Some (Inl e, [], NULL, s') \<and>
    sim s' xs (logged env ''WRITE'' path (errno_value e) requestor 0 fs)"
proof -
  let ?s' = "s\<lparr>logBuffer := entry env (logBuffer s) ''WRITE'' path (errno_value e) requestor 0\<rparr>"
  have "writeToFile_enter env s path requestor = Some (Inl e, ?s')"
  proof (cases rule: sim_find [OF sim, of path])
    case 1
    then show ?thesis using good by (simp add: bad_input_def)
  next
    case 2
    then have "e = ENOENT" using r by simp
    then show ?thesis using 2(2) by (simp add: writeToFile_enter_def log_request_error [OF req])
  next
    case (3 us a vs n)
    then have e: "e = EACCES" and "\<not> granted (abs_file n) requestor" using r by auto
    then show ?thesis using 3(2,5) quiet_simps [of n] 3(7)
      by (simp add: writeToFile_enter_def access_denied_granted log_request_error [OF req])
  qed
  then show ?thesis using good sim_log [OF sim] by (auto simp: writeToFileHandler_def)
qed

lemma evicted_rep_Nil: "evicted_rep s NULL [] [] \<and> set [] \<inter> set xs = {}"
  by (simp add: evicted_rep_def)

lemma fs_ok_reset: "fs_ok fs \<Longrightarrow> fs_ok (fs\<lparr>f_files := a_reset (f_files fs)\<rparr>)"
  by (auto simp: fs_ok_def a_reset_def comp_def file_ok_def total_size_reset [unfolded a_reset_def])

lemma a_remove_reset: "a_remove p (a_reset fs) = a_reset (a_remove p fs)"
  by (induction fs) (simp_all add: a_reset_def)

text \<open>The work between entering and leaving, when the new content can never fit and when it can.\<close>

lemma write_too_big:
  assumes sim: "sim_busy {a} s (us @ a # vs) fs" and n: "heap s a = Some n" "a \<noteq> NULL" "node_ok n" "activeReaders n = 0"
    and dn: "file_data n \<noteq> [NUL]" and req: "request_ok env path requestor" and len: "len \<le> length buf"
    and big: "f_maxSize fs < length (rle_spec (file_data n @ take len buf))"
  shows "\<exists>t s'. writeToFile_body env s a path buf len [] NULL requestor = Some (Inl E2BIG, [], NULL, t) \<and>
    write_leave t a = Some s' \<and> sim s' (us @ a # vs) (logged env ''WRITE'' path (errno_value E2BIG) requestor 0 fs)"
proof -
  let ?need = "length (rle_spec (file_data n @ take len buf))"
  let ?t = "s\<lparr>logBuffer := entry env (logBuffer s) ''WRITE'' path (errno_value E2BIG) requestor 0\<rparr>"
  let ?n' = "n\<lparr>isBeingWritten := False\<rparr>"
  let ?s' = "?t\<lparr>heap := (heap ?t)(a \<mapsto> ?n')\<rparr>"
  have d: "deref s a = Some n" using n by (simp add: deref_def)
  obtain packed where app: "appended_content n buf len = Some (packed, ?need)"
    using appended [OF n(3) dn len] by metis
  have "maxStorageSize s < ?need" using big sim_counts(4) [OF sim] by simp
  then have body: "writeToFile_body env s a path buf len [] NULL requestor = Some (Inl E2BIG, [], NULL, ?t)"
    using d app by (simp add: writeToFile_body_def log_request_error [OF req])
  have "node_ok ?n'" using n(3) by (subst node_ok_cong(1) [of _ n]) simp_all
  moreover have "quiet ?n'" using n(4) by (simp add: quiet_def)
  ultimately have "sim ?s' (us @ a # vs) (upd (pathname n) (\<lambda>f. f) (logged env ''WRITE'' path (errno_value E2BIG) requestor 0 fs))"
    using n by (intro sim_update [OF sim_log [OF sim]]) simp_all
  moreover have "write_leave ?t a = Some ?s'" using n by (simp add: write_leave_def modify_def deref_def)
  ultimately show ?thesis using body unfolding upd_id by blast
qed

lemma write_fits:
  assumes sim: "sim_busy {a} s xs fs" and a: "a \<in> set xs" and ok: "fs_ok fs"
    and n: "heap s a = Some n" "a \<noteq> NULL" "node_ok n" "activeReaders n = 0" "pathname n = path"
    and dn: "file_data n \<noteq> [NUL]" and req: "request_ok env path requestor" and len: "len \<le> length buf" "len < 2 ^ 60"
    and fits: "length (rle_spec (file_data n @ take len buf)) \<le> f_maxSize fs"
    and ev: "spec_evict env path (length (rle_spec (file_data n @ take len buf))) requestor fs [] [] = (fs2, notify, evs)"
  shows "\<exists>t s' xs' ep es. writeToFile_body env s a path buf len [] NULL requestor = Some (Inr 0, notify, ep, t) \<and>
    write_leave t a = Some s' \<and> evicted_rep s' ep es evs \<and> set es \<inter> set xs' = {} \<and>
    sim s' xs' (upd path (\<lambda>f. f\<lparr>a_first := 0\<rparr>) (logged env ''WRITE'' path 0 requestor len
      (spec_store path (take len buf) (fs2\<lparr>f_files := a_reset (f_files fs2)\<rparr>))))"
proof -
  let ?new = "take len buf" and ?fs3 = "fs2\<lparr>f_files := a_reset (f_files fs2)\<rparr>"
  let ?d = "file_data n @ ?new"
  let ?need = "length (rle_spec ?d)"
  have d: "deref s a = Some n" and path1: "pathname (node_at s a) = path" using n by (simp_all add: deref_def)
  obtain packed where app: "appended_content n buf len = Some (packed, ?need)"
    and packed: "RLEcompress ?d (length ?d) = Some (packed, ?need)"
    using appended [OF n(3) dn len(1)] by metis
  have ev0: "evicted_rep s NULL [] []" and disj0: "set [] \<inter> set xs = {}" by (simp_all add: evicted_rep_def)
  obtain s2 xs2 ep es where loop: "evict_loop env a ?need requestor s [] NULL = Some (s2, notify, ep)"
    and sim2: "sim_busy {a} s2 xs2 fs2" and a2: "a \<in> set xs2"
    and abs2: "abs_file (node_at s2 a) = abs_file (node_at s a)" and act2: "activity (node_at s2 a) = activity (node_at s a)"
    and es: "evicted_rep s2 ep es evs" and disj: "set es \<inter> set xs2 = {}"
    using evict_loop_refines [OF sim a path1 ok fits ev0 disj0 req ev] by blast
  obtain s3 where reset: "reset_refs s2 (hPtr s2) = Some s3" and sim3: "sim_busy {a} s3 xs2 ?fs3"
    and fr3: "\<And>b. b \<notin> set xs2 \<Longrightarrow> heap s3 b = heap s2 b"
    and nd3: "\<And>b. b \<in> set xs2 \<Longrightarrow> \<exists>r. node_at s3 b = (node_at s2 b)\<lparr>refCount := r\<rparr>"
    by (rule sim_reset [OF sim2]) (rule that)
  obtain k where k: "node_at s3 a = (node_at s2 a)\<lparr>refCount := k\<rparr>" using nd3 [OF a2] by blast
  have path3: "pathname (node_at s3 a) = path"
    using k abs_file_sel(1) [of "node_at s2 a"] abs_file_sel(1) [of "node_at s a"] abs2 path1 by simp
  have act3: "activeReaders (node_at s3 a) = 0" using k act2 n by (simp add: activity_def)
  have data3: "?d = file_data (node_at s3 a) @ ?new" using k abs2 n(1) by (auto simp: abs_file_def file_data_def)
  have ok3: "fs_ok ?fs3" using fs_ok_reset [OF spec_evict_keeps(3) [OF ev ok]] .
  have max2: "f_maxSize ?fs3 = f_maxSize fs" using spec_evict_keeps(2) [OF ev] by simp
  have room3: "total_size (a_remove path (f_files ?fs3)) + ?need \<le> f_maxSize ?fs3"
    using spec_evict_keeps(4) [OF ev fits] max2 by (simp add: a_remove_reset)
  have need3: "?need \<le> f_maxSize ?fs3" and len_new: "length ?new = len" and new: "length ?new < 2 ^ 60"
    using fits max2 len by simp_all
  obtain s4 where fin: "finish_write env s3 a path packed ?need (length ?new) requestor = Some s4"
    and sim4: "sim s4 xs2 (upd path (\<lambda>f. f\<lparr>a_first := 0\<rparr>) (logged env ''WRITE'' path 0 requestor len (spec_store path ?new ?fs3)))"
    and fr4: "\<forall>b. b \<noteq> a \<longrightarrow> heap s4 b = heap s3 b"
    using finish_write_refines [OF sim3 a2 ok3 path3 act3 req packed data3 new need3 room3] unfolding len_new by blast
  obtain t1 t2 t3 where t: "store_content s3 a packed ?need len = Some t1"
    "logEvent env ''WRITE'' path 0 requestor len t1 = Some t2"
    "modify t2 a (\<lambda>n. n\<lparr>canDoFirstWrite := 0\<rparr>) = Some t3" "write_leave t3 a = Some s4"
    using fin unfolding finish_write_def len_new by (auto simp: bind_eq_Some_conv)
  have "\<not> maxStorageSize s < ?need" using sim_counts(4) [OF sim] fits by simp
  then have "writeToFile_body env s a path buf len [] NULL requestor = Some (Inr 0, notify, ep, t3)"
    using d app loop reset t(1-3) by (simp add: writeToFile_body_def)
  moreover have "evicted_rep s4 ep es evs"
  proof (rule evicted_rep_frame [OF es])
    fix e assume "e \<in> set es"
    then have "e \<notin> set xs2" and "e \<noteq> a" using disj a2 by auto
    then show "heap s4 e = heap s2 e" using fr3 fr4 by simp
  qed
  ultimately show ?thesis using t(4) sim4 disj by blast
qed

lemma writeToFile_refines:
  assumes sim: "sim s xs fs" and ok: "fs_ok fs" and req: "request_ok env path requestor"
    and len: "len \<le> length buf" "len < 2 ^ 60"
    and spec: "spec_write env fs path (take len buf) requestor = (r, notify, evs, fs')"
  shows "\<exists>s' xs' ep es. writeToFileHandler env s path buf len [] NULL requestor = Some (r, notify, ep, s') \<and>
    sim s' xs' fs' \<and> evicted_rep s' ep es evs \<and> set es \<inter> set xs' = {}"
proof (cases "bad_input path requestor")
  case True
  then show ?thesis using sim spec
    by (intro exI [of _ s] exI [of _ xs] exI [of _ NULL] exI [of _ "[]"])
      (auto simp: writeToFileHandler_def spec_write_def evicted_rep_def)
next
  case good: False
  show ?thesis
  proof (cases "\<exists>f. a_lookup (f_files fs) path = Some f \<and> granted f requestor")
    case False
    define e where "e = (if a_lookup (f_files fs) path = None then ENOENT else EACCES)"
    have r: "a_lookup (f_files fs) path = None \<and> e = ENOENT \<or>
      (\<exists>f. a_lookup (f_files fs) path = Some f \<and> \<not> granted f requestor \<and> e = EACCES)"
      using False by (auto simp: e_def)
    have res: "r = Inl e \<and> notify = [] \<and> evs = [] \<and> fs' = logged env ''WRITE'' path (errno_value e) requestor 0 fs"
      using r good spec by (auto simp: spec_write_def)
    obtain s' where "writeToFileHandler env s path buf len [] NULL requestor = Some (Inl e, [], NULL, s')"
      "sim s' xs (logged env ''WRITE'' path (errno_value e) requestor 0 fs)"
      using writeToFile_denied [OF sim req good r, of buf len] by blast
    then show ?thesis using res evicted_rep_Nil [of s' xs]
      by (intro exI [of _ s'] exI [of _ xs] exI [of _ NULL] exI [of _ "[]"]) simp
  next
    case True
    then obtain f where f: "a_lookup (f_files fs) path = Some f" and gr: "granted f requestor" by blast
    obtain us a vs n where xs: "xs = us @ a # vs" and an: "a \<noteq> NULL" and nok: "node_ok n" and qn: "quiet n"
      and n: "heap s a = Some n" and pn: "pathname n = path" and abs: "abs_file n = f"
      and enter: "writeToFile_enter env s path requestor =
        Some (Inr a, s\<lparr>heap := (heap s)(a \<mapsto> update_cache_bits env (n\<lparr>isBeingWritten := True\<rparr>))\<rparr>)"
      and sim1: "sim_busy {a} (s\<lparr>heap := (heap s)(a \<mapsto> update_cache_bits env (n\<lparr>isBeingWritten := True\<rparr>))\<rparr>) xs
        (upd path (touch env) fs)"
      by (rule writeToFile_enter_refines [OF sim req good f gr]) (rule that)
    let ?n = "update_cache_bits env (n\<lparr>isBeingWritten := True\<rparr>)" and ?fs = "upd path (touch env) fs"
    let ?s = "s\<lparr>heap := (heap s)(a \<mapsto> ?n)\<rparr>"
    have nok1: "node_ok ?n" using nok by (subst node_ok_cong(1) [of _ n]) simp_all
    have n1: "heap ?s a = Some ?n" "node_ok ?n" "activeReaders ?n = 0" "pathname ?n = path" "file_data ?n = a_data f"
      using nok1 qn pn abs by (auto simp: quiet_def abs_file_def file_data_def)
    have dn: "file_data ?n \<noteq> [NUL]"
      using ok a_lookup_in [OF f] unfolding n1(5) by (auto simp: fs_ok_def file_ok_def)
    have max: "f_maxSize ?fs = f_maxSize fs" by (simp add: upd_def)
    show ?thesis
    proof (cases "f_maxSize fs < length (rle_spec (a_data f @ take len buf))")
      case big: True
      obtain t s' where w: "writeToFile_body env ?s a path buf len [] NULL requestor = Some (Inl E2BIG, [], NULL, t)"
        "write_leave t a = Some s'" "sim s' xs (logged env ''WRITE'' path (errno_value E2BIG) requestor 0 ?fs)"
        using write_too_big [OF sim1 [unfolded xs] n1(1) an n1(2,3) dn req len(1)] big unfolding max n1(5) xs by blast
      moreover have "r = Inl E2BIG \<and> notify = [] \<and> evs = [] \<and> fs' = logged env ''WRITE'' path (errno_value E2BIG) requestor 0 ?fs"
        using spec good f gr big max by (simp add: spec_write_def Let_def)
      ultimately show ?thesis using good enter evicted_rep_Nil [of s' xs]
        by (intro exI [of _ s'] exI [of _ xs] exI [of _ NULL] exI [of _ "[]"]) (simp add: writeToFileHandler_def)
    next
      case False
      obtain fs2 where ev: "spec_evict env path (length (rle_spec (a_data f @ take len buf))) requestor ?fs [] [] = (fs2, notify, evs)"
        and r: "r = Inr 0" and fs': "fs' = upd path (\<lambda>f. f\<lparr>a_first := 0\<rparr>)
          (logged env ''WRITE'' path 0 requestor len (spec_store path (take len buf) (fs2\<lparr>f_files := a_reset (f_files fs2)\<rparr>)))"
        using spec good f gr False max len(1) by (auto simp: spec_write_def Let_def split: prod.splits)
      have ax: "a \<in> set xs" and fits: "length (rle_spec (a_data f @ take len buf)) \<le> f_maxSize ?fs" using xs False max by simp_all
      obtain t s' xs' ep es where "writeToFile_body env ?s a path buf len [] NULL requestor = Some (Inr 0, notify, ep, t)"
        "write_leave t a = Some s'" and w: "evicted_rep s' ep es evs" "set es \<inter> set xs' = {}" "sim s' xs' fs'"
        using write_fits [OF sim1 ax fs_ok_upd_touch [OF ok] n1(1) an n1(2-4) dn req len, unfolded n1(5), OF fits ev]
        unfolding fs' by blast
      then have "writeToFileHandler env s path buf len [] NULL requestor = Some (r, notify, ep, s')"
        using good enter r by (simp add: writeToFileHandler_def)
      then show ?thesis using w by blast
    qed
  qed
qed

end
