(* ===== verification/ReadNFiles.thy ===== *)
theory ReadNFiles
  imports RefinementWrite
begin

text \<open>
  \<open>readNFilesHandler\<close> builds its whole response in one growing buffer. The lemmas say exactly when
  that works: the response is the serialisation of the first files, except that the terminator
  that \<open>sprintf\<close> writes lands one byte past the initial buffer when the files so far fill it
  exactly and the last of them is empty.
\<close>

section \<open>When the initial buffer overflows\<close>

fun overflows :: "nat \<Rightarrow> afile list \<Rightarrow> bool" where
  "overflows k [] = False"
| "overflows k (f # fs) =
     (let k' = k + length (serialize f) in
      k' \<le> INITIALBUFSIZ \<and> (k' = INITIALBUFSIZ \<and> a_data f = [] \<or> overflows k' fs))"

definition transmissible :: "afile \<Rightarrow> bool" where
  "transmissible f \<longleftrightarrow> length (a_path f) < 10 ^ 10 \<and> length (a_data f) < 10 ^ 10 \<and> a_data f \<noteq> [NUL]"

lemma length_serialize:
  "transmissible f \<Longrightarrow> length (serialize f) = 20 + length (a_path f) + length (a_data f)"
  by (simp add: serialize_def transmissible_def length_pad10)

text \<open>The files that are still to be sent when \<open>c\<close> have been.\<close>

definition rest_files :: "int \<Rightarrow> nat \<Rightarrow> afile list \<Rightarrow> afile list" where
  "rest_files upperLimit c fs = (if upperLimit \<le> 0 then fs else take (nat upperLimit - c) fs)"

section \<open>One file\<close>

text \<open>Writing a header and a content into a block that has room for both and for the terminator.\<close>

lemma write_file:
  assumes ret: "ret = resp @ slack" and cur: "cur = length resp"
    and room: "cur + length hdr + 1 \<le> length ret" "cur + length hdr + length d \<le> length ret"
  obtains ret1 ret2 where "memcpy ret cur (hdr @ [NUL]) = Some ret1"
    and "memcpy ret1 (cur + length hdr) d = Some ret2" and "length ret2 = length ret"
    and "take (cur + length hdr + length d) ret2 = resp @ hdr @ d"
proof -
  let ?r1 = "resp @ hdr @ NUL # drop (length hdr + 1) slack"
  have 1: "memcpy ret cur (hdr @ [NUL]) = Some ?r1"
    using room by (simp add: memcpy_def ret cur)
  have l1: "length ?r1 = length ret" using room by (simp add: ret cur)
  let ?r2 = "take (cur + length hdr) ?r1 @ d @ drop (cur + length hdr + length d) ?r1"
  have 2: "memcpy ?r1 (cur + length hdr) d = Some ?r2"
    using room(2) l1 unfolding memcpy_def by simp
  have t: "take (cur + length hdr) ?r1 = resp @ hdr" by (simp add: cur)
  have "length ?r2 = length ret" using room(2) l1 by (simp only: t) (simp add: cur)
  moreover have "take (cur + length hdr + length d) ?r2 = resp @ hdr @ d"
    unfolding t by (simp add: cur)
  ultimately show ?thesis using that 1 2 by blast
qed

lemma loop_step:
  assumes rep: "store_rep s (us @ v # vs)" and n: "heap s v = Some n" and tr: "transmissible (abs_file n)"
    and go: "int c \<noteq> upperLimit \<or> upperLimit \<le> 0" and mem: "buffers_ok env"
    and new: "new = cur + length (serialize (abs_file n))"
    and grow: "ret' = (if retMax < new then realloc_block (junk env) ret (2 * new) else ret)"
      "retMax' = (if retMax < new then 2 * retMax else retMax)"
  shows "read_n_loop env s upperLimit (first_of (v # vs) NULL) c ret retMax cur = do {
     ret1 \<leftarrow> memcpy ret' cur (pad10 (length (pathname n)) @ pathname n @ pad10 (length (file_data n)) @ [NUL]);
     ret2 \<leftarrow> memcpy ret1 (new - length (file_data n)) (file_data n);
     read_n_loop env s upperLimit (first_of vs NULL) (c + 1) ret2 retMax' new
   }"
proof -
  have nok: "node_ok n" and vn: "v \<noteq> NULL" using store_rep_node [OF rep, of v] n by auto
  have d: "file_data n \<noteq> [NUL]" using tr by (simp add: transmissible_def)
  have dec: "RLEdecompress (content n) (contentSize n) (uncompressedSize n) 0 = Some (file_data n)"
    using file_ok_decode [OF nok d, of 0] by (simp add: calloc_def)
  have us: "uncompressedSize n = length (file_data n)" using nok by (simp add: node_ok_def content_ok_def)
  have nxt: "nextPtr n = first_of vs NULL" using store_rep_split(2) [OF rep] n by simp
  have new': "cur + uncompressedSize n + length (pathname n) + 2 * METADATA_SIZE = new"
    using length_serialize [OF tr] us new by (simp add: METADATA_SIZE_def)
  have sub: "new - length (file_data n) = cur + (length (pathname n) + 2 * METADATA_SIZE)"
    using new' us by simp
  show ?thesis
    using vn n go mem
    by (subst read_n_loop.simps)
      (simp add: deref_def Let_def new' [unfolded us] us dec [unfolded us] nxt grow sub unpack_def buffers_ok_def)
qed

section \<open>The loop\<close>

text \<open>Whether the rest overflows does not depend on how the buffer has grown.\<close>

lemma overflows_step:
  assumes "retMax < length ret \<or> retMax = INITIALBUFSIZ \<and> length ret = INITIALBUFSIZ"
    and "transmissible f" and new: "new = cur + length (serialize f)"
    and len: "length ret' = (if retMax < new then 2 * new else length ret)"
    and room: "new - length (a_data f) + 1 \<le> length ret'"
  shows "(retMax < length ret \<or> \<not> overflows cur (f # fs)) \<longleftrightarrow>
    ((if retMax < new then 2 * retMax else retMax) < length ret' \<or> \<not> overflows new fs)"
proof (cases "retMax < length ret")
  case True
  then show ?thesis using len by auto
next
  case False
  then have init: "retMax = INITIALBUFSIZ" "length ret = INITIALBUFSIZ" using assms(1) by auto
  show ?thesis
  proof (cases "retMax < new")
    case True
    then show ?thesis using len init False by (simp add: Let_def new)
  next
    case small: False
    have "\<not> (new = INITIALBUFSIZ \<and> a_data f = [])" using room small init len by auto
    then show ?thesis using small init False len by (simp add: Let_def new)
  qed
qed

lemma read_n_loop_result:
  assumes "store_rep s (us @ vs)" and "\<forall>f \<in> set (abs_files s vs). transmissible f"
    and mem: "buffers_ok env" and "ret = resp @ slack" and "cur = length resp" and "retMax < length ret \<or> retMax = INITIALBUFSIZ \<and> length ret = INITIALBUFSIZ"
    and "upperLimit \<le> 0 \<or> c \<le> nat upperLimit"
    and "sent = rest_files upperLimit c (abs_files s vs)"
  shows "if retMax < length ret \<or> \<not> overflows cur sent
    then (\<exists>buf. read_n_loop env s upperLimit (first_of vs NULL) c ret retMax cur =
        Some (None, Some buf, cur + length (response sent), c + length sent) \<and>
        take (cur + length (response sent)) buf = resp @ response sent)
    else read_n_loop env s upperLimit (first_of vs NULL) c ret retMax cur = None"
  using assms(1,2,4-)
proof (induction vs arbitrary: us c ret resp slack cur retMax sent)
  case Nil
  then show ?case by (simp add: read_n_loop.simps rest_files_def response_def)
next
  case (Cons v vs)
  obtain n where n: "heap s v = Some n" "v \<noteq> NULL" using store_rep_node [OF Cons.prems(1), of v] by auto
  have tr: "transmissible (abs_file n)" using Cons.prems(2) n by simp
  show ?case
  proof (cases "int c \<noteq> upperLimit \<or> upperLimit \<le> 0")
    case False
    then have "0 < upperLimit" and "nat upperLimit \<le> c" by auto
    then have "sent = []" using Cons.prems(7) by (simp add: rest_files_def)
    moreover have "read_n_loop env s upperLimit (first_of (v # vs) NULL) c ret retMax cur = Some (None, Some ret, cur, c)"
      using False by (subst read_n_loop.simps) simp
    ultimately show ?thesis using Cons.prems(3,4) by (simp add: response_def)
  next
    case True
    let ?f = "abs_file n"
    define new where "new = cur + length (serialize ?f)"
    define ret' where "ret' = (if retMax < new then realloc_block (junk env) ret (2 * new) else ret)"
    define retMax' where "retMax' = (if retMax < new then 2 * retMax else retMax)"
    define sent' where "sent' = rest_files upperLimit (c + 1) (abs_files s vs)"
    note step = loop_step [OF Cons.prems(1) n(1) tr True mem new_def ret'_def retMax'_def]
    have lser: "length (serialize ?f) = 20 + length (pathname n) + length (file_data n)"
      using length_serialize [OF tr] by simp
    let ?hdr = "pad10 (length (pathname n)) @ pathname n @ pad10 (length (file_data n))"
    have lhdr: "length ?hdr = 20 + length (pathname n)"
      using tr by (simp add: transmissible_def length_pad10)
    have ser: "serialize ?f = ?hdr @ file_data n" by (simp add: serialize_def)
    have newd: "new - length (file_data n) = cur + length ?hdr" using lser lhdr by (simp add: new_def)
    have sent: "sent = ?f # sent'"
    proof (cases "upperLimit \<le> 0")
      case False
      then have "nat upperLimit - c = Suc (nat upperLimit - Suc c)" using True Cons.prems(6) by auto
      then show ?thesis using False Cons.prems(7) n by (simp add: sent'_def rest_files_def)
    qed (use Cons.prems(7) n in \<open>simp add: sent'_def rest_files_def\<close>)
    have c': "upperLimit \<le> 0 \<or> c + 1 \<le> nat upperLimit" using True Cons.prems(6) by auto
    have lret: "cur \<le> length ret" using Cons.prems(3,4) by simp
    have lret': "retMax < new \<Longrightarrow> length ret' = 2 * new"
    proof -
      assume "retMax < new"
      then have "length ret \<le> 2 * new \<or> 2 * new < length ret" by linarith
      then show ?thesis using \<open>retMax < new\<close> by (auto simp: ret'_def realloc_block_def)
    qed
    have ret'_pre: "\<exists>slack'. ret' = resp @ slack'"
    proof (cases "retMax < new")
      case True
      have "take (2 * new) ret = resp @ take (2 * new - cur) slack"
        using Cons.prems(3,4) by (simp add: new_def)
      then show ?thesis using True by (auto simp: ret'_def realloc_block_def)
    qed (use Cons.prems(3) in \<open>simp add: ret'_def\<close>)
    then obtain slack' where slack': "ret' = resp @ slack'" by blast
    show ?thesis
    proof (cases "cur + length ?hdr + 1 \<le> length ret'")
      case True
      have room2: "cur + length ?hdr + length (file_data n) \<le> length ret'"
        using lret' Cons.prems(5) lser lhdr by (cases "retMax < new") (auto simp: ret'_def new_def)
      obtain ret1 ret2 where w: "memcpy ret' cur (?hdr @ [NUL]) = Some ret1"
        "memcpy ret1 (cur + length ?hdr) (file_data n) = Some ret2" "length ret2 = length ret'"
        "take (cur + length ?hdr + length (file_data n)) ret2 = resp @ ?hdr @ file_data n"
        by (rule write_file [OF slack' Cons.prems(4) True room2]) (rule that)
      have run: "read_n_loop env s upperLimit (first_of (v # vs) NULL) c ret retMax cur =
          read_n_loop env s upperLimit (first_of vs NULL) (c + 1) ret2 retMax' new"
        using w(1,2) unfolding step newd by simp
      have new_eq: "new = cur + length ?hdr + length (file_data n)" using lser lhdr by (simp add: new_def)
      have pre: "ret2 = (resp @ serialize ?f) @ drop new ret2"
        using w(4) unfolding ser new_eq [symmetric] by (metis append_take_drop_id)
      have lcur: "new = length (resp @ serialize ?f)" using Cons.prems(4) by (simp add: new_def)
      have max': "retMax' < length ret2 \<or> retMax' = INITIALBUFSIZ \<and> length ret2 = INITIALBUFSIZ"
        using Cons.prems(5) lret' w(3) by (auto simp: retMax'_def ret'_def)
      have rep': "store_rep s ((us @ [v]) @ vs)" using Cons.prems(1) by simp
      have trs: "\<forall>f \<in> set (abs_files s vs). transmissible f" using Cons.prems(2) by simp
      note ih = Cons.IH [OF rep' trs pre lcur max' c' sent'_def]
      have len2: "length ret2 = (if retMax < new then 2 * new else length ret)"
        using lret' w(3) by (simp add: ret'_def)
      have "new - length (a_data ?f) + 1 \<le> length ret2" using True w(3) newd by simp
      note cond = overflows_step [OF Cons.prems(5) tr new_def len2 this, of sent', folded retMax'_def sent]
      have total: "new + length (response sent') = cur + length (response sent)"
        "(resp @ serialize ?f) @ response sent' = resp @ response sent"
        "c + 1 + length sent' = c + length sent"
        by (simp_all add: response_def sent new_def)
      show ?thesis using ih unfolding run total by (simp only: cond)
    next
      case False
      have fail: "read_n_loop env s upperLimit (first_of (v # vs) NULL) c ret retMax cur = None"
        using False unfolding step memcpy_def by simp
      have notgrow: "\<not> retMax < new"
        using False lret' lhdr lser by (auto simp: new_def)
      then have "ret' = ret" by (simp add: ret'_def)
      then have "length ret < new + 1" using False lser lhdr by (simp add: new_def)
      then have init: "\<not> retMax < length ret" "new = INITIALBUFSIZ" "length ret = INITIALBUFSIZ"
        using notgrow Cons.prems(5) by auto
      moreover have "file_data n = []"
        using False init \<open>ret' = ret\<close> lser lhdr by (cases "file_data n") (auto simp: new_def)
      ultimately have "overflows cur sent" unfolding sent by (simp add: Let_def new_def)
      then show ?thesis using fail init(1) by simp
    qed
  qed
qed

section \<open>readNFilesHandler\<close>

lemma readNFiles_loop:
  assumes sim: "sim s xs fs" and tr: "\<forall>f \<in> set (f_files fs). transmissible f" and mem: "buffers_ok env"
    and sent: "sent = first_files upperLimit (f_files fs)"
  shows "if \<not> overflows 0 sent
    then (\<exists>buf. read_n_loop env s upperLimit (hPtr s) 0 (calloc INITIALBUFSIZ) INITIALBUFSIZ 0 =
        Some (None, Some buf, length (response sent), length sent) \<and> take (length (response sent)) buf = response sent)
    else read_n_loop env s upperLimit (hPtr s) 0 (calloc INITIALBUFSIZ) INITIALBUFSIZ 0 = None"
proof -
  have rep: "store_rep s ([] @ xs)" using sim by (simp add: sim_busy_def)
  have hd: "hPtr s = first_of xs NULL" using rep by (simp add: store_rep_def list_rep_def)
  have files: "f_files fs = abs_files s xs" using sim_counts(7) [OF sim] .
  have tr': "\<forall>f \<in> set (abs_files s xs). transmissible f" using tr files by simp
  have init: "calloc INITIALBUFSIZ = [] @ calloc INITIALBUFSIZ" and cur: "0 = length ([] :: char list)"
    by simp_all
  have max: "INITIALBUFSIZ < length (calloc INITIALBUFSIZ) \<or>
      INITIALBUFSIZ = INITIALBUFSIZ \<and> length (calloc INITIALBUFSIZ) = INITIALBUFSIZ" by simp
  have up: "upperLimit \<le> 0 \<or> 0 \<le> nat upperLimit" by simp
  have sent': "sent = rest_files upperLimit 0 (abs_files s xs)"
    by (simp add: sent files first_files_def rest_files_def)
  show ?thesis
    using read_n_loop_result [OF rep tr' mem init cur max up sent'] unfolding hd
    by (simp only: add_0 append_Nil length_calloc less_irrefl simp_thms)
qed

lemma read_n_log:
  assumes "sim s xs fs" and "\<bar>self env\<bar> < 10 ^ 20" "\<bar>requestor\<bar> < 2 ^ 31" and "n < 10 ^ 20"
  obtains s' where "logEvent env ''READ'' ''READ_N_FILES'' 0 requestor n s = Some s'"
    and "sim s' xs (logged env ''READ'' ''READ_N_FILES'' 0 requestor n fs)"
proof -
  have "logEvent env ''READ'' ''READ_N_FILES'' 0 requestor n s =
      Some (s\<lparr>logBuffer := entry env (logBuffer s) ''READ'' ''READ_N_FILES'' 0 requestor n\<rparr>)"
    using assms(2-) by (intro logEvent_ok) (simp_all add: PATH_LIMIT_def)
  then show ?thesis using that sim_log [OF assms(1)] by blast
qed

lemma readNFiles_refines:
  assumes sim: "sim s xs fs" and tr: "\<forall>f \<in> set (f_files fs). transmissible f" and mem: "buffers_ok env"
    and req: "\<bar>self env\<bar> < 10 ^ 20" "\<bar>requestor\<bar> < 2 ^ 31"
    and size: "length (response (first_files upperLimit (f_files fs))) < 10 ^ 20"
    and spec: "spec_read_n env errno0 fs upperLimit requestor = (r, resp, fs')"
  shows "if overflows 0 (first_files upperLimit (f_files fs))
    then readNFilesHandler env errno0 s upperLimit requestor = None
    else (\<exists>buf s'. readNFilesHandler env errno0 s upperLimit requestor = Some (r, Some (Some buf, length resp), s') \<and>
      take (length resp) buf = resp \<and> sim s' xs fs')"
proof -
  let ?sent = "first_files upperLimit (f_files fs)"
  note loop = readNFiles_loop [OF sim tr mem, of ?sent upperLimit, OF refl]
  have c: "calloc_ok env" using mem by (simp add: buffers_ok_def)
  show ?thesis
  proof (cases "overflows 0 ?sent")
    case True
    then show ?thesis using loop c by (simp add: readNFilesHandler_def)
  next
    case False
    then obtain buf where buf: "read_n_loop env s upperLimit (hPtr s) 0 (calloc INITIALBUFSIZ) INITIALBUFSIZ 0 =
        Some (None, Some buf, length (response ?sent), length ?sent)" "take (length (response ?sent)) buf = response ?sent"
      using loop by auto
    have res: "r = (case errno0 of Some e \<Rightarrow> Inl e | None \<Rightarrow> Inr (int (length ?sent)))" "resp = response ?sent"
      "fs' = logged env ''READ'' ''READ_N_FILES'' 0 requestor (length (response ?sent)) fs"
      using spec by (auto simp: spec_read_n_def Let_def)
    obtain s' where s': "logEvent env ''READ'' ''READ_N_FILES'' 0 requestor (length (response ?sent)) s = Some s'" "sim s' xs fs'"
      using read_n_log [OF sim req size] res(3) by blast
    then have "readNFilesHandler env errno0 s upperLimit requestor = Some (r, Some (Some buf, length resp), s')"
      using buf(1) c by (simp add: readNFilesHandler_def res)
    then show ?thesis using False buf(2) s'(2) res by auto
  qed
qed

text \<open>When memory may run out: a loop that does not end with \<open>ENOMEM\<close> has had all the memory it asked for.\<close>

definition plenty :: "env \<Rightarrow> env" where
  "plenty env = env\<lparr>calloc_ok := True, realloc_ok := (\<lambda>_. True), unpack_ok := (\<lambda>_. True)\<rparr>"

lemma plenty_simps [simp]: "buffers_ok (plenty env)" "junk (plenty env) = junk env" "realloc_ok (plenty env) i" "unpack_ok (plenty env) i"
  by (simp_all add: plenty_def buffers_ok_def)

lemma read_n_loop_memory:
  "read_n_loop env s u p c ret mx cur = Some res \<Longrightarrow>
     fst res = Some ENOMEM \<or> fst res = None \<and> read_n_loop (plenty env) s u p c ret mx cur = Some res"
  apply (erule read_n_loop.raw_induct
    [where P = "\<lambda>env s u p c ret mx cur res. fst res = Some ENOMEM \<or>
       fst res = None \<and> read_n_loop (plenty env) s u p c ret mx cur = Some res", rotated])
  subgoal premises step for f env s u p c ret mx cur res
    using step(2)
    by (subst read_n_loop.simps)
      (auto simp: Let_def unpack_def split: bind_splits if_splits option.splits dest!: step(1))
  done

lemma readNFiles_memory:
  assumes sim: "sim s xs fs" and tr: "\<forall>f \<in> set (f_files fs). transmissible f"
    and req: "\<bar>self env\<bar> < 10 ^ 20" "\<bar>requestor\<bar> < 2 ^ 31"
    and size: "length (response (first_files upperLimit (f_files fs))) < 10 ^ 20"
    and spec: "spec_read_n env errno0 fs upperLimit requestor = (r, resp, fs')"
    and run: "readNFilesHandler env errno0 s upperLimit requestor = Some (r', out, s')"
  shows "r' = Inl ENOMEM \<and> heap s' = heap s \<or>
    r' = r \<and> (\<exists>buf. out = Some (Some buf, length resp) \<and> take (length resp) buf = resp) \<and> sim s' xs fs'"
proof (cases "calloc_ok env")
  case False
  then show ?thesis using run by (simp add: readNFilesHandler_def)
next
  case True
  let ?sent = "first_files upperLimit (f_files fs)"
  obtain e ret n k where l: "read_n_loop env s upperLimit (hPtr s) 0 (calloc INITIALBUFSIZ) INITIALBUFSIZ 0 = Some (e, ret, n, k)"
    and lg: "logEvent env ''READ'' ''READ_N_FILES'' (case e of Some e \<Rightarrow> errno_value e | None \<Rightarrow> 0) requestor n s = Some s'"
    and r': "r' = (case (case e of Some e \<Rightarrow> Some e | None \<Rightarrow> errno0) of Some e \<Rightarrow> Inl e | None \<Rightarrow> Inr (int k))" and out: "out = Some (ret, n)"
    using run True by (auto simp: readNFilesHandler_def split: bind_splits)
  have hp: "heap s' = heap s" using lg by (auto simp: logEvent_def split: bind_splits)
  show ?thesis
  proof (cases e)
    case None
    then have "read_n_loop (plenty env) s upperLimit (hPtr s) 0 (calloc INITIALBUFSIZ) INITIALBUFSIZ 0 = Some (e, ret, n, k)"
      using read_n_loop_memory [OF l] by simp
    then obtain buf where b: "ret = Some buf" "n = length (response ?sent)" "k = length ?sent" "take (length (response ?sent)) buf = response ?sent"
      using readNFiles_loop [OF sim tr, of "plenty env" ?sent upperLimit, OF _ refl] by (simp split: if_splits) blast
    have res: "r = (case errno0 of Some e \<Rightarrow> Inl e | None \<Rightarrow> Inr (int (length ?sent)))" "resp = response ?sent"
      "fs' = logged env ''READ'' ''READ_N_FILES'' 0 requestor (length (response ?sent)) fs"
      using spec by (auto simp: spec_read_n_def Let_def)
    obtain s1 where "logEvent env ''READ'' ''READ_N_FILES'' 0 requestor n s = Some s1" "sim s1 xs fs'"
      using read_n_log [OF sim req size] b(2) res(3) by blast
    then have "sim s' xs fs'" using lg None by simp
    then show ?thesis using b r' out res None by (auto split: option.splits)
  next
    case (Some x)
    then have "x = ENOMEM" using read_n_loop_memory [OF l] by simp
    then show ?thesis using Some r' hp by simp
  qed
qed

end
