(* ===== verification/Invariant.thy ===== *)
theory Invariant
  imports ReadNFiles
begin

text \<open>
  The well-formedness of the abstract store is an invariant of every handler's specification: names
  stay distinct, the number of files and the total compressed size stay within the limits of the
  configuration, only positive descriptors are recorded, and nobody waits for an unlocked file.
\<close>

lemma fs_ok_logged [simp]: "fs_ok (logged env op path outcome requestor n fs) = fs_ok fs"
  by (simp add: fs_ok_def logged_def)

lemma fs_ok_counters [simp]:
  "fs_ok (fs\<lparr>f_topNum := k\<rparr>) = fs_ok fs" "fs_ok (fs\<lparr>f_topSize := k\<rparr>) = fs_ok fs"
  "fs_ok (fs\<lparr>f_victims := k\<rparr>) = fs_ok fs"
  by (simp_all add: fs_ok_def)

lemma fs_okD:
  "fs_ok fs \<Longrightarrow> a_lookup (f_files fs) path = Some f \<Longrightarrow> file_ok f \<and> a_path f = path \<and> f \<in> set (f_files fs)"
  by (auto simp: fs_ok_def dest: a_lookup_in)

text \<open>An update of the file that was found, leaving its name and content alone.\<close>

lemma fs_ok_change:
  assumes "fs_ok fs" and "a_lookup (f_files fs) path = Some f"
    and "\<And>f. a_path (g f) = a_path f" and "\<And>f. a_data (g f) = a_data f"
    and "file_ok f \<Longrightarrow> file_ok (g f)"
  shows "fs_ok (upd path g fs)"
proof (rule fs_ok_upd_same [OF assms(1,3,4)])
  fix f' assume "f' \<in> set (f_files fs)" "a_path f' = path" "file_ok f'"
  moreover have "a_lookup (f_files fs) path = Some f'"
    using calculation assms(1) a_lookup_iff [of "f_files fs" path f'] by (simp add: fs_ok_def)
  ultimately show "file_ok (g f')" using assms(2,5) by simp
qed

text \<open>A file that is dropped.\<close>

lemma fs_ok_drop [intro]: "fs_ok fs \<Longrightarrow> fs_ok (fs\<lparr>f_files := a_remove p (f_files fs)\<rparr>)"
  by (rule fs_ok_remove)

lemma fs_ok_make_room:
  assumes ok: "fs_ok fs" and spec: "spec_make_room env requestor fs notify = (fs', notify')"
  shows "fs_ok fs'"
proof (cases "length (f_files fs) = f_maxNum fs")
  case True
  show ?thesis
  proof (cases "a_victim (f_algo fs) None (f_files fs)")
    case (Some v)
    have "fs_ok ((fs\<lparr>f_files := a_remove (a_path v) (f_files fs)\<rparr>)\<lparr>f_files := a_reset (a_remove (a_path v) (f_files fs))\<rparr>)"
      using fs_ok_reset [OF fs_ok_remove [OF ok]] by simp
    then show ?thesis using spec True Some by (auto simp: spec_make_room_def fs_ok_def logged_def)
  qed (use ok spec True in \<open>auto simp: spec_make_room_def\<close>)
qed (use ok spec in \<open>auto simp: spec_make_room_def\<close>)

lemma fs_ok_add:
  assumes "fs_ok fs" and "file_ok f" and "a_data f = []" and "a_lookup (f_files fs) (a_path f) = None"
    and "length (f_files fs) < f_maxNum fs"
  shows "fs_ok (spec_add f fs)"
  using assms by (auto simp: fs_ok_def spec_add_def a_lookup_None csize_def)

lemma fs_ok_open:
  assumes ok: "fs_ok fs" and len: "length path \<le> PATH_LIMIT" "NUL \<notin> set path"
    and spec: "spec_open env fs path flags notify requestor = (r, notify', fs')"
  shows "fs_ok fs'"
proof (cases "path = [] \<or> requestor \<le> 0")
  case True
  then show ?thesis using ok spec by (auto simp: spec_open_def)
next
  case good: False
  then have pos: "path \<noteq> []" "0 < requestor" by auto
  show ?thesis
  proof (cases "a_lookup (f_files fs) path")
    case (Some f)
    let ?g = "\<lambda>f. f\<lparr>a_lock := (if IS_SET O_LOCK flags then requestor else a_lock f),
      a_open := a_open f @ [requestor]\<rparr>"
    have "fs_ok (upd path ?g fs)" if "IS_SET O_LOCK flags \<longrightarrow> a_lock f = 0"
      by (rule fs_ok_change [OF ok Some]) (use pos that in \<open>auto simp: file_ok_def\<close>)
    then show ?thesis using ok spec good Some by (auto simp: spec_open_def Let_def split: if_splits)
  next
    case None
    obtain fs1 n1 where room: "spec_make_room env requestor fs notify = (fs1, n1)" by fastforce
    have ok1: "fs_ok fs1" by (rule fs_ok_make_room [OF ok room])
    note r = spec_make_room_room [OF ok room]
    have "file_ok (new_file env path lock requestor)" for lock
      using pos len by (simp add: file_ok_def new_file_def)
    then have "fs_ok (spec_add (new_file env path lock requestor) (logged env ''OPEN'' path 0 requestor 0 fs1))" for lock
      using ok1 r(1) r(3) [OF None]
      by (intro fs_ok_add) (simp_all, simp_all add: logged_def new_file_def)
    then show ?thesis
      using ok ok1 spec good None room by (auto simp: spec_open_def Let_def split: if_splits)
  qed
qed

lemma fs_ok_read:
  assumes ok: "fs_ok fs" and spec: "spec_read env fs path requestor = (r, fs')"
  shows "fs_ok fs'"
proof (cases "a_lookup (f_files fs) path")
  case (Some f)
  have "fs_ok (upd path (\<lambda>f. (touch env f)\<lparr>a_first := 0\<rparr>) fs)"
    by (rule fs_ok_change [OF ok Some]) (simp_all add: touch_def file_ok_def)
  then show ?thesis using spec ok Some by (auto simp: spec_read_def split: if_splits)
qed (use spec ok in \<open>auto simp: spec_read_def split: if_splits\<close>)

lemma fs_ok_read_n: "fs_ok fs \<Longrightarrow> spec_read_n env errno0 fs k requestor = (r, resp, fs') \<Longrightarrow> fs_ok fs'"
  by (auto simp: spec_read_n_def Let_def)

lemma fs_ok_lock:
  assumes ok: "fs_ok fs" and pos: "0 < requestor" and spec: "spec_lock env fs path requestor = (r, fs')"
  shows "fs_ok fs'"
proof (cases "a_lookup (f_files fs) path")
  case (Some f)
  have "fs_ok (upd path (\<lambda>f. f\<lparr>a_wait := a_wait f @ [requestor]\<rparr>) fs)" if "a_lock f \<noteq> 0"
    by (rule fs_ok_change [OF ok Some]) (use pos that in \<open>auto simp: file_ok_def\<close>)
  moreover have "fs_ok (upd path (\<lambda>f. (touch env f)\<lparr>a_lock := requestor, a_first := 0\<rparr>) fs)"
    by (rule fs_ok_change [OF ok Some]) (use pos in \<open>auto simp: file_ok_def touch_def\<close>)
  ultimately show ?thesis using spec ok Some by (auto simp: spec_lock_def split: if_splits)
qed (use spec ok in \<open>auto simp: spec_lock_def split: if_splits\<close>)

lemma file_ok_hand_over: "file_ok f \<Longrightarrow> file_ok (hand_over f)"
  by (cases "a_wait f") (auto simp: file_ok_def hand_over_def less_imp_le)

lemma hand_over_simps [simp]: "a_path (hand_over f) = a_path f" "a_data (hand_over f) = a_data f"
  by (simp_all add: hand_over_def)

lemma file_ok_first [simp]: "file_ok (f\<lparr>a_first := c\<rparr>) = file_ok f"
  by (simp add: file_ok_def)

lemma file_ok_touch [simp]: "file_ok (touch env f) = file_ok f"
  by (simp add: file_ok_def touch_def)

lemma touch_simps [simp]: "a_path (touch env f) = a_path f" "a_data (touch env f) = a_data f"
  by (simp_all add: touch_def)

lemma fs_ok_unlock:
  assumes ok: "fs_ok fs" and spec: "spec_unlock env fs path newLockFd requestor = (r, newLock, fs')"
  shows "fs_ok fs'"
proof (cases "a_lookup (f_files fs) path")
  case (Some f)
  have "fs_ok (upd path (\<lambda>f. (hand_over (touch env f))\<lparr>a_first := 0\<rparr>) fs)"
    by (rule fs_ok_change [OF ok Some]) (simp_all add: file_ok_hand_over)
  moreover have "fs_ok (upd path (touch env) fs)" by (rule fs_ok_upd_touch [OF ok])
  ultimately show ?thesis using spec ok Some by (auto simp: spec_unlock_def split: if_splits)
qed (use spec ok in \<open>auto simp: spec_unlock_def split: if_splits\<close>)

lemma file_ok_close: "file_ok f \<Longrightarrow> file_ok (f\<lparr>a_open := remove1 c (a_open f)\<rparr>)"
  using set_remove1_subset [of c "a_open f"] by (auto simp: file_ok_def)

lemma fs_ok_close:
  assumes ok: "fs_ok fs" and spec: "spec_close env fs path requestor = (r, fs')"
  shows "fs_ok fs'"
proof (cases "a_lookup (f_files fs) path")
  case (Some f)
  let ?g = "\<lambda>f. (touch env f)\<lparr>a_open := remove1 requestor (a_open f), a_first := 0\<rparr>"
  have "file_ok (?g f)" if "file_ok f"
    using file_ok_close [OF that, of requestor] by (simp add: file_ok_def touch_def)
  then have "fs_ok (upd path ?g fs)" by (intro fs_ok_change [OF ok Some]) simp_all
  then show ?thesis using spec ok Some by (auto simp: spec_close_def split: if_splits)
qed (use spec ok in \<open>auto simp: spec_close_def split: if_splits\<close>)

lemma fs_ok_remove_file:
  "fs_ok fs \<Longrightarrow> spec_remove env fs path notify requestor = (r, notify', fs') \<Longrightarrow> fs_ok fs'"
  by (auto simp: spec_remove_def split: if_splits option.splits)

lemma file_ok_exit: "file_ok f \<Longrightarrow> file_ok (exit_file requestor f)"
proof -
  assume ok: "file_ok f"
  define h where "h = (if a_lock f = requestor then hand_over f else f)"
  have "file_ok h" using ok file_ok_hand_over by (simp add: h_def)
  moreover have "exit_file requestor f = h\<lparr>a_wait := remove1 requestor (a_wait h), a_open := remove1 requestor (a_open h)\<rparr>"
    by (simp add: exit_file_def h_def Let_def)
  ultimately show ?thesis
    using set_remove1_subset [of requestor "a_wait h"] set_remove1_subset [of requestor "a_open h"]
    by (auto simp: file_ok_def)
qed

lemma exit_file_simps [simp]: "a_path (exit_file c f) = a_path f" "a_data (exit_file c f) = a_data f"
  by (simp_all add: exit_file_def Let_def)

lemma fs_ok_exit:
  assumes ok: "fs_ok fs" and spec: "spec_exit fs notify requestor = (r, notify', fs')"
  shows "fs_ok fs'"
proof -
  have "map a_path (map (exit_file requestor) (f_files fs)) = map a_path (f_files fs)" by simp
  moreover have "total_size (map (exit_file requestor) (f_files fs)) = total_size (f_files fs)"
    by (simp add: total_size_def comp_def csize_def [abs_def])
  ultimately have "fs_ok (fs\<lparr>f_files := map (exit_file requestor) (f_files fs)\<rparr>)"
    using ok file_ok_exit by (auto simp: fs_ok_def simp del: map_map)
  then show ?thesis using spec ok by (auto simp: spec_exit_def split: if_splits)
qed

text \<open>Writing: the file written to keeps its place and its new size was checked before.\<close>

lemma csize_data: "a_data f = d \<Longrightarrow> csize f = length (rle_spec d)"
  by (simp add: csize_def)

lemma total_size_append_data:
  assumes "distinct (map a_path fs)" and "a_lookup fs path = Some f"
  shows "total_size (a_update path (\<lambda>f. f\<lparr>a_data := a_data f @ d\<rparr>) fs) =
    total_size (a_remove path fs) + length (rle_spec (a_data f @ d))"
proof -
  obtain us vs where fs: "fs = us @ f # vs" and p: "a_path f = path"
    using a_lookup_in [OF assms(2)] by (auto dest: split_list)
  show ?thesis
    using a_update_split(1,2) [of us f vs] assms(1) unfolding fs p [symmetric]
    by (simp add: csize_data)
qed

lemma fs_ok_store:
  assumes ok: "fs_ok fs" and f: "a_lookup (f_files fs) path = Some f" and d: "a_data f @ d \<noteq> [NUL]"
    and room: "total_size (a_remove path (f_files fs)) + length (rle_spec (a_data f @ d)) \<le> f_maxSize fs"
  shows "fs_ok (spec_store path d fs)"
proof -
  have dist: "distinct (map a_path (f_files fs))" using ok by (simp add: fs_ok_def)
  have "fs_ok (upd path (\<lambda>f. f\<lparr>a_data := a_data f @ d\<rparr>) fs)"
  proof (rule fs_ok_upd [OF ok])
    show "total_size (a_update path (\<lambda>f. f\<lparr>a_data := a_data f @ d\<rparr>) (f_files fs)) \<le> f_maxSize fs"
      using room total_size_append_data [OF dist f] by simp
  next
    fix f' assume "f' \<in> set (f_files fs)" "a_path f' = path" "file_ok f'"
    moreover have "f' = f" using calculation f dist a_lookup_iff [of "f_files fs" path f'] by simp
    ultimately show "file_ok (f'\<lparr>a_data := a_data f' @ d\<rparr>)" using d by (simp add: file_ok_def)
  qed simp
  then show ?thesis by (simp add: spec_store_def Let_def)
qed

lemma lookup_update:
  "(\<And>f. a_path (g f) = a_path f) \<Longrightarrow> a_lookup (a_update p g fs) p = map_option g (a_lookup fs p)"
  by (induction fs) (simp_all add: a_lookup_def)

lemma lookup_reset: "a_lookup (a_reset fs) p = map_option (\<lambda>f. f\<lparr>a_refs := 0\<rparr>) (a_lookup fs p)"
  by (induction fs) (simp_all add: a_lookup_def a_reset_def)

lemma total_size_reset' [simp]: "total_size (a_reset fs) = total_size fs"
  by (induction fs) (simp_all add: a_reset_def csize_def)

lemma fs_ok_write:
  assumes ok: "fs_ok fs" and d: "\<And>f. a_lookup (f_files fs) path = Some f \<Longrightarrow> a_data f @ d \<noteq> [NUL]"
    and spec: "spec_write env fs path d requestor = (r, notify, evicted, fs')"
  shows "fs_ok fs'"
proof (cases "bad_input path requestor")
  case False
  show ?thesis
  proof (cases "a_lookup (f_files fs) path")
    case (Some f)
    let ?fs1 = "upd path (touch env) fs" and ?need = "length (rle_spec (a_data f @ d))"
    have ok1: "fs_ok ?fs1" by (rule fs_ok_upd_touch [OF ok])
    have l1: "a_lookup (f_files ?fs1) path = Some (touch env f)"
      using Some by (simp add: upd_def lookup_update)
    obtain fs2 n2 ev2 where ev: "spec_evict env path ?need requestor ?fs1 [] [] = (fs2, n2, ev2)"
      using prod_cases3 by blast
    note keep = spec_evict_keeps [OF ev]
    let ?fs3 = "fs2\<lparr>f_files := a_reset (f_files fs2)\<rparr>"
    have ok2: "fs_ok fs2" and max: "f_maxSize fs2 = f_maxSize fs" using keep(2,3) ok1 by (simp_all add: upd_def)
    have l3: "a_lookup (f_files ?fs3) path = Some ((touch env f)\<lparr>a_refs := 0\<rparr>)"
      using keep(1) l1 by (simp add: lookup_reset)
    have fin: "fs_ok (upd path (\<lambda>f. f\<lparr>a_first := 0\<rparr>) (logged env ''WRITE'' path 0 requestor (length d) (spec_store path d ?fs3)))"
      if "?need \<le> f_maxSize fs"
    proof (rule fs_ok_upd_same)
      have "fs_ok (spec_store path d ?fs3)"
        by (rule fs_ok_store [OF fs_ok_reset [OF ok2] l3])
          (use d [OF Some] keep(4) that max in \<open>simp_all add: a_remove_reset upd_def touch_def\<close>)
      then show "fs_ok (logged env ''WRITE'' path 0 requestor (length d) (spec_store path d ?fs3))" by simp
    qed (simp_all add: file_ok_def)
    show ?thesis
    proof (cases "granted f requestor \<and> ?need \<le> f_maxSize fs")
      case True
      then show ?thesis using spec False Some ev fin
        by (auto simp: spec_write_def Let_def upd_def [of path "touch env"])
    next
      case denied: False
      then show ?thesis using spec False Some ok ok1
        by (auto simp: spec_write_def Let_def upd_def [of path "touch env"] split: if_splits)
    qed
  qed (use spec ok False in \<open>auto simp: spec_write_def\<close>)
qed (use spec ok in \<open>auto simp: spec_write_def\<close>)

end
