(* ===== verification/ServerSpec.thy ===== *)
theory ServerSpec
  imports Server Invariant
begin

text \<open>
  The protocol without sockets: a request is a value of a datatype, decoded from the bytes that the
  client sends, and \<open>spec_serve\<close> says what is written in answer, on the abstract store.
\<close>

section \<open>Decoding a request\<close>

text \<open>A request with an invalid flag or number carries \<open>None\<close>.\<close>

datatype request =
    Open cstring "int option"
  | CloseFile cstring
  | Read cstring
  | ReadN "int option"
  | WriteFile cstring "char list"
  | Append cstring "char list"
  | Lock cstring
  | Unlock cstring
  | Remove cstring
  | Unknown
  | Exit

definition segment :: "char list \<Rightarrow> (char list \<times> char list) option" where
  "segment inp = map_option (\<lambda>(buf, n, inp). (take n buf, inp)) (getRequestPayloadSegment inp)"

definition number :: "cstring \<Rightarrow> int option" where
  "number s = (if fst (isNumber s) = 0 then Some (snd (isNumber s)) else None)"

definition decode_file :: "int \<Rightarrow> cstring \<Rightarrow> char list \<Rightarrow> (request \<times> char list) option" where
  "decode_file code path inp =
     (if code = OPEN_FILE then Some (Open path (number (c_string (take 1 inp))), drop 1 inp)
      else if code = CLOSE_FILE then Some (CloseFile path, inp)
      else if code = READ_FILE then Some (Read path, inp)
      else if code = WRITE_FILE then map_option (\<lambda>(d, inp). (WriteFile path d, inp)) (segment inp)
      else if code = APPEND_TO_FILE then map_option (\<lambda>(d, inp). (Append path d, inp)) (segment inp)
      else if code = LOCK_FILE then Some (Lock path, inp)
      else if code = UNLOCK_FILE then Some (Unlock path, inp)
      else if code = REMOVE_FILE then Some (Remove path, inp)
      else Some (Unknown, inp))"

definition decode :: "char list \<Rightarrow> (request \<times> char list) option" where
  "decode inp =
     (case inp of
        [] \<Rightarrow> Some (Exit, [])
      | b # inp \<Rightarrow>
          let code = atol (c_string [b]) in
          if code = READ_N_FILES
          then Some (ReadN (number (c_string (take METADATA_SIZE inp))), drop METADATA_SIZE inp)
          else (case segment inp of
              None \<Rightarrow> None
            | Some (p, inp) \<Rightarrow> decode_file code (c_string p) inp))"

section \<open>What a request does\<close>

definition code_msg :: "fd \<Rightarrow> nat \<Rightarrow> action" where
  "code_msg c code = Send c (show_nat code)"

definition error_out :: "fd \<Rightarrow> errno \<Rightarrow> action list" where
  "error_out c e =
     (case e of ENOENT \<Rightarrow> [code_msg c 2] | EACCES \<Rightarrow> [code_msg c 3] | EPERM \<Rightarrow> [code_msg c 7]
      | E2BIG \<Rightarrow> [code_msg c 4] | EINVAL \<Rightarrow> [code_msg c 6] | _ \<Rightarrow> [])"

definition notify_out :: "fd list \<Rightarrow> nat \<Rightarrow> action list" where
  "notify_out cs code = concat (map (\<lambda>c. [code_msg c code, Pipe (fd_msg c)]) cs)"

definition end_msg :: "fd \<Rightarrow> action" where
  "end_msg c = Send c (pad10 0)"

definition spec_append :: "env \<Rightarrow> fstore \<Rightarrow> fd \<Rightarrow> cstring \<Rightarrow> char list \<Rightarrow> fstore \<times> action list" where
  "spec_append env fs c path d =
     (let (r, notify, evicted, fs) = spec_write env fs path d c in
      (fs, case r of
         Inl e \<Rightarrow> error_out c e
       | Inr _ \<Rightarrow> code_msg c 1 # notify_out notify 2 @ map (\<lambda>f. Send c (serialize f)) evicted @ [end_msg c]))"

fun spec_request :: "env \<Rightarrow> int \<Rightarrow> fstore \<Rightarrow> fd \<Rightarrow> request \<Rightarrow> fstore \<times> action list" where
  "spec_request env unset fs c (Open path None) = (fs, [code_msg c 6])"
| "spec_request env unset fs c (Open path (Some flags)) =
     (let (r, notify, fs) = spec_open env fs path flags [] c in
      (fs, case r of Inl e \<Rightarrow> error_out c e | Inr _ \<Rightarrow> code_msg c 1 # notify_out notify 2))"
| "spec_request env unset fs c (CloseFile path) =
     (let (r, fs) = spec_close env fs path c in
      (fs, case r of Inl e \<Rightarrow> error_out c e | Inr _ \<Rightarrow> [code_msg c 1]))"
| "spec_request env unset fs c (Read path) =
     (let (r, fs) = spec_read env fs path c in
      (fs, case r of Inl e \<Rightarrow> error_out c e | Inr d \<Rightarrow> [code_msg c 1, Send c (pad10 (length d) @ d)]))"
| "spec_request env unset fs c (ReadN k) =
     (let (_, resp, fs) = spec_read_n env None fs (case k of Some n \<Rightarrow> n | None \<Rightarrow> unset) c in
      (fs, (if k = None then [code_msg c 6] else []) @ [code_msg c 1, Send c resp, end_msg c]))"
| "spec_request env unset fs c (WriteFile path d) =
     (if spec_first_write fs path c then spec_append env fs c path d else (fs, [code_msg c 3]))"
| "spec_request env unset fs c (Append path d) = spec_append env fs c path d"
| "spec_request env unset fs c (Lock path) =
     (let (r, fs) = spec_lock env fs path c in
      (fs, case r of Inl e \<Rightarrow> error_out c e | Inr k \<Rightarrow> if k = -2 then [] else [code_msg c 1]))"
| "spec_request env unset fs c (Unlock path) =
     (let (r, w, fs) = spec_unlock env fs path 0 c in
      (fs, case r of Inl e \<Rightarrow> error_out c e | Inr _ \<Rightarrow> code_msg c 1 # notify_out (if w = 0 then [] else [w]) 1))"
| "spec_request env unset fs c (Remove path) =
     (let (r, notify, fs) = spec_remove env fs path [] c in
      (fs, case r of Inl e \<Rightarrow> error_out c e | Inr _ \<Rightarrow> code_msg c 1 # notify_out notify 2))"
| "spec_request env unset fs c Unknown = (fs, [code_msg c 6])"
| "spec_request env unset fs c Exit =
     (let (_, notify, fs) = spec_exit fs [] c in
      (fs, Close c # notify_out notify 1 @ [Pipe CLIENT_LEFT_MSG]))"

text \<open>The client is queued for a lock: it gets no answer and stays away from the manager.\<close>

definition queued :: "fstore \<Rightarrow> fd \<Rightarrow> request \<Rightarrow> bool" where
  "queued fs c r =
     (case r of
        Lock path \<Rightarrow> path \<noteq> [] \<and>
          (case a_lookup (f_files fs) path of None \<Rightarrow> False | Some f \<Rightarrow> a_lock f \<noteq> 0 \<and> a_lock f \<noteq> c)
      | _ \<Rightarrow> False)"

definition spec_serve :: "env \<Rightarrow> int \<Rightarrow> fstore \<Rightarrow> fd \<Rightarrow> request \<Rightarrow> fstore \<times> action list" where
  "spec_serve env unset fs c r =
     (let (fs', out) = spec_request env unset fs c r in
      (fs', out @ (if queued fs c r \<or> r = Exit then [] else [Pipe (fd_msg c)])))"

end
