(* ===== verification/ServerRefinement.thy ===== *)
theory ServerRefinement
  imports ServerSpec
begin

text \<open>
  The worker refines the protocol: for every request that it can decode, on a store that represents a
  well-formed abstract store, it writes exactly what the protocol says and leaves a store that
  represents the protocol's result.
\<close>

section \<open>Strings and segments\<close>

lemma c_string_NUL: "c_string (s @ NUL # t) = c_string s"
  by (induction s) (simp_all add: c_string_def)

lemma c_string_zeros [simp]: "c_string (s @ replicate k NUL) = c_string s"
  using c_string_NUL [of s "replicate (k - 1) NUL"] by (cases k) simp_all

lemma c_string_end [simp]: "c_string (s @ [NUL]) = c_string s"
  using c_string_NUL [of s "[]"] by simp

lemma NUL_c_string [simp]: "NUL \<notin> set (c_string s)"
  by (auto simp: c_string_def dest: set_takeWhileD)

lemma c_string_id: "NUL \<notin> set s \<Longrightarrow> c_string s = s"
  by (simp add: c_string_def takeWhile_eq_all_conv) blast

lemma length_c_string: "length (c_string s) \<le> length s"
  by (simp add: c_string_def length_takeWhile_le)

lemma digits_bound:
  "\<forall>c \<in> set s. is_digit c \<Longrightarrow> foldl (\<lambda>n c. 10 * n + digit_value c) k s < (k + 1) * 10 ^ length s"
proof (induction s arbitrary: k)
  case (Cons c s)
  have "digit_value c \<le> 9" using Cons.prems by (auto simp: is_digit_def digit_value_def)
  then have "(10 * k + digit_value c + 1) * 10 ^ length s \<le> (10 * (k + 1)) * 10 ^ length s"
    by (intro mult_right_mono) simp_all
  also have "\<dots> = (k + 1) * 10 ^ length (c # s)" by (simp add: algebra_simps)
  finally have "(10 * k + digit_value c + 1) * 10 ^ length s \<le> (k + 1) * 10 ^ length (c # s)" .
  moreover have "foldl (\<lambda>n c. 10 * n + digit_value c) (10 * k + digit_value c) s <
      (10 * k + digit_value c + 1) * 10 ^ length s"
    using Cons.prems by (intro Cons.IH) simp
  ultimately show ?case by simp
qed simp

lemma read_digits_bound: "length s \<le> k \<Longrightarrow> read_digits s < 10 ^ k"
proof -
  assume "length s \<le> k"
  then have "length (takeWhile is_digit s) \<le> k" using length_takeWhile_le [of is_digit s] by linarith
  then have le: "(10::nat) ^ length (takeWhile is_digit s) \<le> 10 ^ k" by (intro power_increasing) simp_all
  have "\<forall>c \<in> set (takeWhile is_digit s). is_digit c" by (auto dest: set_takeWhileD)
  from digits_bound [OF this, of 0] have "read_digits s < 10 ^ length (takeWhile is_digit s)"
    by (simp add: read_digits_def)
  then show ?thesis using le by (rule less_le_trans)
qed

lemma atol_bound: "length s \<le> k \<Longrightarrow> atol s < 10 ^ k"
proof -
  assume l: "length s \<le> k"
  have dw: "length (dropWhile is_space s) \<le> k" using l length_dropWhile_le [of is_space s] by linarith
  have int: "int n < 10 ^ k" if "n < 10 ^ k" for n using that by (metis of_nat_less_iff of_nat_numeral of_nat_power)
  show ?thesis
  proof (cases "dropWhile is_space s")
    case (Cons c cs)
    then have "read_digits cs < 10 ^ k" and "read_digits (c # cs) < 10 ^ k"
      using dw by (auto intro!: read_digits_bound)
    then have "int (read_digits cs) < 10 ^ k" and "int (read_digits (c # cs)) < 10 ^ k" by (simp_all add: int)
    moreover have "- int (read_digits cs) < 10 ^ k"
    proof -
      have "- int (read_digits cs) \<le> 0" by simp
      also have "(0::int) < 10 ^ k" by simp
      finally show ?thesis .
    qed
    ultimately show ?thesis using Cons by (simp add: atol_def)
  next
    case Nil
    show ?thesis unfolding atol_def Nil by simp
  qed
qed

lemma segment_read:
  assumes "segment inp = Some (d, rest)"
  shows "getRequestPayloadSegment inp = Some (d @ [NUL], length d, rest)" and "length d < 10 ^ 10"
proof -
  let ?meta = "fst (readn inp METADATA_SIZE)"
  have "length ?meta = 10" by (simp add: readn_def METADATA_SIZE_def)
  then have "length (c_string ?meta) \<le> 10" using length_c_string [of ?meta] by linarith
  then have b: "atol (c_string ?meta) < 10 ^ 10" by (rule atol_bound)
  obtain buf n where g: "getRequestPayloadSegment inp = Some (buf, n, rest)" and d: "d = take n buf"
    using assms by (auto simp: segment_def)
  then have buf: "buf = d @ [NUL] \<and> n = length d" and n: "n = nat (atol (c_string ?meta))" "0 \<le> atol (c_string ?meta)"
    by (auto simp: getRequestPayloadSegment_def readn_def Let_def split: if_splits)
  from buf show "getRequestPayloadSegment inp = Some (d @ [NUL], length d, rest)" using g by simp
  have "int n = atol (c_string ?meta)" using n by (simp only: int_nat_eq if_True)
  then have "int n < 10 ^ 10" using b by simp
  then show "length d < 10 ^ 10" using buf by simp
qed

section \<open>Messages\<close>

lemma take_code: "1 \<le> code \<Longrightarrow> code \<le> 9 \<Longrightarrow> take 1 (show_nat code) = show_nat code"
  by (simp add: show_nat.simps)

lemma send_code: "1 \<le> code \<Longrightarrow> code \<le> 9 \<Longrightarrow> SEND_RESPONSE_CODE c code = [code_msg c code]"
  unfolding SEND_RESPONSE_CODE_def code_msg_def by (simp only: take_code)

lemmas code_defs = OK_def FILE_NOT_FOUND_def FORBIDDEN_def FILE_TOO_BIG_def BAD_REQUEST_def ALREADY_EXISTS_def

lemma send_codes [simp]:
  "SEND_RESPONSE_CODE c OK = [code_msg c 1]" "SEND_RESPONSE_CODE c FILE_NOT_FOUND = [code_msg c 2]"
  "SEND_RESPONSE_CODE c FORBIDDEN = [code_msg c 3]" "SEND_RESPONSE_CODE c FILE_TOO_BIG = [code_msg c 4]"
  "SEND_RESPONSE_CODE c BAD_REQUEST = [code_msg c 6]" "SEND_RESPONSE_CODE c ALREADY_EXISTS = [code_msg c 7]"
  unfolding code_defs by (rule send_code; simp)+

lemma error_code [simp]: "HANDLE_REQ_ERROR c e = error_out c e"
  by (cases e) (simp_all add: error_out_def)

lemma notify_code [simp]:
  "NOTIFY_PENDING_CLIENTS cs OK = notify_out cs 1" "NOTIFY_PENDING_CLIENTS cs FILE_NOT_FOUND = notify_out cs 2"
  by (induction cs) (simp_all add: notify_out_def)

lemma pad10_zero: "pad10 0 = ''0000000000''"
proof -
  have "show_nat 0 = [CHR ''0'']" by (simp add: show_nat.simps zero_digit)
  moreover have "replicate 9 (CHR ''0'') = ''000000000''" by code_simp
  ultimately show ?thesis by (simp add: pad10_def)
qed

lemma no_more [simp]: "Send c NO_MORE_CONTENT = end_msg c"
  by (simp add: end_msg_def NO_MORE_CONTENT_def pad10_zero)

section \<open>Sizes\<close>

text \<open>The limits of the configuration under which every length fits its ten digits.\<close>

definition config_ok :: "fstore \<Rightarrow> bool" where
  "config_ok fs \<longleftrightarrow> f_maxSize fs \<le> 3 * 10 ^ 9 \<and> f_maxNum fs \<le> 10 ^ 9"

lemma csize_le_total: "f \<in> set fs \<Longrightarrow> csize f \<le> total_size fs"
  by (induction fs) auto

lemma ok_transmissible:
  assumes "fs_ok fs" and "config_ok fs" and "f \<in> set (f_files fs)"
  shows "transmissible f" and "length (a_data f) \<le> 9 * 10 ^ 9" and "length (a_path f) \<le> PATH_LIMIT"
proof -
  have "length (a_data f) \<le> 3 * csize f" using length_rle_spec_lower by (simp add: csize_def)
  also have "csize f \<le> f_maxSize fs"
    using csize_le_total [OF assms(3)] assms(1) unfolding fs_ok_def by linarith
  finally show l: "length (a_data f) \<le> 9 * 10 ^ 9" using assms(2) by (simp add: config_ok_def)
  show p: "length (a_path f) \<le> PATH_LIMIT" using assms(1,3) by (simp add: fs_ok_def file_ok_def)
  have "a_data f \<noteq> [NUL]" using assms(1,3) by (simp add: fs_ok_def file_ok_def)
  then show "transmissible f" using l p by (simp add: transmissible_def PATH_LIMIT_def)
qed

lemma length_response:
  assumes "\<And>f. f \<in> set fs \<Longrightarrow> length (serialize f) \<le> k"
  shows "length (response fs) \<le> length fs * k"
  using assms by (induction fs) (auto simp: response_def intro!: add_mono)

lemma response_bound:
  assumes ok: "fs_ok fs" and conf: "config_ok fs"
  shows "length (response (first_files k (f_files fs))) < 10 ^ 20"
proof -
  let ?sent = "first_files k (f_files fs)"
  have sub: "set ?sent \<subseteq> set (f_files fs)" using set_take_subset [of "nat k" "f_files fs"] by (auto simp: first_files_def)
  have "length (serialize f) \<le> 10 ^ 10" if "f \<in> set ?sent" for f
  proof -
    have f: "f \<in> set (f_files fs)" using that sub by blast
    note t = ok_transmissible [OF ok conf f]
    show ?thesis using t(2,3) by (simp add: length_serialize [OF t(1)] PATH_LIMIT_def)
  qed
  then have "length (response ?sent) \<le> length ?sent * 10 ^ 10" by (rule length_response)
  moreover have "length ?sent \<le> 10 ^ 9"
    using ok conf by (simp add: first_files_def fs_ok_def config_ok_def min_def)
  ultimately have "length (response ?sent) \<le> 10 ^ 9 * 10 ^ 10"
    using mult_right_mono [of "length ?sent" "10 ^ 9" "10 ^ 10"] by linarith
  then show ?thesis by simp
qed

section \<open>The evicted files\<close>

lemma memcpy_buffer:
  "length cs \<le> n \<Longrightarrow> memcpy (calloc n) 0 cs = Some (cs @ calloc (n - length cs))"
  using memcpy_calloc [of cs n "[]"] by simp

lemma take_pad10: "n < 10 ^ 10 \<Longrightarrow> take 10 (pad10 n) = pad10 n"
  by (simp add: length_pad10)

lemma NUL_pad10: "NUL \<notin> set (pad10 n)"
  using digits_show_nat [of n] digit_not_NUL by (auto simp: pad10_def)

lemma send_file:
  assumes nok: "node_ok n" and tr: "transmissible (abs_file n)" and p: "NUL \<notin> set (pathname n)"
  shows "SEND_EVICTED_FILE c n (file_data n) = Some [Send c (serialize (abs_file n))]"
proof -
  let ?hdr = "pad10 (length (pathname n)) @ pathname n @ pad10 (uncompressedSize n)"
  let ?h = "METADATA_SIZE + length (pathname n) + METADATA_SIZE"
  have us: "uncompressedSize n = length (file_data n)" using nok by (simp add: node_ok_def content_ok_def)
  have l: "length (pathname n) < 10 ^ 10" "length (file_data n) < 10 ^ 10"
    using tr by (simp_all add: transmissible_def)
  have hl: "length ?hdr = ?h" using l by (simp add: us length_pad10 METADATA_SIZE_def)
  then have th: "take ?h ?hdr = ?hdr" by simp
  have 1: "memcpy (calloc (?h + uncompressedSize n + 1)) 0 ?hdr = Some (?hdr @ calloc (uncompressedSize n + 1))"
    using memcpy_buffer [of ?hdr "?h + uncompressedSize n + 1"] unfolding hl by simp
  have cs: "c_string (?hdr @ calloc (uncompressedSize n + 1)) = ?hdr"
    unfolding calloc_def c_string_zeros by (rule c_string_id) (simp add: p NUL_pad10)
  have 2: "memcpy (?hdr @ calloc (uncompressedSize n + 1)) (length ?hdr) (file_data n) =
      Some (?hdr @ file_data n @ calloc 1)"
    by (subst memcpy_calloc) (simp_all add: us)
  have 3: "take (?h + uncompressedSize n) (?hdr @ file_data n @ calloc 1) = ?hdr @ file_data n"
    using hl by (simp add: us)
  show ?thesis
    unfolding SEND_EVICTED_FILE_def Let_def th 1 bind.bind_lunit cs
    using 2 3 by (simp add: us serialize_def)
qed

lemma send_evicted_refines:
  assumes "evicted_rep s ep es evs" and "sim s xs fs" and "set es \<inter> set xs = {}"
    and "\<forall>f \<in> set evs. transmissible f \<and> NUL \<notin> set (a_path f)"
  shows "\<exists>s'. send_evicted s c ep = Some (s', map (\<lambda>f. Send c (serialize f)) evs) \<and> sim s' xs fs"
  using assms
proof (induction es arbitrary: s ep evs)
  case Nil
  then show ?case by (simp add: evicted_rep_def send_evicted.simps)
next
  case (Cons e es)
  obtain n where ep: "ep = e" "e \<noteq> NULL" and n: "heap s e = Some n" and nxt: "sll (heap s) (nextPtr n) es"
    and d: "e \<notin> set es" "distinct es" and nok: "node_ok n"
    using Cons.prems(1) by (auto simp: evicted_rep_def)
  obtain evs' where evs: "evs = abs_file n # evs'" and ok: "\<forall>e \<in> set es. node_ok (node_at s e)"
    and evs': "map (\<lambda>e. abs_file (node_at s e)) es = evs'"
    using Cons.prems(1) n by (auto simp: evicted_rep_def)
  have tr: "transmissible (abs_file n)" and p: "NUL \<notin> set (pathname n)"
    using Cons.prems(4) by (simp_all add: evs)
  let ?s = "deallocFile s e"
  have "evicted_rep s (nextPtr n) es evs'" using nxt d ok evs' by (simp add: evicted_rep_def)
  then have "evicted_rep ?s (nextPtr n) es evs'"
    by (rule evicted_rep_frame) (use d in \<open>auto simp: deallocFile_def\<close>)
  moreover have "sim ?s xs fs"
    using sim_alloc [OF Cons.prems(2), of e None] Cons.prems(3) by (simp add: deallocFile_def)
  ultimately obtain s' where s': "send_evicted ?s c (nextPtr n) = Some (s', map (\<lambda>f. Send c (serialize f)) evs')"
    "sim s' xs fs"
    using Cons.IH [of ?s "nextPtr n" evs'] Cons.prems(3,4) evs by auto
  have "RLEdecompress (content n) (contentSize n) (uncompressedSize n) 0 = Some (file_data n)"
    using file_ok_decode [OF nok, of 0] tr by (simp add: transmissible_def calloc_def)
  then have "send_evicted s c ep = Some (s', map (\<lambda>f. Send c (serialize f)) evs)"
    using ep n s'(1) send_file [OF nok tr p] by (subst send_evicted.simps) (simp add: deref_def evs)
  then show ?case using s'(2) by blast
qed

text \<open>What the evictions of a write hand back are files of the store.\<close>

lemma spec_evict_files:
  assumes "spec_evict env path need requestor fs notify evs = (fs', notify', evs')"
  shows "set evs' \<subseteq> set evs \<union> (\<lambda>f. f\<lparr>a_open := []\<rparr>) ` set (f_files fs)"
  using assms
proof (induction env path need requestor fs notify evs rule: spec_evict.induct)
  case (1 env path need requestor fs notify evs)
  show ?case
  proof (cases "f_maxSize fs < total_size (a_remove path (f_files fs)) + need")
    case True
    show ?thesis
    proof (cases "a_victim (f_algo fs) (Some path) (f_files fs)")
      case (Some v)
      have v: "v \<in> set (f_files fs)" using a_victim_in [OF Some] by auto
      have "set (a_remove (a_path v) (f_files fs)) \<subseteq> set (f_files fs)" by (auto simp: a_remove_def)
      then show ?thesis
        using 1(1) [OF True Some] 1(2) True Some v
        by (subst (asm) spec_evict.simps) (auto simp: logged_def)
    qed (use 1(2) True in \<open>auto simp: spec_evict.simps [of env]\<close>)
  qed (use 1(2) in \<open>auto simp: spec_evict.simps [of env]\<close>)
qed

lemma spec_write_evicted:
  assumes ok: "fs_ok fs" and conf: "config_ok fs"
    and spec: "spec_write env fs path d requestor = (r, notify, evs, fs')"
  shows "\<forall>f \<in> set evs. transmissible f \<and> NUL \<notin> set (a_path f)"
proof (cases "evs = []")
  case False
  have 1: "transmissible (f\<lparr>a_open := []\<rparr>) \<and> NUL \<notin> set (a_path f)"
    if "f \<in> set (f_files (upd path (touch env) fs))" for f
  proof -
    have ok': "fs_ok (upd path (touch env) fs)" by (rule fs_ok_upd_touch [OF ok])
    moreover have "config_ok (upd path (touch env) fs)" using conf by (simp add: config_ok_def upd_def)
    ultimately have "transmissible f" using that by (rule ok_transmissible)
    moreover have "file_ok f" using ok' that by (simp add: fs_ok_def)
    ultimately show ?thesis by (simp add: transmissible_def file_ok_def)
  qed
  obtain f where f: "a_lookup (f_files fs) path = Some f"
    using spec False by (auto simp: spec_write_def split: if_splits option.splits)
  obtain fs2 n2 ev2 where ev: "spec_evict env path (length (rle_spec (a_data f @ d))) requestor
      (upd path (touch env) fs) [] [] = (fs2, n2, ev2)"
    using prod_cases3 by blast
  have "evs = ev2" using spec False f ev by (auto simp: spec_write_def Let_def split: if_splits)
  then have "set evs \<subseteq> (\<lambda>f. f\<lparr>a_open := []\<rparr>) ` set (f_files (upd path (touch env) fs))"
    using spec_evict_files [OF ev] by simp
  then show ?thesis using 1 by fastforce
qed simp

end
