(* ===== verification/ServerRequests.thy ===== *)
theory ServerRequests
  imports ServerRefinement
begin

text \<open>
  Every request is served as the protocol says: \<open>serve_refines\<close>, composed from one lemma per kind of
  request.
\<close>

section \<open>Requests within the limits\<close>

fun request_path :: "request \<Rightarrow> cstring" where
  "request_path (Open path _) = path"
| "request_path (CloseFile path) = path"
| "request_path (Read path) = path"
| "request_path (WriteFile path _) = path"
| "request_path (Append path _) = path"
| "request_path (Lock path) = path"
| "request_path (Unlock path) = path"
| "request_path (Remove path) = path"
| "request_path _ = []"

definition caller_ok :: "env \<Rightarrow> fd \<Rightarrow> bool" where
  "caller_ok env c \<longleftrightarrow> \<bar>self env\<bar> < 10 ^ 20 \<and> 0 < c \<and> c < 2 ^ 31"

text \<open>A read of many files must not hit the overflow of \<open>readNFilesHandler\<close>.\<close>

fun readable :: "int \<Rightarrow> fstore \<Rightarrow> request \<Rightarrow> bool" where
  "readable unset fs (ReadN k) =
     (\<not> overflows 0 (first_files (case k of Some n \<Rightarrow> n | None \<Rightarrow> unset) (f_files fs)))"
| "readable unset fs _ = True"

definition request_fits :: "int \<Rightarrow> fstore \<Rightarrow> request \<Rightarrow> bool" where
  "request_fits unset fs r \<longleftrightarrow> length (request_path r) \<le> PATH_LIMIT \<and> readable unset fs r"

lemma caller_request: "caller_ok env c \<Longrightarrow> length path \<le> PATH_LIMIT \<Longrightarrow> request_ok env path c"
  by (simp add: caller_ok_def request_ok_def)

section \<open>One lemma per request\<close>

lemma number_isNumber:
  "number s = Some k \<Longrightarrow> isNumber s = (0, k)" "number s = None \<Longrightarrow> fst (isNumber s) \<noteq> 0"
  by (cases "isNumber s"; simp add: number_def split: if_splits)+

lemma serve_open_bad:
  assumes "number (c_string (take 1 inp)) = None"
  shows "serve_open env s c path inp = Some (s, [code_msg c 6], drop 1 inp)"
  using number_isNumber(2) [OF assms] by (simp add: serve_open_def Let_def split: prod.splits) auto

lemma serve_open_refines:
  assumes sim: "sim s xs fs" and ok: "fs_ok fs" and al: "alloc_ok env s" and req: "request_ok env path c"
    and flags: "number (c_string (take 1 inp)) = Some flags"
    and spec: "spec_request env unset fs c (Open path (Some flags)) = (fs', out)"
  shows "\<exists>s' xs'. serve_open env s c path inp = Some (s', out, drop 1 inp) \<and> sim s' xs' fs'"
proof -
  obtain r notify fs1 where sp: "spec_open env fs path flags [] c = (r, notify, fs1)" using prod_cases3 by blast
  obtain s' xs' where "openFileHandler env s path flags [] c = Some (r, notify, s')" "sim s' xs' fs1"
    using openFile_refines [OF sim ok al req sp] by blast
  then show ?thesis
    using spec number_isNumber(1) [OF flags] sp
    by (intro exI [of _ s'] exI [of _ xs']) (auto simp: serve_open_def split: sum.splits)
qed

lemma serve_close_refines:
  assumes sim: "sim s xs fs" and req: "request_ok env path c"
    and spec: "spec_request env unset fs c (CloseFile path) = (fs', out)"
  shows "\<exists>s'. serve_close env s c path = Some (s', out) \<and> sim s' xs fs'"
proof -
  obtain r fs1 where sp: "spec_close env fs path c = (r, fs1)" by fastforce
  then show ?thesis
    using closeFile_refines [OF sim req sp] spec by (auto simp: serve_close_def split: sum.splits)
qed

lemma serve_read_refines:
  assumes sim: "sim s xs fs" and ok: "fs_ok fs" and conf: "config_ok fs" and req: "request_ok env path c"
    and spec: "spec_request env unset fs c (Read path) = (fs', out)"
  shows "\<exists>s'. serve_read env s c path = Some (s', out) \<and> sim s' xs fs'"
proof -
  obtain r fs1 where sp: "spec_read env fs path c = (r, fs1)" by fastforce
  obtain s' where s': "readFileHandler env s path c = Some (case r of Inl e \<Rightarrow> Inl e | Inr d \<Rightarrow> Inr (d, length d), s')"
    "sim s' xs fs1"
    using readFile_refines [OF sim ok req sp] by blast
  show ?thesis
  proof (cases r)
    case (Inl e)
    then show ?thesis using s' spec sp by (auto simp: serve_read_def)
  next
    case (Inr d)
    obtain f where "a_lookup (f_files fs) path = Some f" "d = a_data f"
      using sp Inr by (auto simp: spec_read_def split: if_splits option.splits)
    then have "length d < 10 ^ 10"
      using ok_transmissible(1) [OF ok conf] a_lookup_in by (auto simp: transmissible_def)
    then have l: "length (pad10 (length d)) = METADATA_SIZE" and t: "take METADATA_SIZE (pad10 (length d)) = pad10 (length d)"
      by (simp_all add: length_pad10 METADATA_SIZE_def)
    have 1: "memcpy (calloc (METADATA_SIZE + length d + 1)) 0 (pad10 (length d)) = Some (pad10 (length d) @ calloc (length d + 1))"
      using memcpy_buffer [of "pad10 (length d)" "METADATA_SIZE + length d + 1"] unfolding l by simp
    have 2: "memcpy (pad10 (length d) @ calloc (length d + 1)) METADATA_SIZE d = Some (pad10 (length d) @ d @ calloc 1)"
      using memcpy_calloc [of d "length d + 1" "pad10 (length d)"] unfolding l by simp
    have "serve_read env s c path = Some (s', [code_msg c 1, Send c (pad10 (length d) @ d)])"
      using s'(1) Inr 1 2 l by (simp add: serve_read_def t)
    then show ?thesis using s'(2) spec sp Inr by auto
  qed
qed

lemma serve_read_n_refines:
  assumes sim: "sim s xs fs" and ok: "fs_ok fs" and conf: "config_ok fs" and caller: "caller_ok env c"
    and k: "k = number (c_string (take METADATA_SIZE inp))" and rd: "readable unset fs (ReadN k)"
    and mem: "buffers_ok env" and spec: "spec_request env unset fs c (ReadN k) = (fs', out)"
  shows "\<exists>s'. serve_read_n env unset s c inp = Some (s', out, drop METADATA_SIZE inp) \<and> sim s' xs fs'"
proof -
  let ?u = "case k of Some n \<Rightarrow> n | None \<Rightarrow> unset"
  let ?arg = "c_string (take METADATA_SIZE inp)"
  let ?e = "if fst (isNumber ?arg) = 2 then Some ERANGE else None"
  obtain r resp fs1 where sp: "spec_read_n env None fs ?u c = (r, resp, fs1)" using prod_cases3 by blast
  have resp: "resp = response (first_files ?u (f_files fs))" and fs1: "fs1 = fs'"
    and out: "out = (if k = None then [code_msg c 6] else []) @ [code_msg c 1, Send c resp, end_msg c]"
    using sp spec by (auto simp: spec_read_n_def Let_def)
  obtain r' where sp': "spec_read_n env ?e fs ?u c = (r', resp, fs1)"
    using sp by (auto simp: spec_read_n_def Let_def)
  have env: "\<bar>self env\<bar> < 10 ^ 20" "\<bar>c\<bar> < 2 ^ 31" using caller by (simp_all add: caller_ok_def)
  have tr: "\<forall>f \<in> set (f_files fs). transmissible f" using ok_transmissible(1) [OF ok conf] by blast
  obtain buf s' where h: "readNFilesHandler env ?e s ?u c = Some (r', Some (Some buf, length resp), s')"
    and b: "take (length resp) buf = resp" and s': "sim s' xs fs1"
    using readNFiles_refines [OF sim tr mem env response_bound [OF ok conf] sp'] rd by auto
  have lb: "length resp \<le> length buf" using b by (metis length_take min.cobounded1)
  have arg: "c_string (fst (readn inp METADATA_SIZE)) = ?arg" "snd (readn inp METADATA_SIZE) = drop METADATA_SIZE inp"
    by (simp_all add: readn_def)
  have u: "?u = (if fst (isNumber ?arg) = 0 then snd (isNumber ?arg) else unset)"
    and none: "(k = None) = (fst (isNumber ?arg) \<noteq> 0)"
    by (simp_all add: k number_def)
  have "serve_read_n env unset s c inp = Some (s', out, drop METADATA_SIZE inp)"
    using h b lb unfolding serve_read_n_def out none u
    by (cases "fst (isNumber ?arg) = 0") (simp_all add: case_prod_beta Let_def arg)
  then show ?thesis using s' fs1 by blast
qed

lemma serve_append_refines:
  assumes sim: "sim s xs fs" and ok: "fs_ok fs" and conf: "config_ok fs" and req: "request_ok env path c"
    and seg: "segment inp = Some (d, rest)"
    and spec: "spec_append env fs c path d = (fs', out)"
  shows "\<exists>s' xs'. serve_append env s c path inp = Some (s', out, rest) \<and> sim s' xs' fs'"
proof -
  note g = segment_read [OF seg]
  obtain r notify evs fs1 where sp: "spec_write env fs path d c = (r, notify, evs, fs1)" using prod_cases4 by blast
  have "spec_write env fs path (take (length d) (d @ [NUL])) c = (r, notify, evs, fs1)" using sp by simp
  then obtain s1 xs' ep es where w: "writeToFileHandler env s path (d @ [NUL]) (length d) [] NULL c = Some (r, notify, ep, s1)"
    and s1: "sim s1 xs' fs1" and ev: "evicted_rep s1 ep es evs" "set es \<inter> set xs' = {}"
    using writeToFile_refines [OF sim ok req, of "length d" "d @ [NUL]"] g(2) by auto
  show ?thesis
  proof (cases r)
    case (Inl e)
    then show ?thesis using w s1 g(1) spec sp by (auto simp: serve_append_def spec_append_def)
  next
    case (Inr k)
    obtain s' where "send_evicted s1 c ep = Some (s', map (\<lambda>f. Send c (serialize f)) evs)" "sim s' xs' fs1"
      using send_evicted_refines [OF ev(1) s1 ev(2) spec_write_evicted [OF ok conf sp]] by blast
    then show ?thesis using w g(1) spec sp Inr by (auto simp: serve_append_def spec_append_def)
  qed
qed

lemma serve_write_refines:
  assumes sim: "sim s xs fs" and ok: "fs_ok fs" and conf: "config_ok fs" and req: "request_ok env path c"
    and seg: "segment inp = Some (d, rest)"
    and spec: "spec_request env unset fs c (WriteFile path d) = (fs', out)"
  shows "\<exists>s' xs'. serve_write env s c path inp = Some (s', out, rest) \<and> sim s' xs' fs'"
proof (cases "spec_first_write fs path c")
  case True
  then show ?thesis
    using serve_append_refines [OF sim ok conf req seg, of fs' out] spec testFirstWrite_refines [OF sim, of path c]
    by (simp add: serve_write_def)
next
  case False
  then show ?thesis
    using segment_read(1) [OF seg] spec testFirstWrite_refines [OF sim, of path c] sim
    by (auto simp: serve_write_def)
qed

lemma spec_lock_queued: "spec_lock env fs path c = (r, fs') \<Longrightarrow> r = Inr (-2) \<longleftrightarrow> queued fs c (Lock path)"
  by (auto simp: spec_lock_def queued_def split: if_splits option.splits)

lemma serve_lock_refines:
  assumes sim: "sim s xs fs" and req: "request_ok env path c" and pos: "0 < c"
    and spec: "spec_request env unset fs c (Lock path) = (fs', out)"
  shows "\<exists>s'. serve_lock env s c path = Some (s', out, \<not> queued fs c (Lock path)) \<and> sim s' xs fs'"
proof -
  obtain r fs1 where sp: "spec_lock env fs path c = (r, fs1)" by fastforce
  then show ?thesis
    using lockFile_refines [OF sim req pos sp] spec spec_lock_queued [OF sp]
    by (cases r) (auto simp: serve_lock_def)
qed

lemma serve_unlock_refines:
  assumes sim: "sim s xs fs" and req: "request_ok env path c"
    and spec: "spec_request env unset fs c (Unlock path) = (fs', out)"
  shows "\<exists>s'. serve_unlock env s c path = Some (s', out) \<and> sim s' xs fs'"
proof -
  obtain r w fs1 where sp: "spec_unlock env fs path 0 c = (r, w, fs1)" using prod_cases3 by blast
  then show ?thesis
    using unlockFile_refines [OF sim req sp] spec
    by (cases r) (auto simp: serve_unlock_def notify_out_def)
qed

lemma serve_remove_refines:
  assumes sim: "sim s xs fs" and req: "request_ok env path c"
    and spec: "spec_request env unset fs c (Remove path) = (fs', out)"
  shows "\<exists>s' xs'. serve_remove env s c path = Some (s', out) \<and> sim s' xs' fs'"
proof -
  obtain r notify fs1 where sp: "spec_remove env fs path [] c = (r, notify, fs1)" using prod_cases3 by blast
  then show ?thesis
    using removeFile_refines [OF sim req sp] spec
    by (cases r) (auto simp: serve_remove_def)
qed

section \<open>The worker\<close>

lemma queued_only [simp]:
  "\<not> queued fs c (Open p k)" "\<not> queued fs c (CloseFile p)" "\<not> queued fs c (Read p)" "\<not> queued fs c (ReadN k)"
  "\<not> queued fs c (WriteFile p d)" "\<not> queued fs c (Append p d)" "\<not> queued fs c (Unlock p)"
  "\<not> queued fs c (Remove p)" "\<not> queued fs c Unknown" "\<not> queued fs c Exit"
  by (simp_all add: queued_def)

lemmas request_codes = OPEN_FILE_def READ_FILE_def WRITE_FILE_def APPEND_TO_FILE_def LOCK_FILE_def
  UNLOCK_FILE_def CLOSE_FILE_def REMOVE_FILE_def

lemma decode_file_cases:
  assumes "decode_file code path inp = Some (r, rest)"
  obtains (c_open) "code = OPEN_FILE" "r = Open path (number (c_string (take 1 inp)))" "rest = drop 1 inp"
  | (c_close) "code = CLOSE_FILE" "r = CloseFile path" "rest = inp"
  | (c_read) "code = READ_FILE" "r = Read path" "rest = inp"
  | (c_write) d where "code = WRITE_FILE" "r = WriteFile path d" "segment inp = Some (d, rest)"
  | (c_append) d where "code = APPEND_TO_FILE" "r = Append path d" "segment inp = Some (d, rest)"
  | (c_lock) "code = LOCK_FILE" "r = Lock path" "rest = inp"
  | (c_unlock) "code = UNLOCK_FILE" "r = Unlock path" "rest = inp"
  | (c_remove) "code = REMOVE_FILE" "r = Remove path" "rest = inp"
  | (c_unknown) "code \<notin> {OPEN_FILE, READ_FILE, WRITE_FILE, APPEND_TO_FILE, LOCK_FILE, UNLOCK_FILE, CLOSE_FILE, REMOVE_FILE}"
      "r = Unknown" "rest = inp"
  using assms unfolding decode_file_def by (auto split: if_splits)

lemma serve_file_refines:
  assumes sim: "sim s xs fs" and ok: "fs_ok fs" and conf: "config_ok fs" and al: "code = OPEN_FILE \<longrightarrow> alloc_ok env s"
    and caller: "caller_ok env c" and len: "length path \<le> PATH_LIMIT"
    and dec: "decode_file code path inp = Some (r, rest)" and spec: "spec_request env unset fs c r = (fs', out)"
  shows "\<exists>s' xs'. serve_file env s c code path inp = Some (s', out, rest, \<not> queued fs c r) \<and> sim s' xs' fs'"
proof -
  note req = caller_request [OF caller len]
  have pos: "0 < c" using caller by (simp add: caller_ok_def)
  from dec show ?thesis
  proof (cases rule: decode_file_cases)
    case c_open
    show ?thesis
    proof (cases "number (c_string (take 1 inp))")
      case None
      then show ?thesis using serve_open_bad [OF None] c_open spec sim by (auto simp: serve_file_def)
    next
      case (Some k)
      then show ?thesis using serve_open_refines [OF sim ok _ req Some] al c_open spec by (fastforce simp: serve_file_def)
    qed
  next
    case c_close
    then show ?thesis using serve_close_refines [OF sim req] spec by (fastforce simp: serve_file_def request_codes)
  next
    case c_read
    then show ?thesis using serve_read_refines [OF sim ok conf req] spec by (fastforce simp: serve_file_def request_codes)
  next
    case (c_write d)
    then show ?thesis
      using serve_write_refines [OF sim ok conf req c_write(3)] spec by (fastforce simp: serve_file_def request_codes)
  next
    case (c_append d)
    then show ?thesis
      using serve_append_refines [OF sim ok conf req c_append(3)] spec by (fastforce simp: serve_file_def request_codes)
  next
    case c_lock
    then show ?thesis using serve_lock_refines [OF sim req pos] spec by (fastforce simp: serve_file_def request_codes)
  next
    case c_unlock
    then show ?thesis using serve_unlock_refines [OF sim req] spec by (fastforce simp: serve_file_def request_codes)
  next
    case c_remove
    then show ?thesis using serve_remove_refines [OF sim req] spec by (fastforce simp: serve_file_def request_codes)
  next
    case c_unknown
    then show ?thesis using sim spec by (auto simp: serve_file_def)
  qed
qed

lemma serve_exit_refines:
  assumes sim: "sim s xs fs" and ok: "fs_ok fs" and pos: "0 < c"
    and spec: "spec_serve env unset fs c Exit = (fs', out)"
  shows "\<exists>s'. serve env unset s c [] = Some (s', out, []) \<and> sim s' xs fs'"
proof -
  obtain r notify fs1 where sp: "spec_exit fs [] c = (r, notify, fs1)" using prod_cases3 by blast
  then have r: "r = Inr 0" using pos by (auto simp: spec_exit_def)
  obtain s' where "clientExitHandler s [] c = Some (r, notify, s')" "sim s' xs fs1"
    using clientExit_refines [OF sim ok sp] by blast
  then show ?thesis using sp r spec by (auto simp: serve_def spec_serve_def)
qed

lemma decode_file_request: "decode_file code path inp = Some (r, rest) \<Longrightarrow> r \<noteq> Exit \<and> (\<forall>k. r \<noteq> ReadN k)"
  by (erule decode_file_cases) simp_all

text \<open>Only an open may allocate a node.\<close>

lemma serve_refines:
  assumes sim: "sim s xs fs" and ok: "fs_ok fs" and conf: "config_ok fs" and al: "(\<exists>path k. r = Open path k) \<longrightarrow> alloc_ok env s"
    and mem: "(\<exists>k. r = ReadN k) \<longrightarrow> buffers_ok env" and caller: "caller_ok env c" and dec: "decode inp = Some (r, rest)" and fits: "request_fits unset fs r"
    and spec: "spec_serve env unset fs c r = (fs', out)"
  shows "\<exists>s' xs'. serve env unset s c inp = Some (s', out, rest) \<and> sim s' xs' fs'"
proof (cases inp)
  case Nil
  then have r: "r = Exit" "rest = []" using dec by (simp_all add: decode_def)
  have "0 < c" using caller by (simp add: caller_ok_def)
  from serve_exit_refines [OF sim ok this spec [unfolded r(1)]] show ?thesis using Nil r by blast
next
  case (Cons b inp')
  let ?code = "atol (c_string [b])"
  have cs: "c_string [b, NUL] = c_string [b]" using c_string_end [of "[b]"] by simp
  obtain fs1 out1 where sp: "spec_request env unset fs c r = (fs1, out1)" by fastforce
  show ?thesis
  proof (cases "?code = READ_N_FILES")
    case True
    let ?k = "number (c_string (take METADATA_SIZE inp'))"
    have r: "r = ReadN ?k" "rest = drop METADATA_SIZE inp'" using dec Cons True by (auto simp: decode_def)
    have "readable unset fs (ReadN ?k)" using fits r by (simp add: request_fits_def)
    moreover have "buffers_ok env" using mem r(1) by blast
    ultimately have "\<exists>s'. serve_read_n env unset s c inp' = Some (s', out1, drop METADATA_SIZE inp') \<and> sim s' xs fs1"
      by (intro serve_read_n_refines [OF sim ok conf caller refl _ _ sp [unfolded r(1)]])
    then
    obtain s' where "serve_read_n env unset s c inp' = Some (s', out1, rest)" "sim s' xs fs1" using r(2) by blast
    then show ?thesis using spec sp Cons True r(1) cs by (auto simp: serve_def spec_serve_def)
  next
    case False
    obtain p inp2 where seg: "segment inp' = Some (p, inp2)" and df: "decode_file ?code (c_string p) inp2 = Some (r, rest)"
      using dec Cons False by (auto simp: decode_def Let_def split: option.splits)
    have "request_path r = c_string p \<or> r = Unknown" using df by (rule decode_file_cases) simp_all
    moreover have "r \<noteq> Exit" using decode_file_request [OF df] by simp
    moreover have "\<exists>s' xs'. serve_file env s c ?code (c_string p) inp2 = Some (s', out1, rest, \<not> queued fs c r) \<and> sim s' xs' fs1"
    proof (cases "r = Unknown")
      case True
      then have "serve_file env s c ?code (c_string p) inp2 = Some (s, out1, rest, True)" and "fs1 = fs"
        using df sp by (auto elim!: decode_file_cases simp: serve_file_def)
      then show ?thesis using sim True by auto
    next
      case False
      then have "length (c_string p) \<le> PATH_LIMIT" using calculation fits by (auto simp: request_fits_def)
      moreover have "?code = OPEN_FILE \<longrightarrow> alloc_ok env s" using al df by (auto simp: decode_file_def)
      ultimately show ?thesis using serve_file_refines [OF sim ok conf _ caller _ df sp] by blast
    qed
    ultimately show ?thesis
      using segment_read(1) [OF seg] spec sp Cons False cs
      by (fastforce simp: serve_def spec_serve_def Let_def)
  qed
qed

lemma serve_request_refines:
  assumes "sim s xs fs" and "fs_ok fs" and "config_ok fs" and "alloc_ok env s" and "caller_ok env c"
    and "decode inp = Some (r, rest)" and "request_fits unset fs r" and "spec_serve env unset fs c r = (fs', out)"
    and "(\<exists>k. r = ReadN k) \<longrightarrow> buffers_ok env"
  shows "\<exists>s' xs'. serve env unset s c inp = Some (s', out, rest) \<and> sim s' xs' fs'"
  using assms(4) by (intro serve_refines [OF assms(1-3) _ assms(9) assms(5-8)]) blast

end
