(* ===== verification/Clients.thy ===== *)
theory Clients
  imports ServerRequests "HOL-Library.Multiset"
begin

text \<open>
  What a request does to the clients that wait for a lock and to the owners of the locks, on the
  abstract store: a client that stops waiting is announced on the pipe, one that starts waiting is
  not, and a lock passes only to the client that asks for it or to one that waited.
\<close>

section \<open>Waiting clients and lock owners\<close>

definition waiting :: "fstore \<Rightarrow> fd multiset" where
  "waiting fs = mset (concat (map a_wait (f_files fs)))"

definition owners :: "fstore \<Rightarrow> fd set" where
  "owners fs = a_lock ` set (f_files fs) - {0}"

lemma waiting_iff: "c \<in># waiting fs \<longleftrightarrow> (\<exists>f \<in> set (f_files fs). c \<in> set (a_wait f))"
  by (auto simp: waiting_def)

lemma waiting_irrelevant [simp]:
  "waiting (logged env op path outcome requestor n fs) = waiting fs"
  "waiting (fs\<lparr>f_topNum := k\<rparr>) = waiting fs" "waiting (fs\<lparr>f_topSize := k\<rparr>) = waiting fs"
  "waiting (fs\<lparr>f_victims := k\<rparr>) = waiting fs"
  by (simp_all add: waiting_def logged_def)

lemma owners_irrelevant [simp]:
  "owners (logged env op path outcome requestor n fs) = owners fs"
  "owners (fs\<lparr>f_topNum := k\<rparr>) = owners fs" "owners (fs\<lparr>f_topSize := k\<rparr>) = owners fs"
  "owners (fs\<lparr>f_victims := k\<rparr>) = owners fs"
  by (simp_all add: owners_def logged_def)

lemma waiting_files: "waiting (fs\<lparr>f_files := l, f_victims := k\<rparr>) = waiting (fs\<lparr>f_files := l\<rparr>)"
  by (simp add: waiting_def)

lemma owners_files: "owners (fs\<lparr>f_files := l, f_victims := k\<rparr>) = owners (fs\<lparr>f_files := l\<rparr>)"
  by (simp add: owners_def)

lemma waiting_reset [simp]: "waiting (fs\<lparr>f_files := a_reset l\<rparr>) = waiting (fs\<lparr>f_files := l\<rparr>)"
  by (simp add: waiting_def a_reset_def comp_def)

lemma owners_reset [simp]: "owners (fs\<lparr>f_files := a_reset l\<rparr>) = owners (fs\<lparr>f_files := l\<rparr>)"
  by (simp add: owners_def a_reset_def image_image)

text \<open>The file of a name splits the list.\<close>

lemma lookup_split:
  assumes "fs_ok fs" and "a_lookup (f_files fs) path = Some f"
  obtains us vs where "f_files fs = us @ f # vs" and "a_path f = path"
    and "\<And>g. a_update path g (f_files fs) = us @ g f # vs" and "a_remove path (f_files fs) = us @ vs"
proof -
  have f: "f \<in> set (f_files fs)" "a_path f = path" using a_lookup_in [OF assms(2)] by simp_all
  then obtain us vs where fs: "f_files fs = us @ f # vs" by (auto dest: split_list)
  have "distinct (map a_path (us @ f # vs))" using assms(1) by (simp add: fs_ok_def fs)
  from a_update_split(1,2) [OF this] show ?thesis using that fs f(2) by simp
qed

lemma waiting_upd:
  assumes "fs_ok fs" and "a_lookup (f_files fs) path = Some f"
  shows "waiting (upd path g fs) + mset (a_wait f) = waiting fs + mset (a_wait (g f))"
  by (rule lookup_split [OF assms]) (simp add: waiting_def upd_def)

lemma map_update_same: "(\<And>f. h (g f) = h f) \<Longrightarrow> map h (a_update p g fs) = map h fs"
  by (simp add: a_update_def)

lemma waiting_upd_same: "(\<And>f. a_wait (g f) = a_wait f) \<Longrightarrow> waiting (upd path g fs) = waiting fs"
  by (simp add: waiting_def upd_def map_update_same)

lemma waiting_remove:
  assumes "fs_ok fs" and "a_lookup (f_files fs) path = Some f"
  shows "waiting (fs\<lparr>f_files := a_remove path (f_files fs)\<rparr>) + mset (a_wait f) = waiting fs"
  by (rule lookup_split [OF assms]) (simp add: waiting_def)

lemma owners_upd: "owners (upd path g fs) \<subseteq> owners fs \<union> (a_lock ` g ` {f. a_lookup (f_files fs) path = Some f} - {0})"
  if "fs_ok fs"
proof
  fix x assume "x \<in> owners (upd path g fs)"
  then obtain f where f: "f \<in> set (f_files fs)" "x = a_lock (if a_path f = path then g f else f)" and x: "x \<noteq> 0"
    by (auto simp: owners_def upd_def a_update_def)
  show "x \<in> owners fs \<union> (a_lock ` g ` {f. a_lookup (f_files fs) path = Some f} - {0})"
  proof (cases "a_path f = path")
    case True
    then have "a_lookup (f_files fs) path = Some f"
      using f(1) that a_lookup_iff [of "f_files fs" path f] by (simp add: fs_ok_def)
    then show ?thesis using f(2) x True by auto
  qed (use f x in \<open>auto simp: owners_def\<close>)
qed

lemma owners_upd_same:
  assumes "\<And>f. a_lock (g f) = a_lock f"
  shows "owners (upd path g fs) = owners fs"
proof -
  have "set (map a_lock (a_update path g (f_files fs))) = set (map a_lock (f_files fs))"
    by (simp only: map_update_same [of a_lock g, OF assms])
  then show ?thesis by (simp add: owners_def upd_def)
qed

lemma owners_remove: "owners (fs\<lparr>f_files := a_remove p l\<rparr>) \<subseteq> owners (fs\<lparr>f_files := l\<rparr>)" for p l fs
  by (auto simp: owners_def a_remove_def)

lemma touch_fields [simp]:
  "a_wait (touch env f) = a_wait f" "a_lock (touch env f) = a_lock f" "a_open (touch env f) = a_open f"
  by (simp_all add: touch_def)

section \<open>Handlers\<close>

lemma make_room_clients:
  assumes ok: "fs_ok fs" and spec: "spec_make_room env c fs [] = (fs', notify)"
  shows "waiting fs' + mset notify = waiting fs" and "owners fs' \<subseteq> owners fs"
proof -
  have "waiting fs' + mset notify = waiting fs \<and> owners fs' \<subseteq> owners fs"
  proof (cases "length (f_files fs) = f_maxNum fs \<and> a_victim (f_algo fs) None (f_files fs) \<noteq> None")
    case True
    then obtain v where v: "a_victim (f_algo fs) None (f_files fs) = Some v" by blast
    have "v \<in> set (f_files fs)" using a_victim_in [OF v] by auto
    then have l: "a_lookup (f_files fs) (a_path v) = Some v"
      using ok a_lookup_iff [of "f_files fs" "a_path v" v] by (simp add: fs_ok_def)
    show ?thesis
      using spec True v waiting_remove [OF ok l] owners_remove [of "a_path v" "f_files fs" fs]
      by (auto simp: spec_make_room_def waiting_files owners_files)
  qed (use spec in \<open>auto simp: spec_make_room_def split: option.splits\<close>)
  then show "waiting fs' + mset notify = waiting fs" and "owners fs' \<subseteq> owners fs" by blast+
qed

lemma open_clients:
  assumes ok: "fs_ok fs" and mem: "mem_ok env" and spec: "spec_open env fs path flags [] c = (r, notify, fs')"
  shows "waiting fs' + (case r of Inl _ \<Rightarrow> {#} | Inr _ \<Rightarrow> mset notify) = waiting fs" and "owners fs' \<subseteq> insert c (owners fs)"
proof -
  have "waiting fs' + (case r of Inl _ \<Rightarrow> {#} | Inr _ \<Rightarrow> mset notify) = waiting fs \<and> owners fs' \<subseteq> insert c (owners fs)"
  proof (cases "path = [] \<or> c \<le> 0")
    case False
    show ?thesis
    proof (cases "a_lookup (f_files fs) path")
      case (Some f)
      let ?g = "\<lambda>f. f\<lparr>a_lock := c, a_open := a_open f @ [c]\<rparr>" and ?h = "\<lambda>f. f\<lparr>a_open := a_open f @ [c]\<rparr>"
      have "waiting (upd path ?g fs) = waiting fs" "waiting (upd path ?h fs) = waiting fs"
        by (simp_all add: waiting_upd_same)
      moreover have "owners (upd path ?g fs) \<subseteq> insert c (owners fs)" "owners (upd path ?h fs) = owners fs"
        using owners_upd [OF ok, of path ?g] by (auto simp: owners_upd_same)
      ultimately show ?thesis
        using spec False Some by (cases "IS_SET O_LOCK flags") (auto simp: spec_open_def Let_def split: if_splits)
    next
      case None
      obtain fs1 n1 where room: "spec_make_room env c fs [] = (fs1, n1)" by fastforce
      note m = make_room_clients [OF ok room]
      have "waiting (spec_add (new_file env path lock c) (logged env ''OPEN'' path 0 c 0 fs1)) = waiting fs1" for lock
        by (simp add: waiting_def spec_add_def new_file_def logged_def)
      moreover have "owners (spec_add (new_file env path lock c) (logged env ''OPEN'' path 0 c 0 fs1)) \<subseteq> insert c (owners fs1)" for lock
        by (auto simp: owners_def spec_add_def new_file_def logged_def)
      ultimately show ?thesis
        using spec False None room mem m by (fastforce simp: spec_open_def Let_def split: if_splits)
    qed
  qed (use spec in \<open>auto simp: spec_open_def\<close>)
  then show "waiting fs' + (case r of Inl _ \<Rightarrow> {#} | Inr _ \<Rightarrow> mset notify) = waiting fs" and "owners fs' \<subseteq> insert c (owners fs)"
    by blast+
qed

lemma read_clients: "spec_read env fs path c = (r, fs') \<Longrightarrow> waiting fs' = waiting fs \<and> owners fs' = owners fs"
  by (auto simp: spec_read_def waiting_upd_same owners_upd_same split: if_splits option.splits)

lemma close_clients: "spec_close env fs path c = (r, fs') \<Longrightarrow> waiting fs' = waiting fs \<and> owners fs' = owners fs"
  by (auto simp: spec_close_def waiting_upd_same owners_upd_same split: if_splits option.splits)

lemma read_n_clients: "spec_read_n env e fs k c = (r, resp, fs') \<Longrightarrow> waiting fs' = waiting fs \<and> owners fs' = owners fs"
  by (auto simp: spec_read_n_def Let_def)

lemma lock_clients:
  assumes ok: "fs_ok fs" and spec: "spec_lock env fs path c = (r, fs')"
  shows "waiting fs' = waiting fs + (if queued fs c (Lock path) then {#c#} else {#})" and "owners fs' \<subseteq> insert c (owners fs)"
proof -
  have "waiting fs' = waiting fs + (if queued fs c (Lock path) then {#c#} else {#}) \<and> owners fs' \<subseteq> insert c (owners fs)"
  proof (cases "a_lookup (f_files fs) path")
    case (Some f)
    let ?q = "\<lambda>f. f\<lparr>a_wait := a_wait f @ [c]\<rparr>" and ?g = "\<lambda>f. (touch env f)\<lparr>a_lock := c, a_first := 0\<rparr>"
    have "waiting (upd path ?q fs) = waiting fs + {#c#}" using waiting_upd [OF ok Some, of ?q] by simp
    moreover have "owners (upd path ?q fs) = owners fs" by (rule owners_upd_same) simp
    moreover have "waiting (upd path ?g fs) = waiting fs" by (rule waiting_upd_same) simp
    moreover have "owners (upd path ?g fs) \<subseteq> insert c (owners fs)" using owners_upd [OF ok, of path ?g] by auto
    ultimately show ?thesis using spec Some by (auto simp: spec_lock_def queued_def split: if_splits)
  qed (use spec in \<open>auto simp: spec_lock_def queued_def split: if_splits\<close>)
  then show "waiting fs' = waiting fs + (if queued fs c (Lock path) then {#c#} else {#})"
    and "owners fs' \<subseteq> insert c (owners fs)" by blast+
qed

text \<open>A lock goes to the first waiter, or becomes free.\<close>

lemma hand_over_fields [simp]:
  "a_lock (hand_over (touch env f)) = a_lock (hand_over f)" "a_wait (hand_over (touch env f)) = a_wait (hand_over f)"
  by (cases "a_wait f"; simp add: hand_over_def)+

lemma hand_over_lock: "a_lock (hand_over f) = 0 \<or> a_lock (hand_over f) \<in> set (a_wait f)"
  by (cases "a_wait f") (simp_all add: hand_over_def)

lemma unlock_clients:
  assumes ok: "fs_ok fs" and spec: "spec_unlock env fs path 0 c = (r, w, fs')"
  shows "waiting fs' + mset (case r of Inl _ \<Rightarrow> [] | Inr _ \<Rightarrow> if w = 0 then [] else [w]) = waiting fs"
    and "owners fs' \<subseteq> owners fs \<union> set_mset (waiting fs)"
proof -
  let ?out = "mset (case r of Inl _ \<Rightarrow> [] | Inr _ \<Rightarrow> if w = 0 then [] else [w])"
  have "waiting fs' + ?out = waiting fs \<and> owners fs' \<subseteq> owners fs \<union> set_mset (waiting fs)"
  proof (cases "a_lookup (f_files fs) path")
    case (Some f)
    let ?g = "\<lambda>f. (hand_over (touch env f))\<lparr>a_first := 0\<rparr>"
    have f: "file_ok f" "f \<in> set (f_files fs)" using fs_okD [OF ok Some] by simp_all
    have "waiting (upd path ?g fs) + mset (a_wait f) = waiting fs + mset (a_wait (hand_over f))"
      using waiting_upd [OF ok Some, of ?g] by simp
    then have w: "waiting (upd path ?g fs) + (if a_lock (hand_over f) = 0 then {#} else {#a_lock (hand_over f)#}) = waiting fs"
      using f(1) by (cases "a_wait f") (auto simp: hand_over_def file_ok_def)
    have "a_lock (hand_over f) = 0 \<or> a_lock (hand_over f) \<in># waiting fs"
      using hand_over_lock [of f] f(2) by (auto simp: waiting_def)
    then have o: "owners (upd path ?g fs) \<subseteq> owners fs \<union> set_mset (waiting fs)"
      using owners_upd [OF ok, of path ?g] Some by auto
    have "waiting (upd path (touch env) fs) = waiting fs" "owners (upd path (touch env) fs) = owners fs"
      by (simp_all add: waiting_upd_same owners_upd_same)
    then show ?thesis using spec Some w o by (auto simp: spec_unlock_def split: if_splits)
  qed (use spec in \<open>auto simp: spec_unlock_def split: if_splits\<close>)
  then show "waiting fs' + ?out = waiting fs" and "owners fs' \<subseteq> owners fs \<union> set_mset (waiting fs)" by blast+
qed

lemma remove_clients:
  assumes ok: "fs_ok fs" and spec: "spec_remove env fs path [] c = (r, notify, fs')"
  shows "waiting fs' + (case r of Inl _ \<Rightarrow> {#} | Inr _ \<Rightarrow> mset notify) = waiting fs \<and> owners fs' \<subseteq> owners fs"
proof (cases "a_lookup (f_files fs) path")
  case (Some f)
  then show ?thesis
    using spec waiting_remove [OF ok Some] owners_remove [of path "f_files fs" fs]
    by (auto simp: spec_remove_def split: if_splits)
qed (use spec in \<open>auto simp: spec_remove_def split: if_splits\<close>)

lemma evict_clients:
  assumes "fs_ok fs" and "spec_evict env path need c fs notify evs = (fs', notify', evs')"
  shows "waiting fs' + mset notify' = waiting fs + mset notify \<and> owners fs' \<subseteq> owners fs"
  using assms
proof (induction env path need c fs notify evs rule: spec_evict.induct)
  case (1 env path need c fs notify evs)
  show ?case
  proof (cases "f_maxSize fs < total_size (a_remove path (f_files fs)) + need \<and> a_victim (f_algo fs) (Some path) (f_files fs) \<noteq> None")
    case True
    then obtain v where v: "a_victim (f_algo fs) (Some path) (f_files fs) = Some v"
      and go: "f_maxSize fs < total_size (a_remove path (f_files fs)) + need" by blast
    let ?fs = "logged env ''EVICTED'' (a_path v) 0 c 0
      (fs\<lparr>f_files := a_remove (a_path v) (f_files fs), f_victims := size_add (f_victims fs) 1\<rparr>)"
    have "v \<in> set (f_files fs)" using a_victim_in [OF v] by auto
    then have l: "a_lookup (f_files fs) (a_path v) = Some v"
      using "1.prems"(1) a_lookup_iff [of "f_files fs" "a_path v" v] by (simp add: fs_ok_def)
    have "fs_ok (fs\<lparr>f_files := a_remove (a_path v) (f_files fs)\<rparr>)" using "1.prems"(1) by (rule fs_ok_remove)
    then have "fs_ok ?fs" by (simp add: fs_ok_def)
    moreover have "spec_evict env path need c ?fs (notify @ a_wait v) (v\<lparr>a_open := []\<rparr> # evs) = (fs', notify', evs')"
      using "1.prems"(2) v go by (subst (asm) spec_evict.simps) simp
    ultimately have "waiting fs' + mset notify' = waiting ?fs + mset (notify @ a_wait v) \<and> owners fs' \<subseteq> owners ?fs"
      by (rule 1(1) [OF go v])
    moreover have "waiting ?fs + mset (a_wait v) = waiting fs" and "owners ?fs \<subseteq> owners fs"
      using waiting_remove [OF "1.prems"(1) l] owners_remove [of "a_path v" "f_files fs" fs]
      by (simp_all add: waiting_files owners_files)
    ultimately show ?thesis by (auto simp: ac_simps)
  next
    case False
    then have "spec_evict env path need c fs notify evs = (fs, notify, evs)"
      by (subst spec_evict.simps) (auto split: option.splits)
    then show ?thesis using "1.prems"(2) by simp
  qed
qed

lemma store_clients [simp]: "waiting (spec_store path d fs) = waiting fs" "owners (spec_store path d fs) = owners fs"
  by (simp_all add: spec_store_def Let_def waiting_upd_same owners_upd_same)

lemma write_clients:
  assumes ok: "fs_ok fs" and spec: "spec_write env fs path d c = (r, notify, evs, fs')"
  shows "waiting fs' + (case r of Inl _ \<Rightarrow> {#} | Inr _ \<Rightarrow> mset notify) = waiting fs \<and> owners fs' \<subseteq> owners fs"
proof (cases "\<exists>f. a_lookup (f_files fs) path = Some f \<and> granted f c \<and> \<not> bad_input path c \<and>
    \<not> f_maxSize fs < length (rle_spec (a_data f @ d))")
  case True
  then obtain f where f: "a_lookup (f_files fs) path = Some f" "granted f c" "\<not> bad_input path c"
    "\<not> f_maxSize fs < length (rle_spec (a_data f @ d))" by blast
  let ?fs1 = "upd path (touch env) fs"
  have t: "waiting ?fs1 = waiting fs" "owners ?fs1 = owners fs" "f_maxSize ?fs1 = f_maxSize fs"
    by (simp_all add: waiting_upd_same owners_upd_same) (simp add: upd_def)
  obtain fs2 n2 ev2 where ev: "spec_evict env path (length (rle_spec (a_data f @ d))) c ?fs1 [] [] = (fs2, n2, ev2)"
    using prod_cases3 by blast
  have c: "waiting fs2 + mset n2 = waiting fs" "owners fs2 \<subseteq> owners fs"
    using evict_clients [OF fs_ok_upd_touch [OF ok] ev] t by simp_all
  have "fs' = upd path (\<lambda>f. f\<lparr>a_first := 0\<rparr>) (logged env ''WRITE'' path 0 c (length d)
      (spec_store path d (fs2\<lparr>f_files := a_reset (f_files fs2)\<rparr>)))" and r: "r = Inr 0" and "notify = n2"
    using spec f ev t(3) by (auto simp: spec_write_def Let_def)
  moreover from this have "waiting fs' = waiting fs2" "owners fs' = owners fs2"
    by (simp_all add: waiting_upd_same owners_upd_same)
  ultimately show ?thesis using c by simp
next
  case False
  have t: "waiting (upd path (touch env) fs) = waiting fs" "owners (upd path (touch env) fs) = owners fs"
    by (simp_all add: waiting_upd_same owners_upd_same)
  show ?thesis
  proof (cases "bad_input path c \<or> a_lookup (f_files fs) path = None")
    case True
    then show ?thesis using spec by (auto simp: spec_write_def split: if_splits)
  next
    case good: False
    then obtain f where f: "a_lookup (f_files fs) path = Some f" by blast
    have max: "f_maxSize (upd path (touch env) fs) = f_maxSize fs" by (simp add: upd_def)
    show ?thesis
    proof (cases "granted f c")
      case True
      then have "f_maxSize fs < length (rle_spec (a_data f @ d))" using False good f by blast
      then have "spec_write env fs path d c =
          (Inl E2BIG, [], [], logged env ''WRITE'' path (errno_value E2BIG) c 0 (upd path (touch env) fs))"
        using good f True max by (simp add: spec_write_def Let_def)
      then show ?thesis using spec t by auto
    next
      case False
      then show ?thesis using spec good f by (auto simp: spec_write_def)
    qed
  qed
qed

text \<open>The exit of a client that is not waiting: its locks go to the first waiters.\<close>

lemma exit_file_clients:
  assumes "file_ok f" and "c \<notin> set (a_wait f)" and "0 < c"
  shows "mset (a_wait (exit_file c f)) + mset (exit_notify c f) = mset (a_wait f)"
    and "a_lock (exit_file c f) \<in> insert 0 (insert (a_lock f) (set (a_wait f)) - {c})"
  using assms by (cases "a_wait f"; auto simp: exit_file_def exit_notify_def hand_over_def Let_def remove1_idem)+

lemma exit_clients:
  assumes ok: "fs_ok fs" and new: "c \<notin># waiting fs" and pos: "0 < c" and spec: "spec_exit fs [] c = (r, notify, fs')"
  shows "waiting fs' + mset notify = waiting fs" and "owners fs' \<subseteq> owners fs \<union> set_mset (waiting fs) - {c}"
proof -
  let ?fs = "f_files fs"
  have fs': "fs' = fs\<lparr>f_files := map (exit_file c) ?fs\<rparr>" and n: "notify = concat (map (exit_notify c) ?fs)"
    using spec pos by (auto simp: spec_exit_def)
  have f: "file_ok f \<and> c \<notin> set (a_wait f)" if "f \<in> set ?fs" for f
    using that ok new by (auto simp: fs_ok_def waiting_def)
  have "mset (concat (map a_wait (map (exit_file c) l))) + mset (concat (map (exit_notify c) l)) = mset (concat (map a_wait l))"
    if "set l \<subseteq> set ?fs" for l
    using that
  proof (induction l)
    case (Cons x l)
    then have x: "mset (a_wait x) = mset (a_wait (exit_file c x)) + mset (exit_notify c x)"
      using exit_file_clients(1) [of x c] f pos by simp
    have l: "mset (concat (map a_wait l)) = mset (concat (map a_wait (map (exit_file c) l))) + mset (concat (map (exit_notify c) l))"
      using Cons by simp
    show ?case
      unfolding list.map concat.simps mset_append x l by (simp only: ac_simps)
  qed simp
  from this [of ?fs] show "waiting fs' + mset notify = waiting fs" by (simp add: waiting_def fs' n comp_def)
  show "owners fs' \<subseteq> owners fs \<union> set_mset (waiting fs) - {c}"
  proof
    fix x assume "x \<in> owners fs'"
    then obtain g where g: "g \<in> set ?fs" "x = a_lock (exit_file c g)" "x \<noteq> 0" by (auto simp: owners_def fs')
    then show "x \<in> owners fs \<union> set_mset (waiting fs) - {c}"
      using exit_file_clients(2) [of g c] f [OF g(1)] pos by (auto simp: owners_def waiting_def)
  qed
qed

section \<open>The messages on the pipe\<close>

fun pipe_msgs :: "action list \<Rightarrow> buffer list" where
  "pipe_msgs [] = []"
| "pipe_msgs (Pipe m # as) = m # pipe_msgs as"
| "pipe_msgs (_ # as) = pipe_msgs as"

definition closed :: "action list \<Rightarrow> fd set" where
  "closed as = {c. Close c \<in> set as}"

text \<open>The manager reads a message as a number, and 0 as the news that a client left.\<close>

definition msg_fd :: "buffer \<Rightarrow> fd" where
  "msg_fd m = atol (c_string m)"

definition returned :: "buffer list \<Rightarrow> fd multiset" where
  "returned ms = mset (filter (\<lambda>c. c \<noteq> 0) (map msg_fd ms))"

definition departures :: "buffer list \<Rightarrow> nat" where
  "departures ms = length (filter (\<lambda>c. c = 0) (map msg_fd ms))"

lemma pipe_msgs_append [simp]: "pipe_msgs (as @ bs) = pipe_msgs as @ pipe_msgs bs"
  by (induction as rule: pipe_msgs.induct) simp_all

lemma pipe_msgs_out [simp]:
  "pipe_msgs (code_msg c k # as) = pipe_msgs as" "pipe_msgs (end_msg c # as) = pipe_msgs as"
  "pipe_msgs (notify_out cs k) = map fd_msg cs" "pipe_msgs (error_out c e) = []"
  "pipe_msgs (map (\<lambda>f. Send c (h f)) fs) = []"
proof -
  show "pipe_msgs (notify_out cs k) = map fd_msg cs" by (induction cs) (simp_all add: notify_out_def code_msg_def)
  show "pipe_msgs (error_out c e) = []" by (cases e) (simp_all add: error_out_def code_msg_def)
  show "pipe_msgs (map (\<lambda>f. Send c (h f)) fs) = []" by (induction fs) simp_all
qed (simp_all add: code_msg_def end_msg_def)

lemma closed_out [simp]:
  "closed [] = {}" "closed (as @ bs) = closed as \<union> closed bs"
  "closed (code_msg c k # as) = closed as" "closed (end_msg c # as) = closed as" "closed (Send c b # as) = closed as"
  "closed (Pipe m # as) = closed as" "closed (Close c # as) = insert c (closed as)"
  "closed (notify_out cs k) = {}" "closed (error_out c e) = {}" "closed (map (\<lambda>f. Send c (h f)) fs) = {}"
  by (auto simp: closed_def code_msg_def end_msg_def notify_out_def error_out_def split: errno.splits)

lemma pad4_digits: "\<forall>c \<in> set (pad4 n). is_digit c"
  using digits_show_nat [of n] by (auto simp: pad4_def zero_digit)

lemma msg_fd_fd_msg:
  assumes "0 \<le> c" and "c < 10 ^ 4"
  shows "msg_fd (fd_msg c) = c"
proof -
  let ?n = "nat c"
  have l: "length (show_nat ?n) \<le> 4" using assms by (intro length_show_nat) auto
  then have t: "take 4 (pad4 ?n) = pad4 ?n" by (simp add: pad4_def)
  have nn: "NUL \<notin> set (pad4 ?n)" using pad4_digits digit_not_NUL by blast
  have ne: "pad4 ?n \<noteq> []" by (simp add: pad4_def)
  have "takeWhile is_digit (pad4 ?n) = pad4 ?n" using pad4_digits by (simp add: takeWhile_eq_all_conv)
  then have "read_digits (pad4 ?n) = ?n" by (simp only: read_digits_def) (simp only: pad4_def value_zeros value_show_nat)
  then have "atol (pad4 ?n) = int ?n" using atol_digits [OF ne pad4_digits, of "[]"] by simp
  then show ?thesis using assms by (simp add: msg_fd_def fd_msg_def t c_string_id nn)
qed

lemma msg_fd_left: "msg_fd CLIENT_LEFT_MSG = 0"
proof -
  have "CLIENT_LEFT_MSG = fd_msg 0"
    by (simp add: CLIENT_LEFT_MSG_def fd_msg_def pad4_def show_nat.simps zero_digit eval_nat_numeral)
  then show ?thesis using msg_fd_fd_msg [of 0] by (simp only:) simp
qed

lemma returned_append [simp]: "returned (ms @ ns) = returned ms + returned ns"
  by (simp add: returned_def)

lemma departures_append [simp]: "departures (ms @ ns) = departures ms + departures ns"
  by (simp add: departures_def)

lemma returned_fds:
  "\<forall>c \<in> set cs. 0 < c \<and> c < 10 ^ 4 \<Longrightarrow> returned (map fd_msg cs) = mset cs \<and> departures (map fd_msg cs) = 0"
proof -
  assume cs: "\<forall>c \<in> set cs. 0 < c \<and> c < 10 ^ 4"
  then have "map msg_fd (map fd_msg cs) = cs" by (induction cs) (simp_all add: msg_fd_fd_msg)
  moreover have "filter (\<lambda>c. c \<noteq> 0) cs = cs" and "filter (\<lambda>c. c = 0) cs = []"
    using cs by (auto simp: filter_id_conv filter_empty_conv)
  ultimately show ?thesis unfolding returned_def departures_def by simp
qed

lemma returned_left [simp]: "returned [CLIENT_LEFT_MSG] = {#}" "departures [CLIENT_LEFT_MSG] = 1"
  by (simp_all add: returned_def departures_def msg_fd_left)

end
