(* ===== verification/ServerInvariant.thy ===== *)
theory ServerInvariant
  imports Clients
begin

text \<open>
  Serving a request keeps the abstract store well formed and its configuration unchanged, and passes
  the descriptors on: the served client goes back to the manager or waits for a lock, and clients stop
  waiting exactly when they are announced on the pipe.
\<close>

section \<open>The configuration does not change\<close>

definition limits :: "fstore \<Rightarrow> nat \<times> nat \<times> int" where
  "limits fs = (f_maxNum fs, f_maxSize fs, f_algo fs)"

lemma limits_simps [simp]:
  "limits (upd path g fs) = limits fs" "limits (logged env op path outcome requestor n fs) = limits fs"
  "limits (fs\<lparr>f_files := l\<rparr>) = limits fs" "limits (fs\<lparr>f_topSize := k\<rparr>) = limits fs"
  "limits (fs\<lparr>f_victims := k\<rparr>) = limits fs" "limits (spec_add f fs) = limits fs" "limits (spec_store path d fs) = limits fs"
  by (simp_all add: limits_def upd_def logged_def spec_add_def spec_store_def Let_def)

lemma limits_evict: "spec_evict env path need c fs notify evs = (fs', notify', evs') \<Longrightarrow> limits fs' = limits fs"
proof (induction env path need c fs notify evs rule: spec_evict.induct)
  case (1 env path need c fs notify evs)
  show ?case using 1(2) by (subst (asm) spec_evict.simps) (auto split: if_splits option.splits dest: 1(1))
qed

lemma limits_make_room: "spec_make_room env c fs notify = (fs', notify') \<Longrightarrow> limits fs' = limits fs"
  by (auto simp: spec_make_room_def split: if_splits option.splits)

lemma limits_open: "spec_open env fs path flags notify c = (r, notify', fs') \<Longrightarrow> limits fs' = limits fs"
  by (auto simp: spec_open_def Let_def split: if_splits option.splits prod.splits dest: limits_make_room)

lemma limits_write: "spec_write env fs path d c = (r, notify, evs, fs') \<Longrightarrow> limits fs' = limits fs"
  by (auto simp: spec_write_def Let_def split: if_splits option.splits prod.splits dest: limits_evict)

lemma limits_others:
  "spec_read env fs path c = (r1, fs') \<Longrightarrow> limits fs' = limits fs"
  "spec_read_n env e fs k c = (r2, resp, fs') \<Longrightarrow> limits fs' = limits fs"
  "spec_lock env fs path c = (r3, fs') \<Longrightarrow> limits fs' = limits fs"
  "spec_unlock env fs path w0 c = (r4, w, fs') \<Longrightarrow> limits fs' = limits fs"
  "spec_close env fs path c = (r5, fs') \<Longrightarrow> limits fs' = limits fs"
  "spec_remove env fs path notify c = (r6, notify', fs') \<Longrightarrow> limits fs' = limits fs"
  "spec_exit fs notify c = (r7, notify', fs') \<Longrightarrow> limits fs' = limits fs"
  by (auto simp: spec_read_def spec_read_n_def spec_lock_def spec_unlock_def spec_close_def spec_remove_def
      spec_exit_def Let_def split: if_splits option.splits)

section \<open>Requests that keep the store well formed\<close>

text \<open>A file whose content is a single NUL byte cannot be read back.\<close>

fun benign :: "request \<Rightarrow> bool" where
  "benign (WriteFile path d) \<longleftrightarrow> d \<noteq> [NUL]"
| "benign (Append path d) \<longleftrightarrow> d \<noteq> [NUL]"
| "benign _ \<longleftrightarrow> True"

definition proper :: "request \<Rightarrow> bool" where
  "proper r \<longleftrightarrow> benign r \<and> NUL \<notin> set (request_path r) \<and> length (request_path r) \<le> PATH_LIMIT"

text \<open>What serving a request does to the store and to the descriptors.\<close>

definition served :: "fd \<Rightarrow> bool \<Rightarrow> fstore \<Rightarrow> fstore \<Rightarrow> action list \<Rightarrow> bool" where
  "served c leaves fs fs' out \<longleftrightarrow>
     fs_ok fs' \<and> limits fs' = limits fs \<and>
     waiting fs' + returned (pipe_msgs out) = waiting fs + (if leaves then {#} else {#c#}) \<and>
     departures (pipe_msgs out) = (if leaves then 1 else 0) \<and> closed out = (if leaves then {c} else {}) \<and>
     owners fs' \<subseteq> (if leaves then owners fs \<union> set_mset (waiting fs) - {c} else insert c (owners fs \<union> set_mset (waiting fs)))"

definition client_fd :: "fd \<Rightarrow> bool" where
  "client_fd c \<longleftrightarrow> 0 < c \<and> c < 10 ^ 4"

text \<open>A request that is answered, with the clients \<open>ns\<close> notified on the way.\<close>

lemma served_answer:
  assumes "fs_ok fs'" and "limits fs' = limits fs" and "pipe_msgs out = map fd_msg ns" and "closed out = {}"
    and "waiting fs' + mset ns = waiting fs" and "\<forall>w \<in># waiting fs. client_fd w" and "client_fd c"
    and "owners fs' \<subseteq> insert c (owners fs \<union> set_mset (waiting fs))"
  shows "served c False fs fs' (out @ [Pipe (fd_msg c)])"
proof -
  have "set ns \<subseteq> set_mset (waiting fs)" using assms(5) by (metis mset_subset_eq_add_right set_mset_mono set_mset_mset)
  then have "\<forall>c \<in> set ns. 0 < c \<and> c < 10 ^ 4" using assms(6) by (auto simp: client_fd_def)
  from returned_fds [OF this] have n: "returned (map fd_msg ns) = mset ns" "departures (map fd_msg ns) = 0" by simp_all
  have c: "returned [fd_msg c] = {#c#}" "departures [fd_msg c] = 0"
    using returned_fds [of "[c]"] assms(7) by (simp_all add: client_fd_def)
  have "waiting fs' + returned (pipe_msgs (out @ [Pipe (fd_msg c)])) = waiting fs' + mset ns + {#c#}"
    using n c by (simp add: assms(3))
  then show ?thesis using assms(1-5,8) n c by (simp add: served_def)
qed

lemma served_same:
  assumes "fs_ok fs" and "pipe_msgs out = []" and "closed out = {}" and "\<forall>w \<in># waiting fs. client_fd w" and "client_fd c"
  shows "served c False fs fs (out @ [Pipe (fd_msg c)])"
  by (rule served_answer [where ns = "[]"]) (use assms in auto)

lemma served_append:
  assumes ok: "fs_ok fs" and d: "d \<noteq> [NUL]" and w: "\<forall>w \<in># waiting fs. client_fd w" and c: "client_fd c"
    and spec: "spec_append env fs c path d = (fs', out)"
  shows "served c False fs fs' (out @ [Pipe (fd_msg c)])"
proof -
  obtain r notify evs fs1 where sp: "spec_write env fs path d c = (r, notify, evs, fs1)" using prod_cases4 by blast
  note e = write_clients [OF ok sp]
  have fs': "fs' = fs1" and out: "pipe_msgs out = map fd_msg (case r of Inl _ \<Rightarrow> [] | Inr _ \<Rightarrow> notify)" "closed out = {}"
    using spec sp by (auto simp: spec_append_def split: sum.splits)
  have "fs_ok fs1" by (rule fs_ok_write [OF ok _ sp]) (use d fs_okD [OF ok] in \<open>auto simp: append_eq_Cons_conv file_ok_def\<close>)
  then show ?thesis
    by (intro served_answer [OF _ _ out _ w c])
      (use limits_write [OF sp] e fs' in \<open>auto split: sum.splits\<close>)
qed

text \<open>Serving any proper request, from a client that is not itself waiting.\<close>

text \<open>The requests of which the answer is not the whole: opening, locking, and leaving.\<close>

lemma served_open:
  assumes ok: "fs_ok fs" and mem: "mem_ok env" and path: "length p \<le> PATH_LIMIT" "NUL \<notin> set p" and c: "client_fd c"
    and w: "\<forall>w \<in># waiting fs. client_fd w" and req: "spec_request env unset fs c (Open p (Some flags)) = (fs', out)"
  shows "served c False fs fs' (out @ [Pipe (fd_msg c)])"
proof -
  obtain res notify fs1 where sp: "spec_open env fs p flags [] c = (res, notify, fs1)" using prod_cases3 by blast
  note e = open_clients [OF ok mem sp]
  have fs': "fs' = fs1" and o1: "pipe_msgs out = map fd_msg (case res of Inl _ \<Rightarrow> [] | Inr _ \<Rightarrow> notify)" "closed out = {}"
    using req sp by (auto split: sum.splits)
  have "fs_ok fs1" using c by (intro fs_ok_open [OF ok _ _ sp]) (use path in \<open>simp_all add: client_fd_def\<close>)
  then show ?thesis
    by (intro served_answer [OF _ _ o1 _ w c]) (use limits_open [OF sp] e fs' in \<open>auto split: sum.splits\<close>)
qed

lemma served_lock:
  assumes ok: "fs_ok fs" and c: "client_fd c" and w: "\<forall>w \<in># waiting fs. client_fd w"
    and req: "spec_request env unset fs c (Lock p) = (fs', out)"
  shows "served c False fs fs' (out @ (if queued fs c (Lock p) then [] else [Pipe (fd_msg c)]))"
proof -
  obtain res fs1 where sp: "spec_lock env fs p c = (res, fs1)" by fastforce
  note e = lock_clients [OF ok sp] and q = spec_lock_queued [OF sp]
  have fs': "fs' = fs1" and out: "out = (case res of Inl e \<Rightarrow> error_out c e | Inr k \<Rightarrow> if k = -2 then [] else [code_msg c 1])"
    using req sp by simp_all
  have ok': "fs_ok fs1" using c by (intro fs_ok_lock [OF ok _ sp]) (simp add: client_fd_def)
  show ?thesis
  proof (cases "queued fs c (Lock p)")
    case True
    then show ?thesis using q out ok' limits_others(3) [OF sp] e fs' by (auto simp: served_def returned_def departures_def)
  next
    case False
    have "served c False fs fs' (out @ [Pipe (fd_msg c)])"
      by (rule served_answer [where ns = "[]", OF _ _ _ _ _ w c])
        (use ok' e False fs' out limits_others(3) [OF sp] in \<open>auto split: sum.splits\<close>)
    then show ?thesis using False by simp
  qed
qed

lemma served_exit:
  assumes ok: "fs_ok fs" and c: "client_fd c" and new: "c \<notin># waiting fs" and w: "\<forall>w \<in># waiting fs. client_fd w"
    and spec: "spec_serve env unset fs c Exit = (fs', out)"
  shows "served c True fs fs' out"
proof -
  obtain res notify fs1 where sp: "spec_exit fs [] c = (res, notify, fs1)" using prod_cases3 by blast
  have pos: "0 < c" using c by (simp add: client_fd_def)
  note e = exit_clients [OF ok new pos sp]
  have "set notify \<subseteq> set_mset (waiting fs)" using e(1) by (metis mset_subset_eq_add_right set_mset_mono set_mset_mset)
  then have n: "returned (map fd_msg notify) = mset notify" "departures (map fd_msg notify) = 0"
    using returned_fds [of notify] w by (auto simp: client_fd_def)
  have "fs' = fs1" and "out = Close c # notify_out notify 1 @ [Pipe CLIENT_LEFT_MSG]"
    using spec sp by (auto simp: spec_serve_def)
  then show ?thesis using fs_ok_exit [OF ok sp] limits_others(7) [OF sp] e n by (simp add: served_def)
qed

lemma spec_serve_served:
  assumes ok: "fs_ok fs" and mem: "mem_ok env" and pr: "proper r" and c: "client_fd c" and new: "c \<notin># waiting fs"
    and w: "\<forall>w \<in># waiting fs. client_fd w" and spec: "spec_serve env unset fs c r = (fs', out)"
  shows "served c (r = Exit) fs fs' out"
proof -
  have pos: "0 < c" using c by (simp add: client_fd_def)
  have path: "length (request_path r) \<le> PATH_LIMIT" "NUL \<notin> set (request_path r)" using pr by (simp_all add: proper_def)
  obtain out1 where req: "spec_request env unset fs c r = (fs', out1)"
    and out: "out = out1 @ (if queued fs c r \<or> r = Exit then [] else [Pipe (fd_msg c)])"
    using spec by (auto simp: spec_serve_def split: prod.splits)
  note answer = served_answer [OF _ _ _ _ _ w c] and same = served_same [OF ok _ _ w c]
  show ?thesis
  proof (cases r)
    case (Open p k)
    show ?thesis
    proof (cases k)
      case None
      then show ?thesis using same [of out1] req out Open by auto
    next
      case (Some flags)
      then show ?thesis
        using served_open [OF ok mem _ _ c w, of p unset flags fs' out1] path req out Open by simp
    qed
  next
    case (CloseFile p)
    obtain res fs1 where sp: "spec_close env fs p c = (res, fs1)" by fastforce
    have "served c False fs fs' (out1 @ [Pipe (fd_msg c)])"
      by (rule answer [where ns = "[]"])
        (use req sp CloseFile fs_ok_close [OF ok sp] close_clients [OF sp] limits_others(5) [OF sp] in \<open>auto split: sum.splits\<close>)
    then show ?thesis using out CloseFile by simp
  next
    case (Read p)
    obtain res fs1 where sp: "spec_read env fs p c = (res, fs1)" by fastforce
    have "served c False fs fs' (out1 @ [Pipe (fd_msg c)])"
      by (rule answer [where ns = "[]"])
        (use req sp Read fs_ok_read [OF ok sp] read_clients [OF sp] limits_others(1) [OF sp] in \<open>auto split: sum.splits\<close>)
    then show ?thesis using out Read by simp
  next
    case (ReadN k)
    obtain res resp fs1 where sp: "spec_read_n env None fs (case k of Some n \<Rightarrow> n | None \<Rightarrow> unset) c = (res, resp, fs1)"
      using prod_cases3 by blast
    have "served c False fs fs' (out1 @ [Pipe (fd_msg c)])"
      by (rule answer [where ns = "[]"])
        (use req sp ReadN fs_ok_read_n [OF ok sp] read_n_clients [OF sp] limits_others(2) [OF sp] in \<open>auto split: if_splits\<close>)
    then show ?thesis using out ReadN by simp
  next
    case (WriteFile p d)
    show ?thesis
    proof (cases "spec_first_write fs p c")
      case True
      then show ?thesis
        using served_append [OF ok _ w c, of d env p fs' out1] req out pr WriteFile by (simp add: proper_def)
    next
      case False
      then show ?thesis using same [of out1] req out WriteFile by auto
    qed
  next
    case (Append p d)
    then show ?thesis
      using served_append [OF ok _ w c, of d env p fs' out1] req out pr by (simp add: proper_def)
  next
    case (Lock p)
    then show ?thesis using served_lock [OF ok c w, of env unset p fs' out1] req out by simp
  next
    case (Unlock p)
    obtain res v fs1 where sp: "spec_unlock env fs p 0 c = (res, v, fs1)" using prod_cases3 by blast
    note e = unlock_clients [OF ok sp]
    let ?ns = "case res of Inl _ \<Rightarrow> [] | Inr _ \<Rightarrow> if v = 0 then [] else [v]"
    have fs': "fs' = fs1" and o1: "pipe_msgs out1 = map fd_msg ?ns" "closed out1 = {}"
      using req sp Unlock by (auto split: sum.splits)
    have "served c False fs fs' (out1 @ [Pipe (fd_msg c)])"
      by (rule answer [OF _ _ o1]) (use fs_ok_unlock [OF ok sp] limits_others(4) [OF sp] e fs' in auto)
    then show ?thesis using out Unlock by simp
  next
    case (Remove p)
    obtain res notify fs1 where sp: "spec_remove env fs p [] c = (res, notify, fs1)" using prod_cases3 by blast
    note e = remove_clients [OF ok sp]
    have fs': "fs' = fs1" and o1: "pipe_msgs out1 = map fd_msg (case res of Inl _ \<Rightarrow> [] | Inr _ \<Rightarrow> notify)" "closed out1 = {}"
      using req sp Remove by (auto split: sum.splits)
    have "served c False fs fs' (out1 @ [Pipe (fd_msg c)])"
      by (rule answer [OF _ _ o1])
        (use fs_ok_remove_file [OF ok sp] limits_others(6) [OF sp] e fs' in \<open>auto split: sum.splits\<close>)
    then show ?thesis using out Remove by simp
  next
    case Unknown
    then show ?thesis using same [of out1] req out by auto
  next
    case Exit
    then show ?thesis using served_exit [OF ok c new w] spec by simp
  qed
qed

end
