(* ===== verification/Manager.thy ===== *)
theory Manager
  imports ServerInvariant
begin

text \<open>
  The manager thread of \<^verbatim>\<open>src/src/server.c\<close> (the loop of \<open>main\<close>) and the whole server: the set of
  descriptors that \<open>select\<close> watches, the queue of tasks, the descriptors that workers hold, the pipe
  from the workers back to the manager, and the store. The steps of the manager and of the workers
  interleave freely; a handler runs as one step on the store.
\<close>

section \<open>The state\<close>

definition max_macro :: "int \<Rightarrow> int \<Rightarrow> int" where
  "max_macro a b = (if a > b then a else b)"

record manager =
  fd_socket :: fd
  pipe_in :: fd
  setsave :: "fd set"
  fd_num :: fd
  clientCount :: int
  maxSimultaneousClients :: int
  softExit :: bool
  hardExit :: bool

text \<open>\<open>connected\<close> is the kernel's view: the client sockets that are open. The queue of tasks is the
  bounded buffer of \<open>MAX_TASKS\<close> elements; it never fills (\<open>taskBuffer_room\<close> in \<open>System\<close>), so that the
  manager does not wait in \<open>enqueue\<close>.\<close>

definition MAX_TASKS :: nat where "MAX_TASKS = 2048"

record system =
  mgr :: manager
  store :: CacheStorage
  taskBuffer :: "fd list"
  working :: "fd list"
  pipe :: "buffer list"
  connected :: "fd set"

section \<open>The manager\<close>

definition start_manager :: "fd \<Rightarrow> fd \<Rightarrow> manager" where
  "start_manager sock p = \<lparr>fd_socket = sock, pipe_in = p, setsave = {sock, p}, fd_num = max_macro sock 0,
     clientCount = 0, maxSimultaneousClients = 0, softExit = False, hardExit = False\<rparr>"

text \<open>A message from a worker: a descriptor to watch again, or a client that left. The flag says that
  the server stops.\<close>

definition worker_done :: "env \<Rightarrow> manager \<Rightarrow> CacheStorage \<Rightarrow> buffer \<Rightarrow> (manager \<times> CacheStorage \<times> bool) option" where
  "worker_done env m s pipebuf =
     (let c = atol (c_string pipebuf) in
      if c \<noteq> 0 then Some (m\<lparr>setsave := insert c (setsave m), fd_num := max_macro c (fd_num m)\<rparr>, s, False)
      else do {
        s \<leftarrow> logEvent env ''CLIENT_LEFT'' [] 0 (-1) 0 s;
        let m = m\<lparr>clientCount := clientCount m - 1\<rparr>;
        Some (m, s, clientCount m = 0 \<and> softExit m)
      })"

text \<open>The signals \<open>SIGHUP\<close>, and \<open>SIGINT\<close> and \<open>SIGQUIT\<close>.\<close>

definition SIGHUP :: int where "SIGHUP = 1"

definition exitSigHandler :: "int \<Rightarrow> manager \<Rightarrow> manager" where
  "exitSigHandler sig m = (if sig = SIGHUP then m\<lparr>softExit := True\<rparr> else m\<lparr>hardExit := True\<rparr>)"

text \<open>A signal that interrupts \<open>select\<close>: whether the server stops.\<close>

definition select_interrupted :: "manager \<Rightarrow> bool" where
  "select_interrupted m \<longleftrightarrow> softExit m \<and> clientCount m = 0"

text \<open>A connection is accepted; when the server is stopping it is closed at once (\<open>False\<close>).\<close>

definition accept_client :: "env \<Rightarrow> manager \<Rightarrow> CacheStorage \<Rightarrow> fd \<Rightarrow> (manager \<times> CacheStorage \<times> bool) option" where
  "accept_client env m s fd_communication =
     (if softExit m then Some (m, s, False)
      else do {
        let m = m\<lparr>setsave := insert fd_communication (setsave m), clientCount := clientCount m + 1\<rparr>;
        let m = m\<lparr>maxSimultaneousClients := max_macro (maxSimultaneousClients m) (clientCount m)\<rparr>;
        let m = m\<lparr>fd_num := max_macro fd_communication (fd_num m)\<rparr>;
        s \<leftarrow> logEvent env ''NEW_CLIENT'' [] 0 fd_communication 0 s;
        Some (m, s, True)
      })"

text \<open>A client is ready: it is not watched any more and becomes a task.\<close>

definition client_ready :: "manager \<Rightarrow> fd \<Rightarrow> manager" where
  "client_ready m i =
     (let m = m\<lparr>setsave := setsave m - {i}\<rparr> in
      if i = fd_num m then m\<lparr>fd_num := fd_num m - 1\<rparr> else m)"

section \<open>Steps of the server\<close>

definition manager_pipe :: "env \<Rightarrow> system \<Rightarrow> (system \<times> bool) option" where
  "manager_pipe env st =
     (case pipe st of
        [] \<Rightarrow> None
      | pipebuf # rest \<Rightarrow> do {
          (m, s, stop) \<leftarrow> worker_done env (mgr st) (store st) pipebuf;
          Some (st\<lparr>mgr := m, store := s, pipe := rest\<rparr>, stop)
        })"

definition manager_accept :: "env \<Rightarrow> fd \<Rightarrow> system \<Rightarrow> system option" where
  "manager_accept env c st = do {
     (m, s, kept) \<leftarrow> accept_client env (mgr st) (store st) c;
     Some (st\<lparr>mgr := m, store := s, connected := (if kept then insert c (connected st) else connected st)\<rparr>)
   }"

definition manager_request :: "fd \<Rightarrow> system \<Rightarrow> system" where
  "manager_request i st = st\<lparr>mgr := client_ready (mgr st) i, taskBuffer := taskBuffer st @ [i]\<rparr>"

definition worker_take :: "system \<Rightarrow> system option" where
  "worker_take st =
     (case taskBuffer st of
        [] \<Rightarrow> None
      | c # rest \<Rightarrow> Some (st\<lparr>taskBuffer := rest, working := c # working st\<rparr>))"

text \<open>A worker serves the client it holds; what it writes to the pipe is queued there.\<close>

definition worker_serve :: "env \<Rightarrow> int \<Rightarrow> fd \<Rightarrow> char list \<Rightarrow> system \<Rightarrow> (system \<times> action list \<times> char list) option" where
  "worker_serve env unset c inp st = do {
     (s, out, rest) \<leftarrow> serve env unset (store st) c inp;
     Some (st\<lparr>store := s, working := remove1 c (working st), pipe := pipe st @ pipe_msgs out,
              connected := connected st - closed out\<rparr>, out, rest)
   }"

definition start_server :: "nat \<Rightarrow> nat \<Rightarrow> int \<Rightarrow> fd \<Rightarrow> fd \<Rightarrow> errno + system" where
  "start_server maxFiles maxSize algo sock p =
     (case allocStorage True True True maxFiles maxSize algo of
        Inl e \<Rightarrow> Inl e
      | Inr s \<Rightarrow> Inr \<lparr>mgr = start_manager sock p, store = s, taskBuffer = [], working = [], pipe = [], connected = {}\<rparr>)"

text \<open>
  What may happen. The operating system hands out unused descriptors below \<open>FD_SETSIZE\<close>, the pipe is
  opened before the socket, and memory is not exhausted (\<open>mem_ok\<close>, \<open>buffers_ok\<close>, \<open>alloc_ok\<close>). A client sends any
  bytes that decode to a proper request, or leaves; signals may ask the server to stop. The manager looks at
  \<open>hardExit\<close> between two rounds of its loop only, so that its steps are not tied to it; what comes after the
  loop is in theory \<open>Shutdown\<close>.
\<close>

definition env_ok :: "env \<Rightarrow> CacheStorage \<Rightarrow> bool" where
  "env_ok env s \<longleftrightarrow> mem_ok env \<and> buffers_ok env \<and> alloc_ok env s \<and> \<bar>self env\<bar> < 10 ^ 20"

definition config_limits :: "nat \<Rightarrow> nat \<Rightarrow> int \<Rightarrow> fd \<Rightarrow> fd \<Rightarrow> bool" where
  "config_limits maxFiles maxSize algo sock p \<longleftrightarrow>
     0 < maxFiles \<and> maxFiles \<le> 10 ^ 9 \<and> maxSize \<le> 3 * 10 ^ 9 \<and> 0 \<le> algo \<and> algo \<le> 2 \<and> 0 < p \<and> p < sock \<and> sock < 1024"

inductive sys_step :: "system \<Rightarrow> system \<Rightarrow> bool" where
  accept: "manager_accept env c st = Some st' \<Longrightarrow> env_ok env (store st) \<Longrightarrow> 0 < c \<Longrightarrow> c < 1024 \<Longrightarrow>
    c \<notin> connected st \<Longrightarrow> c \<noteq> fd_socket (mgr st) \<Longrightarrow> c \<noteq> pipe_in (mgr st) \<Longrightarrow> sys_step st st'"
| ready: "c \<in> setsave (mgr st) \<Longrightarrow> c \<le> fd_num (mgr st) \<Longrightarrow> c \<noteq> fd_socket (mgr st) \<Longrightarrow> c \<noteq> pipe_in (mgr st) \<Longrightarrow>
    sys_step st (manager_request c st)"
| message: "manager_pipe env st = Some (st', stop) \<Longrightarrow> env_ok env (store st) \<Longrightarrow> sys_step st st'"
| take: "worker_take st = Some st' \<Longrightarrow> sys_step st st'"
| work: "c \<in> set (working st) \<Longrightarrow> env_ok env (store st) \<Longrightarrow> decode inp = Some (r, rest) \<Longrightarrow> proper r \<Longrightarrow>
    worker_serve env unset c inp st = Some (st', out, rest) \<Longrightarrow> sys_step st st'"
| signal: "sys_step st (st\<lparr>mgr := exitSigHandler sig (mgr st)\<rparr>)"

inductive reachable :: "nat \<Rightarrow> nat \<Rightarrow> int \<Rightarrow> system \<Rightarrow> bool" for maxFiles maxSize algo where
  init: "start_server maxFiles maxSize algo sock p = Inr st \<Longrightarrow> config_limits maxFiles maxSize algo sock p \<Longrightarrow>
    reachable maxFiles maxSize algo st"
| step: "reachable maxFiles maxSize algo st \<Longrightarrow> sys_step st st' \<Longrightarrow> reachable maxFiles maxSize algo st'"

inductive_cases sys_stepE: "sys_step st st'"

end
