(* ===== verification/System.thy ===== *)
theory System
  imports Manager
begin

text \<open>
  The server as a whole. In every reachable state the store is well formed and within its limits,
  every connected client is in exactly one place, the locks are held by connected clients, the
  manager's counters are right, and no step of a worker fails.
\<close>

section \<open>A fresh store\<close>

lemma allocStorage_sim:
  assumes "allocStorage True True True maxFiles maxSize algo = Inr s"
    and "0 < maxFiles" "maxFiles \<le> 10 ^ 9" "maxSize \<le> 3 * 10 ^ 9" "0 \<le> algo" "algo \<le> 2"
  obtains fs where "sim s [] fs" "fs_ok fs" "config_ok fs" "f_files fs = []" "limits fs = (maxFiles, maxSize, algo)"
proof -
  obtain ht :: "ptr icl_hash" where ht: "icl_hash_create True (maxFiles div 10 + 1) None None = Some ht" "ht_wf ht" "ht_map ht = Map.empty"
    using ht_create [of "maxFiles div 10 + 1"] by auto
  have s: "s = \<lparr>maxFileNum = maxFiles, maxStorageSize = maxSize, currFileNum = 0, currStorageSize = 0,
      replacementAlgo = algo, hPtr = NULL, tPtr = NULL, dictStore = ht, logBuffer = [],
      maxReachedFileNum = 0, maxReachedStorageSize = 0, numVictims = 0, heap = Map.empty\<rparr>"
    using assms(1) ht(1) by (simp add: allocStorage_def)
  have "maxFiles < size_max" "maxSize < size_max" using assms(3,4) by (simp_all add: size_max_def)
  then have "store_rep s []"
    using ht(2,3) assms(5,6) by (simp add: s store_rep_def list_rep_def dict_rep_def count_rep_def)
  then have "sim s [] (abs_store s [])" by (simp add: sim_busy_def)
  moreover have "fs_ok (abs_store s [])" using assms by (simp add: s fs_ok_def abs_store_def)
  moreover have "config_ok (abs_store s [])" using assms by (simp add: s config_ok_def abs_store_def)
  ultimately show ?thesis using that by (simp add: abs_store_def limits_def s)
qed

section \<open>The invariant\<close>

definition watched :: "manager \<Rightarrow> fd set" where
  "watched m = setsave m - {fd_socket m, pipe_in m}"

text \<open>Where the client descriptors are.\<close>

definition places :: "system \<Rightarrow> fstore \<Rightarrow> fd multiset" where
  "places st fs =
     mset_set (watched (mgr st)) + mset (taskBuffer st) + mset (working st) + returned (pipe st) + waiting fs"

definition manager_ok :: "system \<Rightarrow> bool" where
  "manager_ok st \<longleftrightarrow>
     (let m = mgr st in
      finite (setsave m) \<and> {fd_socket m, pipe_in m} \<subseteq> setsave m \<and> (\<forall>c \<in> setsave m. 0 < c \<and> c \<le> fd_num m) \<and>
      finite (connected st) \<and> (\<forall>c \<in> connected st. 0 < c \<and> c < 1024 \<and> c \<noteq> fd_socket m \<and> c \<noteq> pipe_in m) \<and>
      clientCount m = int (card (connected st) + departures (pipe st)) \<and> clientCount m \<le> maxSimultaneousClients m)"

definition system_ok :: "nat \<Rightarrow> nat \<Rightarrow> int \<Rightarrow> system \<Rightarrow> ptr list \<Rightarrow> fstore \<Rightarrow> bool" where
  "system_ok maxFiles maxSize algo st xs fs \<longleftrightarrow>
     sim (store st) xs fs \<and> fs_ok fs \<and> config_ok fs \<and> limits fs = (maxFiles, maxSize, algo) \<and>
     manager_ok st \<and> places st fs = mset_set (connected st) \<and> owners fs \<subseteq> connected st"

lemma system_ok_places:
  assumes "system_ok maxFiles maxSize algo st xs fs"
  shows "c \<in># places st fs \<longleftrightarrow> c \<in> connected st" and "count (places st fs) c = of_bool (c \<in> connected st)"
  using assms by (auto simp: system_ok_def manager_ok_def Let_def count_mset_set')

lemma waiting_connected:
  "system_ok maxFiles maxSize algo st xs fs \<Longrightarrow> w \<in># waiting fs \<Longrightarrow> w \<in> connected st \<and> client_fd w"
proof -
  assume ok: "system_ok maxFiles maxSize algo st xs fs" and w: "w \<in># waiting fs"
  have "w \<in> connected st" using system_ok_places(1) [OF ok, of w] w by (simp add: places_def)
  then show ?thesis using ok by (auto simp: system_ok_def manager_ok_def Let_def client_fd_def)
qed

lemma working_client:
  assumes ok: "system_ok maxFiles maxSize algo st xs fs" and c: "c \<in> set (working st)"
  shows "c \<in> connected st" and "client_fd c" and "c \<notin># waiting fs" and "0 < c" and "c < 1024"
proof -
  show con: "c \<in> connected st" using system_ok_places(1) [OF ok, of c] c by (simp add: places_def)
  then show "client_fd c" and "0 < c" and "c < 1024"
    using ok by (auto simp: system_ok_def manager_ok_def Let_def client_fd_def)
  have "count (places st fs) c = 1" using system_ok_places(2) [OF ok, of c] con by simp
  moreover have "0 < count (mset (working st)) c" using c by (metis count_greater_zero_iff set_mset_mset)
  ultimately have "count (waiting fs) c = 0" unfolding places_def count_union by linarith
  then show "c \<notin># waiting fs" by (simp add: count_eq_zero_iff)
qed

section \<open>Steps\<close>

lemma start_system_ok:
  assumes "start_server maxFiles maxSize algo sock p = Inr st" and conf: "config_limits maxFiles maxSize algo sock p"
  shows "\<exists>fs. system_ok maxFiles maxSize algo st [] fs"
proof -
  obtain s where s: "allocStorage True True True maxFiles maxSize algo = Inr s"
    and st: "st = \<lparr>mgr = start_manager sock p, store = s, taskBuffer = [], working = [], pipe = [], connected = {}\<rparr>"
    using assms(1) by (auto simp: start_server_def split: sum.splits)
  obtain fs where fs: "sim s [] fs" "fs_ok fs" "config_ok fs" "f_files fs = []" "limits fs = (maxFiles, maxSize, algo)"
    using allocStorage_sim [OF s] conf by (auto simp: config_limits_def)
  have "waiting fs = {#}" "owners fs = {}" using fs(4) by (simp_all add: waiting_def owners_def)
  then have "system_ok maxFiles maxSize algo st [] fs"
    using fs conf
    by (auto simp: system_ok_def places_def watched_def manager_ok_def st start_manager_def max_macro_def
        config_limits_def returned_def departures_def)
  then show ?thesis ..
qed

lemma log_ok:
  assumes "env_ok env s" and "length op \<le> 12" and "\<bar>requestor\<bar> < 2 ^ 31"
  shows "logEvent env op [] 0 requestor 0 s = Some (s\<lparr>logBuffer := entry env (logBuffer s) op [] 0 requestor 0\<rparr>)"
  by (rule logEvent_ok) (use assms in \<open>simp_all add: env_ok_def\<close>)

lemma config_ok_limits: "limits fs' = limits fs \<Longrightarrow> config_ok fs' = config_ok fs"
  by (simp add: limits_def config_ok_def)

lemma accept_ok:
  assumes ok: "system_ok maxFiles maxSize algo st xs fs" and env: "env_ok env (store st)"
    and c: "0 < c" "c < 1024" "c \<notin> connected st" "c \<noteq> fd_socket (mgr st)" "c \<noteq> pipe_in (mgr st)"
    and step: "manager_accept env c st = Some st'"
  shows "\<exists>fs'. system_ok maxFiles maxSize algo st' xs fs'"
proof (cases "softExit (mgr st)")
  case True
  then have "st' = st" using step by (auto simp: manager_accept_def accept_client_def)
  then show ?thesis using ok by blast
next
  case False
  let ?m = "mgr st" and ?fs = "logged env ''NEW_CLIENT'' [] 0 c 0 fs"
  let ?m' = "?m\<lparr>setsave := insert c (setsave ?m), clientCount := clientCount ?m + 1,
    maxSimultaneousClients := max_macro (maxSimultaneousClients ?m) (clientCount ?m + 1), fd_num := max_macro c (fd_num ?m)\<rparr>"
  have st': "st' = st\<lparr>mgr := ?m', store := (store st)\<lparr>logBuffer := entry env (logBuffer (store st)) ''NEW_CLIENT'' [] 0 c 0\<rparr>,
      connected := insert c (connected st)\<rparr>"
    using step False c by (cases ?m) (auto simp: manager_accept_def accept_client_def log_ok [OF env])
  have new: "c \<notin> watched ?m"
  proof
    assume "c \<in> watched ?m"
    moreover have "finite (watched ?m)" using ok by (simp add: system_ok_def manager_ok_def Let_def watched_def)
    ultimately have "c \<in># places st fs" by (simp add: places_def)
    then show False using system_ok_places(1) [OF ok, of c] c(3) by simp
  qed
  have w: "watched ?m' = insert c (watched ?m)" using c by (auto simp: watched_def)
  have "finite (watched ?m)" using ok by (simp add: system_ok_def manager_ok_def Let_def watched_def)
  then have "places st' ?fs = mset_set (connected st')"
    using ok c(3) new w by (simp add: st' places_def system_ok_def manager_ok_def Let_def)
  moreover have "manager_ok st'"
    using ok c by (auto simp: st' system_ok_def manager_ok_def Let_def max_macro_def)
  moreover have "sim (store st') xs ?fs" using sim_log ok by (simp add: st' system_ok_def)
  moreover have "config_ok ?fs" "connected st' = insert c (connected st)"
    using ok config_ok_limits [of ?fs fs] by (simp_all add: system_ok_def st')
  ultimately have "system_ok maxFiles maxSize algo st' xs ?fs" using ok by (auto simp: system_ok_def)
  then show ?thesis ..
qed

lemma ready_ok:
  assumes ok: "system_ok maxFiles maxSize algo st xs fs" and c: "c \<in> setsave (mgr st)" "c \<le> fd_num (mgr st)"
    "c \<noteq> fd_socket (mgr st)" "c \<noteq> pipe_in (mgr st)"
  shows "system_ok maxFiles maxSize algo (manager_request c st) xs fs"
proof -
  let ?m = "mgr st" and ?st = "manager_request c st"
  have cw: "c \<in> watched ?m" and fin: "finite (watched ?m)"
    using ok c by (auto simp: watched_def system_ok_def manager_ok_def Let_def)
  have w: "watched (mgr ?st) = watched ?m - {c}"
    by (auto simp: manager_request_def client_ready_def Let_def watched_def)
  have eq: "places ?st fs = places st fs"
    using cw fin by (simp add: places_def w) (simp add: manager_request_def mset_set.remove [OF fin cw])
  have same: "store ?st = store st" "connected ?st = connected st" by (simp_all add: manager_request_def)
  have "manager_ok ?st"
    using ok c unfolding system_ok_def manager_ok_def Let_def
    by (auto simp: manager_request_def client_ready_def Let_def)
  then show ?thesis using ok by (simp add: system_ok_def eq same)
qed

lemma take_ok:
  assumes ok: "system_ok maxFiles maxSize algo st xs fs" and step: "worker_take st = Some st'"
  shows "system_ok maxFiles maxSize algo st' xs fs"
proof -
  obtain c rest where t: "taskBuffer st = c # rest" and st': "st' = st\<lparr>taskBuffer := rest, working := c # working st\<rparr>"
    using step by (auto simp: worker_take_def split: list.splits)
  have "places st' fs = places st fs" by (simp add: places_def st' t)
  then show ?thesis using ok by (simp add: system_ok_def manager_ok_def st')
qed

lemma signal_ok:
  "system_ok maxFiles maxSize algo st xs fs \<Longrightarrow>
   system_ok maxFiles maxSize algo (st\<lparr>mgr := exitSigHandler sig (mgr st)\<rparr>) xs fs"
  by (simp add: exitSigHandler_def system_ok_def manager_ok_def Let_def places_def watched_def)

lemma message_ok:
  assumes ok: "system_ok maxFiles maxSize algo st xs fs" and env: "env_ok env (store st)"
    and step: "manager_pipe env st = Some (st', stop)"
  shows "\<exists>fs'. system_ok maxFiles maxSize algo st' xs fs'"
proof -
  obtain msg rest m s where pipe: "pipe st = msg # rest" and wd: "worker_done env (mgr st) (store st) msg = Some (m, s, stop)"
    and st': "st' = st\<lparr>mgr := m, store := s, pipe := rest\<rparr>"
    using step by (auto simp: manager_pipe_def split: list.splits bind_splits)
  show ?thesis
  proof (cases "msg_fd msg = 0")
    case True
    let ?fs = "logged env ''CLIENT_LEFT'' [] 0 (-1) 0 fs"
    have ms: "m = (mgr st)\<lparr>clientCount := clientCount (mgr st) - 1\<rparr>"
      "s = (store st)\<lparr>logBuffer := entry env (logBuffer (store st)) ''CLIENT_LEFT'' [] 0 (-1) 0\<rparr>"
      using wd True by (auto simp: worker_done_def msg_fd_def log_ok [OF env])
    have r: "returned (pipe st) = returned rest" "departures (pipe st) = Suc (departures rest)"
      using True by (simp_all add: pipe returned_def departures_def)
    have "places st' ?fs = places st fs" by (simp add: places_def st' ms r watched_def)
    moreover have "manager_ok st'"
      using ok by (auto simp: system_ok_def manager_ok_def st' ms r Let_def)
    moreover have "sim (store st') xs ?fs" using ok sim_log by (simp add: system_ok_def st' ms)
    moreover have "config_ok ?fs" "connected st' = connected st"
      using ok config_ok_limits [of ?fs fs] by (simp_all add: system_ok_def st')
    ultimately have "system_ok maxFiles maxSize algo st' xs ?fs" using ok by (simp add: system_ok_def)
    then show ?thesis ..
  next
    case False
    let ?c = "msg_fd msg" and ?m = "mgr st"
    have ms: "m = ?m\<lparr>setsave := insert ?c (setsave ?m), fd_num := max_macro ?c (fd_num ?m)\<rparr>" "s = store st"
      using wd False by (auto simp: worker_done_def msg_fd_def Let_def)
    have r: "returned (pipe st) = add_mset ?c (returned rest)" "departures (pipe st) = departures rest"
      using False by (simp_all add: pipe returned_def departures_def)
    have con: "?c \<in> connected st" using system_ok_places(1) [OF ok, of ?c] by (simp add: places_def r)
    then have c: "0 < ?c" "?c \<noteq> fd_socket ?m" "?c \<noteq> pipe_in ?m"
      using ok by (auto simp: system_ok_def manager_ok_def Let_def)
    have fin: "finite (watched ?m)" using ok by (simp add: system_ok_def manager_ok_def Let_def watched_def)
    have "count (mset_set (watched ?m)) ?c + 1 \<le> count (places st fs) ?c" by (simp add: places_def r)
    then have new: "?c \<notin> watched ?m" using system_ok_places(2) [OF ok, of ?c] con fin by auto
    have "watched m = insert ?c (watched ?m)" using c by (auto simp: watched_def ms)
    then have "places st' fs = places st fs" using new fin by (simp add: places_def st' ms(2) r)
    moreover have "manager_ok st'"
      using ok c by (auto simp: system_ok_def manager_ok_def st' ms r Let_def max_macro_def)
    ultimately have "system_ok maxFiles maxSize algo st' xs fs" using ok by (simp add: system_ok_def st' ms(2))
    then show ?thesis ..
  qed
qed

text \<open>A read of many files that would overflow the buffer of the handler is a fault, not a step.\<close>

lemma worker_serve_some:
  assumes ok: "system_ok maxFiles maxSize algo st xs fs" and env: "env_ok env (store st)" and c: "c \<in> set (working st)"
    and dec: "decode inp = Some (r, rest)" and pr: "proper r" and rd: "readable unset fs r"
    and spec: "spec_serve env unset fs c r = (fs', out)"
  shows "\<exists>s' xs'. serve env unset (store st) c inp = Some (s', out, rest) \<and> sim s' xs' fs'"
proof -
  have "caller_ok env c" using env working_client(4,5) [OF ok c] by (simp add: env_ok_def caller_ok_def)
  moreover have "request_fits unset fs r" using pr rd by (simp add: request_fits_def proper_def)
  ultimately show ?thesis
    using ok env dec spec by (intro serve_request_refines [where xs = xs and fs = fs]) (simp_all add: system_ok_def env_ok_def)
qed

lemma decode_ReadN:
  assumes "decode (b # inp) = Some (ReadN k, rest)"
  shows "atol (c_string [b]) = READ_N_FILES" and "k = number (c_string (take METADATA_SIZE inp))"
proof -
  have "atol (c_string [b]) = READ_N_FILES \<and> k = number (c_string (take METADATA_SIZE inp))"
  proof (cases "atol (c_string [b]) = READ_N_FILES")
    case False
    then obtain p i where "decode_file (atol (c_string [b])) (c_string p) i = Some (ReadN k, rest)"
      using assms by (auto simp: decode_def Let_def split: option.splits)
    from decode_file_request [OF this] show ?thesis by blast
  qed (use assms in \<open>auto simp: decode_def\<close>)
  then show "atol (c_string [b]) = READ_N_FILES" and "k = number (c_string (take METADATA_SIZE inp))" by simp_all
qed

lemma served_readable:
  assumes ok: "system_ok maxFiles maxSize algo st xs fs" and env: "env_ok env (store st)" and c: "c \<in> set (working st)"
    and dec: "decode inp = Some (r, rest)" and run: "serve env unset (store st) c inp = Some res"
  shows "readable unset fs r"
proof (rule ccontr)
  assume n: "\<not> readable unset fs r"
  then obtain k where r: "r = ReadN k" and o: "overflows 0 (first_files (case k of Some n \<Rightarrow> n | None \<Rightarrow> unset) (f_files fs))"
    by (cases r) auto
  let ?u = "case k of Some n \<Rightarrow> n | None \<Rightarrow> unset"
  obtain b inp' where inp: "inp = b # inp'" using dec r by (cases inp) (simp_all add: decode_def)
  let ?arg = "c_string (take METADATA_SIZE inp')"
  have code: "atol (c_string [b]) = READ_N_FILES" and k: "k = number ?arg"
    using decode_ReadN [of b inp' k rest] dec r inp by simp_all
  have cs: "c_string [b, NUL] = c_string [b]" using c_string_end [of "[b]"] by simp
  have sim: "sim (store st) xs fs" and conf: "fs_ok fs" "config_ok fs" using ok by (simp_all add: system_ok_def)
  have tr: "\<forall>f \<in> set (f_files fs). transmissible f" using ok_transmissible(1) [OF conf] by blast
  have e: "\<bar>self env\<bar> < 10 ^ 20" "\<bar>c\<bar> < 2 ^ 31" using env working_client(4,5) [OF ok c] by (simp_all add: env_ok_def)
  have none: "readNFilesHandler env e0 (store st) ?u c = None" for e0
  proof -
    obtain r1 r2 r3 where "spec_read_n env e0 fs ?u c = (r1, r2, r3)" using prod_cases3 by blast
    moreover have "buffers_ok env" using env by (simp add: env_ok_def)
    ultimately show ?thesis using readNFiles_refines [OF sim tr _ e response_bound [OF conf]] o by simp
  qed
  have u: "?u = (if fst (isNumber ?arg) = 0 then snd (isNumber ?arg) else unset)" by (simp add: k number_def)
  have arg: "c_string (fst (readn inp' METADATA_SIZE)) = ?arg" by (simp add: readn_def)
  have "serve_read_n env unset (store st) c inp' = None"
    using none unfolding serve_read_n_def u
    by (cases "fst (isNumber ?arg) = 0") (simp_all add: case_prod_beta Let_def arg)
  then show False using run by (simp add: serve_def inp cs code)
qed

lemma work_ok_at:
  assumes ok: "system_ok maxFiles maxSize algo st xs fs" and env: "env_ok env (store st)" and c: "c \<in> set (working st)"
    and dec: "decode inp = Some (r, rest)" and pr: "proper r"
    and step: "worker_serve env unset c inp st = Some (st', out, rest')"
    and sp: "spec_serve env unset fs c r = (fs', out)" and sim: "sim (store st') xs' fs'"
  shows "system_ok maxFiles maxSize algo st' xs' fs'"
proof -
  obtain s where s: "serve env unset (store st) c inp = Some (s, out, rest')"
    and st': "st' = st\<lparr>store := s, working := remove1 c (working st), pipe := pipe st @ pipe_msgs out,
      connected := connected st - closed out\<rparr>"
    using step by (auto simp: worker_serve_def split: bind_splits)
  note w = working_client [OF ok c]
  have fs: "fs_ok fs" and mem: "mem_ok env" using ok env by (simp_all add: system_ok_def env_ok_def)
  have "served c (r = Exit) fs fs' out"
    using spec_serve_served [OF fs mem pr w(2,3) _ sp] waiting_connected [OF ok] by blast
  then have sv: "fs_ok fs'" "limits fs' = limits fs"
      "waiting fs' + returned (pipe_msgs out) = waiting fs + (if r = Exit then {#} else {#c#})"
      "departures (pipe_msgs out) = (if r = Exit then 1 else 0)" "closed out = (if r = Exit then {c} else {})"
      "owners fs' \<subseteq> (if r = Exit then owners fs \<union> set_mset (waiting fs) - {c} else insert c (owners fs \<union> set_mset (waiting fs)))"
    by (simp_all add: served_def)
  have con: "connected st' = connected st - closed out" and fin: "finite (connected st)"
    using ok by (simp_all add: st' system_ok_def manager_ok_def Let_def)
  define M where "M = mset_set (watched (mgr st)) + mset (taskBuffer st) + mset (remove1 c (working st)) + returned (pipe st)"
  have "mset (working st) = {#c#} + mset (remove1 c (working st))" using c by simp
  then have "places st fs = M + (waiting fs + {#c#})" unfolding places_def M_def by (simp only: ac_simps)
  moreover have "places st' fs' = M + (waiting fs' + returned (pipe_msgs out))"
    unfolding places_def M_def by (simp add: st' ac_simps del: mset_remove1)
  ultimately have "places st' fs' = places st fs - (if r = Exit then {#c#} else {#})"
    unfolding sv(3) by simp
  then have pl: "places st' fs' = mset_set (connected st')"
    using ok sv(5) fin w(1) by (auto simp: system_ok_def con mset_set_Diff)
  have cnt: "card (connected st') + departures (pipe st') = card (connected st) + departures (pipe st)"
    using sv(4,5) w(1) fin card_Suc_Diff1 [OF fin w(1)] by (simp add: con st')
  have "manager_ok st'"
    using ok cnt con by (auto simp: system_ok_def manager_ok_def st' Let_def)
  moreover have "owners fs' \<subseteq> connected st'"
    using sv(5,6) ok waiting_connected [OF ok] w(1) by (fastforce simp: con system_ok_def split: if_splits)
  moreover have "config_ok fs'" using ok config_ok_limits [OF sv(2)] by (simp add: system_ok_def)
  ultimately show ?thesis
    using sv(1,2) pl sim ok by (simp add: system_ok_def st')
qed

lemma work_ok:
  assumes ok: "system_ok maxFiles maxSize algo st xs fs" and env: "env_ok env (store st)" and c: "c \<in> set (working st)"
    and dec: "decode inp = Some (r, rest)" and pr: "proper r"
    and step: "worker_serve env unset c inp st = Some (st', out, rest')"
  shows "\<exists>xs' fs'. system_ok maxFiles maxSize algo st' xs' fs' \<and> spec_serve env unset fs c r = (fs', out)"
proof -
  obtain s where s: "serve env unset (store st) c inp = Some (s, out, rest')" and st': "store st' = s"
    using step by (auto simp: worker_serve_def split: bind_splits)
  obtain fs' out' where sp: "spec_serve env unset fs c r = (fs', out')" by fastforce
  obtain s' xs' where "serve env unset (store st) c inp = Some (s', out', rest)" and "sim s' xs' fs'"
    using worker_serve_some [OF ok env c dec pr served_readable [OF ok env c dec s] sp] by blast
  then have "out' = out" and "sim (store st') xs' fs'" using s st' by simp_all
  then show ?thesis using work_ok_at [OF ok env c dec pr step] sp by blast
qed

lemma step_ok:
  assumes "sys_step st st'" and "system_ok maxFiles maxSize algo st xs fs"
  shows "\<exists>xs' fs'. system_ok maxFiles maxSize algo st' xs' fs'"
  using assms
proof (cases rule: sys_step.cases)
  case (accept env c)
  then show ?thesis using accept_ok [OF assms(2)] by blast
next
  case (ready c)
  then show ?thesis using ready_ok [OF assms(2)] by blast
next
  case (message env stop)
  then show ?thesis using message_ok [OF assms(2)] by blast
next
  case take
  then show ?thesis using take_ok [OF assms(2)] by blast
next
  case (work c env inp r rest unset out)
  then show ?thesis using work_ok [OF assms(2)] by blast
next
  case signal
  then show ?thesis using signal_ok [OF assms(2)] by blast
qed

lemma reachable_ok: "reachable maxFiles maxSize algo st \<Longrightarrow> \<exists>xs fs. system_ok maxFiles maxSize algo st xs fs"
proof (induction rule: reachable.induct)
  case (init sock p st)
  then show ?case using start_system_ok by blast
next
  case (step st st')
  then show ?case using step_ok by blast
qed

section \<open>The queue of tasks, and the end\<close>

lemma taskBuffer_room:
  assumes "system_ok maxFiles maxSize algo st xs fs"
  shows "distinct (taskBuffer st)" and "length (taskBuffer st) < MAX_TASKS"
proof -
  have sub: "set (taskBuffer st) \<subseteq> connected st"
    using system_ok_places(1) [OF assms] by (auto simp: places_def)
  have "count (mset (taskBuffer st)) c \<le> 1" for c
  proof -
    have "count (mset (taskBuffer st)) c \<le> count (places st fs) c" by (simp add: places_def)
    also have "\<dots> \<le> 1" unfolding system_ok_places(2) [OF assms, of c] by (cases "c \<in> connected st") simp_all
    finally show ?thesis .
  qed
  then show d: "distinct (taskBuffer st)"
    by (metis count_mset_0_iff distinct_count_atmost_1 le_antisym le_zero_eq linorder_not_less less_one)
  have "connected st \<subseteq> {1..<1024}" using assms by (auto simp: system_ok_def manager_ok_def Let_def)
  then have "card (set (taskBuffer st)) \<le> card {1..<1024 :: int}" using sub by (intro card_mono) auto
  then show "length (taskBuffer st) < MAX_TASKS" using distinct_card [OF d] by (simp add: MAX_TASKS_def)
qed

lemma manager_pipe_stops:
  "manager_pipe env st = Some (st', True) \<Longrightarrow> softExit (mgr st') \<and> clientCount (mgr st') = 0"
  by (auto simp: manager_pipe_def worker_done_def Let_def split: list.splits if_splits bind_splits)

text \<open>A \<open>SIGHUP\<close> is noticed only by a message from the pipe or by the interruption of \<open>select\<close>.
  When it comes while the server is idle, and not in \<open>select\<close>, nothing that may happen later, short of another
  signal in \<open>select\<close>, stops the server: it stays in the same state, refusing connections.\<close>

lemma idle_server_misses_signal:
  assumes ok: "system_ok maxFiles maxSize algo st xs fs" and idle: "connected st = {}" "departures (pipe st) = 0"
    and stop: "softExit (mgr st)" and step: "sys_step\<^sup>*\<^sup>* st st'"
  shows "st' = st \<or> hardExit (mgr st')"
  using step
proof (induction rule: rtranclp_induct)
  case (step y z)
  have keep: "hardExit (mgr z)" if "hardExit (mgr y)"
    using step.hyps(2) that
    by (cases rule: sys_step.cases)
      (auto simp: manager_accept_def accept_client_def manager_request_def client_ready_def manager_pipe_def
        worker_done_def worker_take_def worker_serve_def exitSigHandler_def Let_def split: if_splits list.splits bind_splits)
  have fin: "finite (watched (mgr st))" using ok by (simp add: system_ok_def manager_ok_def Let_def watched_def)
  have "places st fs = {#}" using ok idle by (simp add: system_ok_def)
  then have e: "watched (mgr st) = {}" "taskBuffer st = []" "working st = []" "returned (pipe st) = {#}"
    using fin by (auto simp: places_def mset_set_empty_iff)
  have p: "pipe st = []"
    using idle(2) e(4) by (cases "pipe st") (auto simp: departures_def returned_def split: if_splits)
  have "z = st \<or> hardExit (mgr z)" if "y = st"
    using step.hyps(2) unfolding that
  proof (cases rule: sys_step.cases)
    case accept
    then show ?thesis using stop by (simp add: manager_accept_def accept_client_def)
  next
    case ready
    then show ?thesis using e(1) by (auto simp: watched_def)
  qed (use e p stop in \<open>simp_all add: manager_pipe_def worker_take_def exitSigHandler_def\<close>)
  with step.IH keep show ?case by blast
qed simp

end
