(* ===== verification/HandlerProps.thy ===== *)
theory HandlerProps
  imports System
begin

text \<open>
  The properties of the request handlers, one by one: each does to the store and returns what its
  specification says, never fails on a well-formed store, and leaves a well-formed store. They are
  exercised on the store of \<open>Example\<close>.
\<close>

section \<open>The example as an abstract store\<close>

definition example_env :: env where
  "example_env = \<lparr>now = 300, clock = (\<lambda>_. (12, 34, 56)), self = 7, fresh = 9, mem_ok = True, junk = (\<lambda>_. NUL),
     calloc_ok = True, realloc_ok = (\<lambda>_. True), unpack_ok = (\<lambda>_. True)\<rparr>"

definition file_a :: afile where
  "file_a = \<lparr>a_path = ''/a'', a_data = ''xx'', a_lock = 5, a_wait = [6], a_open = [5], a_first = 0,
     a_refs = 4, a_last = 200, a_ins = 100\<rparr>"

definition file_b :: afile where
  "file_b = \<lparr>a_path = ''/b'', a_data = [], a_lock = 0, a_wait = [], a_open = [5, 6], a_first = 0,
     a_refs = 1, a_last = 150, a_ins = 120\<rparr>"

definition example_fs :: "int \<Rightarrow> fstore" where
  "example_fs algo = \<lparr>f_files = [file_a, file_b], f_maxNum = 2, f_maxSize = 10, f_algo = algo, f_log = [],
     f_topNum = 2, f_topSize = 3, f_victims = 0\<rparr>"

lemma example_files: "abs_file example_a = file_a" "abs_file example_b = file_b"
proof -
  show "abs_file example_a = file_a"
    unfolding abs_file_def example_data file_a_def by (simp add: example_a_def)
  show "abs_file example_b = file_b"
    unfolding abs_file_def example_data file_b_def by (simp add: example_b_def)
qed

lemma example_sim: "0 \<le> algo \<Longrightarrow> algo \<le> 2 \<Longrightarrow> sim (example_store algo) [1, 2] (example_fs algo)"
proof -
  assume "0 \<le> algo" "algo \<le> 2"
  note rep = example_rep [OF this]
  have h: "heap (example_store algo) 1 = Some example_a" "heap (example_store algo) 2 = Some example_b"
    by (simp_all add: example_store_def)
  have "abs_files (example_store algo) [1, 2] = [file_a, file_b]"
    unfolding abs_files_simps h option.sel example_files ..
  then have "abs_store (example_store algo) [1, 2] = example_fs algo"
    by (simp add: abs_store_def example_fs_def) (simp add: example_store_def)
  moreover have "quiet (node_at (example_store algo) a)" if "a \<in> set [1, 2]" for a
    using that example_quiet h [unfolded One_nat_def] by auto
  ultimately show ?thesis using rep unfolding sim_busy_def by blast
qed

lemma example_sim0: "sim (example_store 0) [1, 2] (example_fs 0)"
  by (rule example_sim) simp_all

lemma example_csize [simp]: "csize file_a = 3" "csize file_b = 0"
proof -
  show "csize file_a = 3" unfolding csize_def file_a_def by (simp add: example_xx del: rle_spec.simps)
  show "csize file_b = 0" by (simp add: csize_def file_b_def)
qed

lemma example_fs_ok: "fs_ok (example_fs algo)"
  by (simp add: fs_ok_def example_fs_def file_ok_def PATH_LIMIT_def del: example_csize add: example_csize)
    (simp add: file_a_def file_b_def)

lemma example_request: "length path \<le> 700 \<Longrightarrow> \<bar>c\<bar> < 2 ^ 31 \<Longrightarrow> request_ok example_env path c"
  by (simp add: request_ok_def example_env_def PATH_LIMIT_def)

lemma example_alloc: "alloc_ok example_env (example_store algo)"
  by (simp add: alloc_ok_def example_env_def example_store_def)

lemma file_sel [simp]:
  "a_path file_a = ''/a''" "a_data file_a = ''xx''" "a_lock file_a = 5" "a_wait file_a = [6]" "a_open file_a = [5]"
  "a_first file_a = 0" "a_path file_b = ''/b''" "a_data file_b = []" "a_lock file_b = 0" "a_wait file_b = []"
  "a_open file_b = [5, 6]" "a_first file_b = 0"
  by (simp_all add: file_a_def file_b_def)

lemma example_sel [simp]:
  "f_files (example_fs algo) = [file_a, file_b]" "f_algo (example_fs algo) = algo" "f_maxNum (example_fs algo) = 2"
  "f_maxSize (example_fs algo) = 10"
  by (simp_all add: example_fs_def)

lemma files_sel:
  "f_files (upd path g fs) = a_update path g (f_files fs)" "f_files (logged env op path outcome requestor n fs) = f_files fs"
  "f_files (spec_add f fs) = f_files fs @ [f]"
  by (simp_all add: upd_def logged_def spec_add_def)

lemma example_lookup [simp]:
  "a_lookup [file_a, file_b] ''/a'' = Some file_a" "a_lookup [file_a, file_b] ''/b'' = Some file_b"
  "a_lookup [file_a, file_b] ''/c'' = None"
  by (simp_all add: a_lookup_def)

section \<open>Reading\<close>

text \<open>C7: \<open>readFileHandler\<close> refines its specification: on a store that represents a well-formed
  list of files it returns the uncompressed content of the file with its length, or \<open>EINVAL\<close>, \<open>ENOENT\<close>
  or \<open>EACCES\<close> exactly in the specified cases, logs the request, marks the file as used, and leaves a
  store that represents the specified, again well-formed, files.\<close>

theorem readFileHandler_correct:
  assumes "sim s xs fs" and "fs_ok fs" and "request_ok env path c" and "spec_read env fs path c = (r, fs')"
  shows "fs_ok fs' \<and> (\<exists>s'. readFileHandler env s path c =
    Some (case r of Inl e \<Rightarrow> Inl e | Inr d \<Rightarrow> Inr (d, length d), s') \<and> sim s' xs fs')"
  using readFile_refines [OF assms] fs_ok_read [OF assms(2,4)] by blast

theorem readFileHandler_correct_witness:
  "\<exists>s'. readFileHandler example_env (example_store 0) ''/a'' 5 = Some (Inr (''xx'', 2), s') \<and>
     (\<exists>fs'. sim s' [1, 2] fs' \<and> fs_ok fs')"
proof -
  obtain fs' where sp: "spec_read example_env (example_fs 0) ''/a'' 5 = (Inr ''xx'', fs')"
    by (simp add: spec_read_def bad_input_def granted_def)
  have req: "request_ok example_env ''/a'' 5" by (rule example_request) simp_all
  show ?thesis
    using readFileHandler_correct [OF example_sim0 example_fs_ok req sp] by (auto simp: numeral_2_eq_2)
qed

section \<open>Opening, with eviction\<close>

text \<open>C6: \<open>openFileHandler\<close> refines its specification, for any flags: an existing file is opened, and
  locked if it is free; a new one is created, after one victim of the replacement policy is evicted
  when the store is full, whose waiting clients are handed back to be notified; \<open>EINVAL\<close>, \<open>EPERM\<close> (for an
  existing file with \<open>O_CREATE\<close>), \<open>EACCES\<close> and \<open>ENOMEM\<close> are returned in exactly the specified cases.
  Opening a file that does not exist without \<open>O_CREATE\<close> fails and changes nothing; which error it fails
  with is not part of the property, since the comment of the handler promises \<open>EPERM\<close> there and the code
  returns \<open>ENOENT\<close>. The hash table, the linked list and the counters stay consistent, and the limits are kept.\<close>

theorem openFileHandler_correct:
  assumes "sim s xs fs" and "fs_ok fs" and "alloc_ok env s" and "request_ok env path c" and "NUL \<notin> set path"
    and "spec_open env fs path flags notify c = (r, notify', fs')"
  shows "fs_ok fs' \<and> (\<exists>r' s' xs'. openFileHandler env s path flags notify c = Some (r', notify', s') \<and> sim s' xs' fs' \<and>
    (if path \<noteq> [] \<and> 0 < c \<and> a_lookup (f_files fs) path = None \<and> \<not> IS_SET O_CREATE flags
     then (\<exists>e. r' = Inl e) \<and> fs' = fs \<and> notify' = notify else r' = r))"
proof -
  obtain s' xs' where o: "openFileHandler env s path flags notify c = Some (r, notify', s')" "sim s' xs' fs'"
    using openFile_refines [OF assms(1-4,6)] by blast
  have "r = Inl ENOENT \<and> fs' = fs \<and> notify' = notify"
    if "path \<noteq> []" "0 < c" "a_lookup (f_files fs) path = None" "\<not> IS_SET O_CREATE flags"
    using assms(6) that by (auto simp: spec_open_def)
  moreover have "fs_ok fs'" using fs_ok_open [OF assms(2) _ assms(5,6)] assms(4) by (simp add: request_ok_def)
  ultimately show ?thesis using o by (intro conjI exI [of _ r] exI [of _ s'] exI [of _ xs']) auto
qed

theorem openFileHandler_correct_witness:
  "\<exists>s' xs' fs'. openFileHandler example_env (example_store FIFO_ALGO) ''/c'' 3 [] 6 = Some (Inr 0, [6], s') \<and>
     sim s' xs' fs' \<and> fs_ok fs' \<and> map a_path (f_files fs') = [''/b'', ''/c''] \<and> map a_lock (f_files fs') = [0, 6]"
proof -
  have flags: "IS_SET O_CREATE 3" "IS_SET O_LOCK 3" by (simp_all add: IS_SET_def O_CREATE_def O_LOCK_def)
  have v: "a_victim FIFO_ALGO None [file_a, file_b] = Some file_a" by (simp add: a_victim_def candidates_def)
  obtain fs' where sp: "spec_open example_env (example_fs FIFO_ALGO) ''/c'' 3 [] 6 = (Inr 0, [6], fs')"
    and f: "map a_path (f_files fs') = [''/b'', ''/c'']" "map a_lock (f_files fs') = [0, 6]"
    using v flags by (simp add: spec_open_def spec_make_room_def Let_def example_env_def files_sel new_file_def a_reset_def)
  have algo: "0 \<le> FIFO_ALGO" "FIFO_ALGO \<le> 2" by (simp_all add: FIFO_ALGO_def)
  have req: "request_ok example_env ''/c'' 6" and nn: "NUL \<notin> set ''/c''" by (rule example_request) simp_all
  note o = openFileHandler_correct [OF example_sim [OF algo] example_fs_ok example_alloc req nn sp]
  obtain r' s' xs' where "fs_ok fs'" "sim s' xs' fs'" "r' = Inr 0"
    and "openFileHandler example_env (example_store FIFO_ALGO) ''/c'' 3 [] 6 = Some (r', [6], s')"
    using o flags by (elim conjE exE) (simp only: simp_thms if_False)
  then show ?thesis using f by (intro exI [of _ s'] exI [of _ xs'] exI [of _ fs'] conjI) simp_all
qed

section \<open>Locks\<close>

text \<open>C8: \<open>lockFileHandler\<close> refines its specification: a free file, or one that the client has already
  locked, is locked; otherwise the client goes to the end of the file's queue (return value -2); a missing
  file or an empty name is an error.\<close>

theorem lockFileHandler_correct:
  assumes "sim s xs fs" and "fs_ok fs" and "request_ok env path c" and "0 < c" and "spec_lock env fs path c = (r, fs')"
  shows "fs_ok fs' \<and> (\<exists>s'. lockFileHandler env s path c = Some (r, s') \<and> sim s' xs fs')"
  using lockFile_refines [OF assms(1,3-5)] fs_ok_lock [OF assms(2,4,5)] by blast

theorem lockFileHandler_correct_witness:
  "\<exists>s' fs'. lockFileHandler example_env (example_store 0) ''/a'' 8 = Some (Inr (- 2), s') \<and> sim s' [1, 2] fs' \<and>
     fs_ok fs' \<and> a_wait (hd (f_files fs')) = [6, 8]"
proof -
  obtain fs' where sp: "spec_lock example_env (example_fs 0) ''/a'' 8 = (Inr (- 2), fs')" and f: "a_wait (hd (f_files fs')) = [6, 8]"
    by (simp add: spec_lock_def files_sel)
  have req: "request_ok example_env ''/a'' 8" by (rule example_request) simp_all
  show ?thesis using lockFileHandler_correct [OF example_sim0 example_fs_ok req _ sp] f by simp blast
qed

text \<open>C9: \<open>unlockFileHandler\<close> refines its specification: the owner of the lock hands it to the client that
  has waited longest, whose descriptor is returned, or frees the file; any other client gets \<open>EACCES\<close> and
  the lock stays.\<close>

theorem unlockFileHandler_correct:
  assumes "sim s xs fs" and "fs_ok fs" and "request_ok env path c"
    and "spec_unlock env fs path newLockFd c = (r, newLock, fs')"
  shows "fs_ok fs' \<and> (\<exists>s'. unlockFileHandler env s path newLockFd c = Some (r, newLock, s') \<and> sim s' xs fs')"
  using unlockFile_refines [OF assms(1,3,4)] fs_ok_unlock [OF assms(2,4)] by blast

theorem unlockFileHandler_correct_witness:
  "\<exists>s' fs'. unlockFileHandler example_env (example_store 0) ''/a'' 0 5 = Some (Inr 0, 6, s') \<and> sim s' [1, 2] fs' \<and>
     fs_ok fs' \<and> map a_lock (f_files fs') = [6, 0]"
proof -
  obtain fs' where sp: "spec_unlock example_env (example_fs 0) ''/a'' 0 5 = (Inr 0, 6, fs')" and f: "map a_lock (f_files fs') = [6, 0]"
    by (simp add: spec_unlock_def files_sel bad_input_def hand_over_def)
  have req: "request_ok example_env ''/a'' 5" by (rule example_request) simp_all
  show ?thesis using unlockFileHandler_correct [OF example_sim0 example_fs_ok req sp] f by (elim conjE exE) (intro exI conjI, assumption+)
qed

section \<open>Closing, removing, leaving\<close>

text \<open>\<open>closeFileHandler\<close> refines its specification: one entry of the client is dropped from the list
  of those that opened the file, and a first write is no longer allowed.\<close>

theorem closeFileHandler_correct:
  assumes "sim s xs fs" and "fs_ok fs" and "request_ok env path c" and "spec_close env fs path c = (r, fs')"
  shows "fs_ok fs' \<and> (\<exists>s'. closeFileHandler env s path c = Some (r, s') \<and> sim s' xs fs')"
  using closeFile_refines [OF assms(1,3,4)] fs_ok_close [OF assms(2,4)] by blast

theorem closeFileHandler_correct_witness:
  "\<exists>s' fs'. closeFileHandler example_env (example_store 0) ''/b'' 5 = Some (Inr 0, s') \<and> sim s' [1, 2] fs' \<and>
     fs_ok fs' \<and> map a_open (f_files fs') = [[5], [6]]"
proof -
  obtain fs' where sp: "spec_close example_env (example_fs 0) ''/b'' 5 = (Inr 0, fs')" and f: "map a_open (f_files fs') = [[5], [6]]"
    by (simp add: spec_close_def files_sel bad_input_def)
  have req: "request_ok example_env ''/b'' 5" by (rule example_request) simp_all
  show ?thesis using closeFileHandler_correct [OF example_sim0 example_fs_ok req sp] f by (elim conjE exE) (intro exI conjI, assumption+)
qed

text \<open>C10: \<open>removeFileHandler\<close> refines its specification: only the owner of the lock removes a file, and
  the clients that waited for it are all handed back to be notified.\<close>

theorem removeFileHandler_correct:
  assumes "sim s xs fs" and "fs_ok fs" and "request_ok env path c" and "spec_remove env fs path notify c = (r, notify', fs')"
  shows "fs_ok fs' \<and> (\<exists>s' xs'. removeFileHandler env s path notify c = Some (r, notify', s') \<and> sim s' xs' fs')"
  using removeFile_refines [OF assms(1,3,4)] fs_ok_remove_file [OF assms(2,4)] by blast

theorem removeFileHandler_correct_witness:
  "\<exists>s' xs' fs'. removeFileHandler example_env (example_store 0) ''/a'' [] 5 = Some (Inr 0, [6], s') \<and> sim s' xs' fs' \<and>
     fs_ok fs' \<and> map a_path (f_files fs') = [''/b'']"
proof -
  obtain fs' where sp: "spec_remove example_env (example_fs 0) ''/a'' [] 5 = (Inr 0, [6], fs')" and f: "map a_path (f_files fs') = [''/b'']"
    by (simp add: spec_remove_def files_sel bad_input_def)
  have req: "request_ok example_env ''/a'' 5" by (rule example_request) simp_all
  show ?thesis using removeFileHandler_correct [OF example_sim0 example_fs_ok req sp] f by (elim conjE exE) (intro exI conjI, assumption+)
qed

text \<open>C11: \<open>clientExitHandler\<close> refines its specification: over all files, the client's locks pass to the
  first waiters, which are handed back to be notified, and the client is dropped from the queues and from
  the lists of those that opened a file.\<close>

theorem clientExitHandler_correct:
  assumes "sim s xs fs" and "fs_ok fs" and "spec_exit fs notify c = (r, notify', fs')"
  shows "fs_ok fs' \<and> (\<exists>s'. clientExitHandler s notify c = Some (r, notify', s') \<and> sim s' xs fs')"
  using clientExit_refines [OF assms] fs_ok_exit [OF assms(2,3)] by blast

theorem clientExitHandler_correct_witness:
  "\<exists>s' fs'. clientExitHandler (example_store 0) [] 5 = Some (Inr 0, [6], s') \<and> sim s' [1, 2] fs' \<and>
     fs_ok fs' \<and> map a_lock (f_files fs') = [6, 0] \<and> map a_open (f_files fs') = [[], [6]]"
proof -
  obtain fs' where sp: "spec_exit (example_fs 0) [] 5 = (Inr 0, [6], fs')"
    and f: "map a_lock (f_files fs') = [6, 0]" "map a_open (f_files fs') = [[], [6]]"
    by (simp add: spec_exit_def exit_notify_def exit_file_def hand_over_def)
  show ?thesis using clientExitHandler_correct [OF example_sim0 example_fs_ok sp] f by (elim conjE exE) (intro exI conjI, assumption+)
qed

end
