(* ===== verification/WriteProps.thy ===== *)
theory WriteProps
  imports HandlerProps
begin

text \<open>
  The properties of writing: what is written can be read back, nothing else is lost without being sent
  to the client, files are evicted only while they have to be, and a content that can never fit changes
  nothing.
\<close>

section \<open>Evictions keep every content\<close>

definition contents :: "afile list \<Rightarrow> (cstring \<times> char list) multiset" where
  "contents fs = mset (map (\<lambda>f. (a_path f, a_data f)) fs)"

lemma contents_remove:
  assumes "fs_ok fs" and "a_lookup (f_files fs) p = Some f"
  shows "contents (f_files fs) = contents (a_remove p (f_files fs)) + {#(a_path f, a_data f)#}"
  by (rule lookup_split [OF assms]) (simp add: contents_def)

lemma contents_size: "contents fs = contents gs \<Longrightarrow> total_size fs = total_size gs"
proof -
  assume "contents fs = contents gs"
  then have "image_mset (\<lambda>(p, d). length (rle_spec d)) (contents fs) = image_mset (\<lambda>(p, d). length (rle_spec d)) (contents gs)"
    by simp
  then have "sum_mset (mset (map csize fs)) = sum_mset (mset (map csize gs))"
    by (simp add: contents_def csize_def [abs_def] image_mset.compositionality comp_def flip: mset_map)
  then show ?thesis by (simp only: total_size_def sum_mset_sum_list)
qed

lemma contents_reset [simp]: "contents (a_reset fs) = contents fs"
  by (simp add: contents_def a_reset_def comp_def)

lemma contents_others:
  "a_remove p (a_update p g fs) = a_remove p fs" if "\<And>f. a_path (g f) = a_path f"
  using that by (induction fs) auto

lemma victim_lookup:
  assumes "fs_ok fs" and "a_victim algo spare (f_files fs) = Some v"
  shows "a_lookup (f_files fs) (a_path v) = Some v" and "spare = Some p \<Longrightarrow> a_path v \<noteq> p"
  using a_victim_in [OF assms(2)] assms(1) a_lookup_iff [of "f_files fs" "a_path v" v]
  by (auto simp: fs_ok_def)

lemma remove_remove: "a_remove p (a_remove q fs) = a_remove q (a_remove p fs)"
  by (simp add: a_remove_def conj_commute)

lemma evict_contents:
  assumes "fs_ok fs" and "spec_evict env path need c fs notify evs = (fs', notify', evs')"
  shows "contents (a_remove path (f_files fs')) + contents evs' = contents (a_remove path (f_files fs)) + contents evs"
    and "evs' \<noteq> evs \<Longrightarrow> f_maxSize fs < total_size (a_remove path (f_files fs')) + csize (hd evs') + need"
proof -
  have "contents (a_remove path (f_files fs')) + contents evs' = contents (a_remove path (f_files fs)) + contents evs \<and>
      (evs' \<noteq> evs \<longrightarrow> f_maxSize fs < total_size (a_remove path (f_files fs')) + csize (hd evs') + need)"
    using assms
  proof (induction env path need c fs notify evs rule: spec_evict.induct)
    case (1 env path need c fs notify evs)
    show ?case
    proof (cases "f_maxSize fs < total_size (a_remove path (f_files fs)) + need \<and> a_victim (f_algo fs) (Some path) (f_files fs) \<noteq> None")
      case True
      then obtain v where v: "a_victim (f_algo fs) (Some path) (f_files fs) = Some v"
        and go: "f_maxSize fs < total_size (a_remove path (f_files fs)) + need" by blast
      let ?fs = "logged env ''EVICTED'' (a_path v) 0 c 0
        (fs\<lparr>f_files := a_remove (a_path v) (f_files fs), f_victims := size_add (f_victims fs) 1\<rparr>)"
      let ?evs = "v\<lparr>a_open := []\<rparr> # evs"
      note l = victim_lookup [OF "1.prems"(1) v]
      have ne: "a_path v \<noteq> path" using l(2) by simp
      have "fs_ok (fs\<lparr>f_files := a_remove (a_path v) (f_files fs)\<rparr>)" using "1.prems"(1) by (rule fs_ok_remove)
      then have ok: "fs_ok ?fs" by (simp add: fs_ok_def)
      have run: "spec_evict env path need c ?fs (notify @ a_wait v) ?evs = (fs', notify', evs')"
        using "1.prems"(2) v go by (subst (asm) spec_evict.simps) simp
      have ff: "f_files ?fs = a_remove (a_path v) (f_files fs)" "f_maxSize ?fs = f_maxSize fs" by (simp_all add: logged_def)
      have ih: "contents (a_remove path (f_files fs')) + contents evs' = contents (a_remove path (f_files ?fs)) + contents ?evs"
        "evs' \<noteq> ?evs \<Longrightarrow> f_maxSize fs < total_size (a_remove path (f_files fs')) + csize (hd evs') + need"
        using 1(1) [OF go v ok run] ff by simp_all
      let ?others = "fs\<lparr>f_files := a_remove path (f_files fs)\<rparr>"
      have lo: "a_lookup (f_files ?others) (a_path v) = Some v"
        using l(1) ne by (simp add: a_lookup_remove)
      have oo: "fs_ok ?others" by (rule fs_ok_remove [OF "1.prems"(1)])
      have "contents (a_remove path (f_files fs)) = contents (a_remove path (f_files ?fs)) + {#(a_path v, a_data v)#}"
        using contents_remove [OF oo lo] by (simp add: ff remove_remove)
      then have 1: "contents (a_remove path (f_files fs')) + contents evs' = contents (a_remove path (f_files fs)) + contents evs"
        using ih(1) by (simp add: contents_def)
      have sz: "total_size (a_remove path (f_files fs)) = csize v + total_size (a_remove path (f_files ?fs))"
        using total_size_split [of "f_files ?others" "a_path v" v] lo oo by (simp add: fs_ok_def ff remove_remove)
      have 2: "f_maxSize fs < total_size (a_remove path (f_files fs')) + csize (hd evs') + need"
      proof (cases "evs' = ?evs")
        case True
        then have "contents (a_remove path (f_files fs')) = contents (a_remove path (f_files ?fs))" using ih(1) by simp
        then have "total_size (a_remove path (f_files fs')) = total_size (a_remove path (f_files ?fs))"
          using contents_size by metis
        then show ?thesis using True go sz by (simp add: csize_def)
      qed (use ih(2) in blast)
      show ?thesis using 1 2 by simp
    next
      case False
      then have "spec_evict env path need c fs notify evs = (fs, notify, evs)"
        by (subst spec_evict.simps) (auto split: option.splits)
      then show ?thesis using "1.prems"(2) by simp
    qed
  qed
  then show "contents (a_remove path (f_files fs')) + contents evs' = contents (a_remove path (f_files fs)) + contents evs"
    and "evs' \<noteq> evs \<Longrightarrow> f_maxSize fs < total_size (a_remove path (f_files fs')) + csize (hd evs') + need" by blast+
qed

section \<open>A successful write\<close>

text \<open>What the specification of a write that succeeds comes to.\<close>

lemma spec_write_ok:
  assumes ok: "fs_ok fs" and spec: "spec_write env fs path d c = (Inr k, notify, evs, fs')"
  obtains f f' where "a_lookup (f_files fs) path = Some f" and "granted f c" and "\<not> bad_input path c" and "k = 0"
    and "a_lookup (f_files fs') path = Some f'" and "a_data f' = a_data f @ d" and "a_first f' = 0"
    and "a_lock f' = a_lock f" and "a_open f' = a_open f" and "a_wait f' = a_wait f"
    and "contents (a_remove path (f_files fs')) + contents evs = contents (a_remove path (f_files fs))"
    and "evs \<noteq> [] \<longrightarrow> f_maxSize fs < total_size (a_remove path (f_files fs')) + csize (hd evs) + length (rle_spec (a_data f @ d))"
    and "waiting fs' + mset notify = waiting fs"
proof -
  obtain f where f: "a_lookup (f_files fs) path = Some f" "granted f c" "\<not> bad_input path c"
    using spec by (auto simp: spec_write_def split: if_splits option.splits)
  let ?need = "length (rle_spec (a_data f @ d))" and ?fs1 = "upd path (touch env) fs"
  have max: "f_maxSize ?fs1 = f_maxSize fs" by (simp add: upd_def)
  then have room: "\<not> f_maxSize fs < ?need" using spec f by (auto simp: spec_write_def split: if_splits)
  obtain fs2 n2 ev2 where ev: "spec_evict env path ?need c ?fs1 [] [] = (fs2, n2, ev2)" using prod_cases3 by blast
  let ?fs3 = "fs2\<lparr>f_files := a_reset (f_files fs2)\<rparr>"
  have fs': "fs' = upd path (\<lambda>f. f\<lparr>a_first := 0\<rparr>) (logged env ''WRITE'' path 0 c (length d) (spec_store path d ?fs3))"
    and out: "notify = n2" "evs = ev2" "k = 0"
    using spec f room ev max by (auto simp: spec_write_def Let_def)
  have ok1: "fs_ok ?fs1" by (rule fs_ok_upd_touch [OF ok])
  have l1: "a_lookup (f_files ?fs1) path = Some (touch env f)" using f(1) by (simp add: upd_def lookup_update)
  have l2: "a_lookup (f_files fs2) path = Some (touch env f)" using spec_evict_keeps(1) [OF ev] l1 by simp
  let ?f' = "((touch env f)\<lparr>a_refs := 0\<rparr>)\<lparr>a_data := a_data f @ d, a_first := 0\<rparr>"
  have files: "f_files (spec_store path d fs0) = a_update path (\<lambda>f. f\<lparr>a_data := a_data f @ d\<rparr>) (f_files fs0)" for fs0
    by (simp add: spec_store_def Let_def upd_def)
  have l': "a_lookup (f_files fs') path = Some ?f'"
    using l2 by (simp add: fs' files_sel files lookup_update lookup_reset)
  have oth: "a_remove path (f_files fs') = a_reset (a_remove path (f_files fs2))"
    by (simp add: fs' files_sel files contents_others a_remove_reset)
  note e = evict_contents [OF ok1 ev]
  have 1: "contents (a_remove path (f_files fs')) + contents evs = contents (a_remove path (f_files fs))"
    using e(1) by (simp add: oth out files_sel contents_others) (simp add: contents_def)
  have 2: "evs \<noteq> [] \<longrightarrow> f_maxSize fs < total_size (a_remove path (f_files fs')) + csize (hd evs) + ?need"
    using e(2) max by (simp add: oth out)
  have 3: "waiting fs' + mset notify = waiting fs" using write_clients [OF ok spec] by simp
  show ?thesis by (rule that [OF f out(3) l' _ _ _ _ _ 1 2 3]) simp_all
qed

text \<open>On the example: eight more bytes in \<open>/b\<close> push \<open>/a\<close> out.\<close>

lemma example_need: "length (rle_spec ''abcdefgh'') = 8"
  by code_simp

lemma example_write:
  obtains fs' where "spec_write example_env (example_fs FIFO_ALGO) ''/b'' ''abcdefgh'' 5 =
      (Inr 0, [6], [file_a\<lparr>a_open := []\<rparr>], fs')" and "map a_data (f_files fs') = [''abcdefgh'']"
proof -
  let ?fs = "upd ''/b'' (touch example_env) (example_fs FIFO_ALGO)"
  have files: "f_files ?fs = [file_a, touch example_env file_b]" by (simp add: files_sel)
  have max: "f_maxSize ?fs = 10" "f_algo ?fs = FIFO_ALGO" by (simp_all add: upd_def)
  have v: "a_victim FIFO_ALGO (Some ''/b'') [file_a, touch example_env file_b] = Some file_a"
    by (simp add: a_victim_def candidates_def)
  have ev: "\<exists>fs2. spec_evict example_env ''/b'' 8 5 ?fs [] [] = (fs2, [6], [file_a\<lparr>a_open := []\<rparr>]) \<and>
      f_files fs2 = [touch example_env file_b]"
    by (subst spec_evict.simps, subst spec_evict.simps) (simp add: max v files files_sel logged_def)
  then obtain fs2 where fs2: "spec_evict example_env ''/b'' 8 5 ?fs [] [] = (fs2, [6], [file_a\<lparr>a_open := []\<rparr>])"
    "f_files fs2 = [touch example_env file_b]" by blast
  have "spec_write example_env (example_fs FIFO_ALGO) ''/b'' ''abcdefgh'' 5 =
      (Inr 0, [6], [file_a\<lparr>a_open := []\<rparr>], upd ''/b'' (\<lambda>f. f\<lparr>a_first := 0\<rparr>)
        (logged example_env ''WRITE'' ''/b'' 0 5 (length ''abcdefgh'') (spec_store ''/b'' ''abcdefgh'' (fs2\<lparr>f_files := a_reset (f_files fs2)\<rparr>))))"
    using fs2 max example_need by (simp add: spec_write_def bad_input_def granted_def)
  moreover have "map a_data (f_files (upd ''/b'' (\<lambda>f. f\<lparr>a_first := 0\<rparr>)
        (logged example_env ''WRITE'' ''/b'' 0 5 (length ''abcdefgh'') (spec_store ''/b'' ''abcdefgh'' (fs2\<lparr>f_files := a_reset (f_files fs2)\<rparr>))))) =
      [''abcdefgh'']"
    using fs2(2) by (simp add: files_sel spec_store_def Let_def a_reset_def)
  ultimately show ?thesis by (rule that)
qed

lemma example_sim_FIFO: "sim (example_store FIFO_ALGO) [1, 2] (example_fs FIFO_ALGO)"
  by (rule example_sim) (simp_all add: FIFO_ALGO_def)

lemma example_request_b: "request_ok example_env ''/b'' 5"
  by (rule example_request) simp_all

text \<open>C5: \<open>writeToFileHandler\<close> refines its specification, for any content whose length is within its
  block: it never runs out of victims nor fails on the way, returns \<open>EINVAL\<close>, \<open>ENOENT\<close>, \<open>EACCES\<close> or \<open>E2BIG\<close>
  exactly in the specified cases, leaves a store that represents the specified files, and hands back the
  evicted files as a list of intact nodes that are no longer in the store. The store stays well-formed
  and within its limits too, unless the write makes a file whose whole content is a single NUL byte,
  which the write stores but whose compressed form cannot be decompressed.\<close>

theorem writeToFileHandler_correct:
  assumes "sim s xs fs" and "fs_ok fs" and "request_ok env path c" and "len \<le> length buf" and "len < 2 ^ 60"
    and "spec_write env fs path (take len buf) c = (r, notify, evs, fs')"
  shows "(\<exists>s' xs' ep es. writeToFileHandler env s path buf len [] NULL c = Some (r, notify, ep, s') \<and>
      sim s' xs' fs' \<and> evicted_rep s' ep es evs \<and> set es \<inter> set xs' = {}) \<and>
    ((\<forall>f. a_lookup (f_files fs) path = Some f \<longrightarrow> a_data f @ take len buf \<noteq> [NUL]) \<longrightarrow> fs_ok fs')"
  using writeToFile_refines [OF assms] fs_ok_write [OF assms(2) _ assms(6)] by blast

theorem writeToFileHandler_correct_witness:
  "\<exists>s' xs' fs' ep es evs. writeToFileHandler example_env (example_store FIFO_ALGO) ''/b'' ''abcdefgh'' 8 [] NULL 5 =
     Some (Inr 0, [6], ep, s') \<and> sim s' xs' fs' \<and> fs_ok fs' \<and> map a_data (f_files fs') = [''abcdefgh''] \<and>
     evicted_rep s' ep es evs \<and> map a_path evs = [''/a'']"
proof -
  obtain fs' where sp: "spec_write example_env (example_fs FIFO_ALGO) ''/b'' (take 8 ''abcdefgh'') 5 =
      (Inr 0, [6], [file_a\<lparr>a_open := []\<rparr>], fs')" and f: "map a_data (f_files fs') = [''abcdefgh'']"
    using example_write by auto
  have p: "map a_path [file_a\<lparr>a_open := []\<rparr>] = [''/a'']" by simp
  have sz: "8 \<le> length ''abcdefgh''" "(8::nat) < 2 ^ 60" by simp_all
  have nz: "\<forall>f. a_lookup (f_files (example_fs FIFO_ALGO)) ''/b'' = Some f \<longrightarrow> a_data f @ take 8 ''abcdefgh'' \<noteq> [NUL]"
    by (auto simp: append_eq_Cons_conv)
  note c = writeToFileHandler_correct [OF example_sim_FIFO example_fs_ok example_request_b sz sp]
  have "fs_ok fs'" using c nz by blast
  then show ?thesis using c f p
    by (elim conjE exE) (intro exI conjI, assumption+)
qed

text \<open>C21: A successful write appends to the file and loses nothing: every other file is still in the
  store or is handed back among the evicted ones, with its name and content; the clients that waited for
  an evicted file are all in the list to notify; and the last eviction was necessary, since with that
  file the new content would not have fitted.\<close>

theorem write_loses_nothing:
  assumes "sim s xs fs" and "fs_ok fs" and "request_ok env path c" and "len \<le> length buf" and "len < 2 ^ 60"
    and "writeToFileHandler env s path buf len [] NULL c = Some (Inr k, notify, ep, s')"
  shows "\<exists>xs' fs' es evs f f'. sim s' xs' fs' \<and> evicted_rep s' ep es evs \<and>
    a_lookup (f_files fs) path = Some f \<and> a_lookup (f_files fs') path = Some f' \<and> a_data f' = a_data f @ take len buf \<and>
    contents (a_remove path (f_files fs')) + contents evs = contents (a_remove path (f_files fs)) \<and>
    waiting fs' + mset notify = waiting fs \<and>
    (evs \<noteq> [] \<longrightarrow> f_maxSize fs < total_size (a_remove path (f_files fs')) + csize (hd evs) + csize f')"
proof -
  obtain r n evs fs' where sp: "spec_write env fs path (take len buf) c = (r, n, evs, fs')" using prod_cases4 by blast
  then obtain xs' es where "r = Inr k" "n = notify" and sim: "sim s' xs' fs'" and ev: "evicted_rep s' ep es evs"
    using writeToFile_refines [OF assms(1-5) sp] assms(6) by auto
  then have "spec_write env fs path (take len buf) c = (Inr k, notify, evs, fs')" using sp by simp
  from spec_write_ok [OF assms(2) this] obtain f f' where "a_lookup (f_files fs) path = Some f"
    "a_lookup (f_files fs') path = Some f'" and d: "a_data f' = a_data f @ take len buf"
    and "contents (a_remove path (f_files fs')) + contents evs = contents (a_remove path (f_files fs))"
    "waiting fs' + mset notify = waiting fs"
    "evs \<noteq> [] \<longrightarrow> f_maxSize fs < total_size (a_remove path (f_files fs')) + csize (hd evs) + length (rle_spec (a_data f @ take len buf))"
    by metis
  moreover have "csize f' = length (rle_spec (a_data f @ take len buf))" using d by (simp add: csize_def)
  ultimately show ?thesis using sim ev by (intro exI [of _ xs'] exI [of _ fs'] exI [of _ es] exI [of _ evs] exI [of _ f] exI [of _ f']) simp
qed

theorem write_loses_nothing_witness:
  "\<exists>s' notify ep xs' fs' es evs. writeToFileHandler example_env (example_store FIFO_ALGO) ''/b'' ''abcdefgh'' 8 [] NULL 5 =
     Some (Inr 0, notify, ep, s') \<and> sim s' xs' fs' \<and> evicted_rep s' ep es evs \<and>
     contents (a_remove ''/b'' (f_files fs')) + contents evs = {#(''/a'', ''xx'')#}"
proof -
  obtain fs0 where sp: "spec_write example_env (example_fs FIFO_ALGO) ''/b'' (take 8 ''abcdefgh'') 5 =
      (Inr 0, [6], [file_a\<lparr>a_open := []\<rparr>], fs0)"
    using example_write by auto
  have sz: "8 \<le> length ''abcdefgh''" "(8::nat) < 2 ^ 60" by simp_all
  obtain s' ep where w: "writeToFileHandler example_env (example_store FIFO_ALGO) ''/b'' ''abcdefgh'' 8 [] NULL 5 =
      Some (Inr 0, [6], ep, s')"
    using writeToFile_refines [OF example_sim_FIFO example_fs_ok example_request_b sz(1,2) sp] by blast
  have c: "contents (a_remove ''/b'' (f_files (example_fs FIFO_ALGO))) = {#(''/a'', ''xx'')#}"
    by (simp add: contents_def)
  show ?thesis
    using write_loses_nothing [OF example_sim_FIFO example_fs_ok example_request_b sz w] w unfolding c by blast
qed

section \<open>Reading back, and contents that cannot fit\<close>

text \<open>C22: What a client has written it reads back: after a successful write, the next read of the file by
  the same client succeeds and returns the old content followed by the new one, through compression,
  eviction and decompression. The one exception is a file whose whole content is now a single NUL
  byte: nothing is claimed of reading it, because decompressing it leaves the block.\<close>

theorem write_then_read:
  assumes "sim s xs fs" and "fs_ok fs" and "request_ok env path c" and "len \<le> length buf" and "len < 2 ^ 60"
    and "writeToFileHandler env s path buf len [] NULL c = Some (Inr k, notify, ep, s')"
    and "request_ok env' path c"
  shows "\<exists>f. a_lookup (f_files fs) path = Some f \<and> (a_data f @ take len buf \<noteq> [NUL] \<longrightarrow>
    (\<exists>s''. readFileHandler env' s' path c = Some (Inr (a_data f @ take len buf, length (a_data f) + len), s'')))"
proof -
  obtain r n evs fs' where sp: "spec_write env fs path (take len buf) c = (r, n, evs, fs')" using prod_cases4 by blast
  then obtain xs' where "r = Inr k" and sim: "sim s' xs' fs'"
    using writeToFile_refines [OF assms(1-5) sp] assms(6) by auto
  then have sp': "spec_write env fs path (take len buf) c = (Inr k, n, evs, fs')" using sp by simp
  obtain f f' where f: "a_lookup (f_files fs) path = Some f" "granted f c" "\<not> bad_input path c"
    and f': "a_lookup (f_files fs') path = Some f'" "a_data f' = a_data f @ take len buf" "a_lock f' = a_lock f" "a_open f' = a_open f"
    using spec_write_ok [OF assms(2) sp'] by metis
  have "granted f' c" using f(2) f'(3,4) by (simp add: granted_def)
  then obtain fs'' where sp'': "spec_read env' fs' path c = (Inr (a_data f'), fs'')" using f(3) f'(1) by (simp add: spec_read_def)
  have read: "\<exists>s''. readFileHandler env' s' path c = Some (Inr (a_data f @ take len buf, length (a_data f) + len), s'')"
    if "a_data f @ take len buf \<noteq> [NUL]"
  proof -
    have "fs_ok fs'" by (rule fs_ok_write [OF assms(2) _ sp']) (use f(1) that in simp)
    from readFile_refines [OF sim this assms(7) sp''] show ?thesis using f'(2) assms(4) by (auto simp: min_def)
  qed
  then show ?thesis using f(1) by blast
qed

theorem write_then_read_witness:
  "\<exists>s' notify ep s''. writeToFileHandler example_env (example_store FIFO_ALGO) ''/b'' ''abcdefgh'' 8 [] NULL 5 =
     Some (Inr 0, notify, ep, s') \<and> readFileHandler example_env s' ''/b'' 5 = Some (Inr (''abcdefgh'', 8), s'')"
proof -
  obtain fs0 where sp: "spec_write example_env (example_fs FIFO_ALGO) ''/b'' (take 8 ''abcdefgh'') 5 =
      (Inr 0, [6], [file_a\<lparr>a_open := []\<rparr>], fs0)"
    using example_write by auto
  have sz: "8 \<le> length ''abcdefgh''" "(8::nat) < 2 ^ 60" by simp_all
  obtain s' ep where w: "writeToFileHandler example_env (example_store FIFO_ALGO) ''/b'' ''abcdefgh'' 8 [] NULL 5 =
      Some (Inr 0, [6], ep, s')"
    using writeToFile_refines [OF example_sim_FIFO example_fs_ok example_request_b sz(1,2) sp] by blast
  have nz: "a_data file_b @ take 8 ''abcdefgh'' \<noteq> [NUL]" by (auto simp: append_eq_Cons_conv)
  show ?thesis
    using write_then_read [OF example_sim_FIFO example_fs_ok example_request_b sz w example_request_b] w nz by auto
qed

end
