(* ===== verification/ProtocolProps.thy ===== *)
theory ProtocolProps
  imports WriteProps
begin

text \<open>
  Properties of access, of reading many files, and of the protocol between a client and a worker.
\<close>

section \<open>Access\<close>

text \<open>A client that has not opened a file, or that finds it locked by another client, can neither
  read nor write it: both handlers return \<open>EACCES\<close>, and no file of the store changes in any respect.\<close>

theorem access_denied_no_effect:
  assumes sim: "sim s xs fs" and ok: "fs_ok fs" and req: "request_ok env path c" and good: "\<not> bad_input path c"
    and f: "a_lookup (f_files fs) path = Some f" and denied: "\<not> granted f c" and len: "len \<le> length buf" "len < 2 ^ 60"
  shows "(\<exists>s' fs'. readFileHandler env s path c = Some (Inl EACCES, s') \<and> sim s' xs fs' \<and> f_files fs' = f_files fs) \<and>
    (\<exists>s' xs' fs'. writeToFileHandler env s path buf len [] NULL c = Some (Inl EACCES, [], NULL, s') \<and> sim s' xs' fs' \<and>
      f_files fs' = f_files fs)"
proof
  let ?r = "logged env ''READ'' path (errno_value EACCES) c 0 fs" and ?w = "logged env ''WRITE'' path (errno_value EACCES) c 0 fs"
  have r: "spec_read env fs path c = (Inl EACCES, ?r)" using good f denied by (simp add: spec_read_def)
  show "\<exists>s' fs'. readFileHandler env s path c = Some (Inl EACCES, s') \<and> sim s' xs fs' \<and> f_files fs' = f_files fs"
    using readFile_refines [OF sim ok req r] files_sel(2) by fastforce
  have w: "spec_write env fs path (take len buf) c = (Inl EACCES, [], [], ?w)" using good f denied by (simp add: spec_write_def)
  obtain s' xs' ep es where "writeToFileHandler env s path buf len [] NULL c = Some (Inl EACCES, [], ep, s')"
    "sim s' xs' ?w" "evicted_rep s' ep es []"
    using writeToFile_refines [OF sim ok req len w] by blast
  then show "\<exists>s' xs' fs'. writeToFileHandler env s path buf len [] NULL c = Some (Inl EACCES, [], NULL, s') \<and> sim s' xs' fs' \<and>
      f_files fs' = f_files fs"
    using files_sel(2) by (fastforce simp: evicted_rep_def)
qed

theorem access_denied_no_effect_witness:
  "\<exists>s'. readFileHandler example_env (example_store 0) ''/a'' 6 = Some (Inl EACCES, s') \<and>
     (\<exists>fs'. sim s' [1, 2] fs' \<and> f_files fs' = [file_a, file_b])"
proof -
  have req: "request_ok example_env ''/a'' 6" by (rule example_request) simp_all
  have "\<not> bad_input ''/a'' 6" "a_lookup (f_files (example_fs 0)) ''/a'' = Some file_a" "\<not> granted file_a 6"
    "0 \<le> length []" "(0::nat) < 2 ^ 60"
    by (simp_all add: bad_input_def granted_def)
  from access_denied_no_effect [OF example_sim0 example_fs_ok req this] show ?thesis by auto
qed

text \<open>A content that cannot fit even in an empty store is refused with \<open>E2BIG\<close> before anything is
  evicted: no name, content, lock or queue changes, only the time and count of the last use.\<close>

theorem too_big_changes_nothing:
  assumes sim: "sim s xs fs" and ok: "fs_ok fs" and req: "request_ok env path c" and good: "\<not> bad_input path c"
    and f: "a_lookup (f_files fs) path = Some f" and granted: "granted f c" and len: "len \<le> length buf" "len < 2 ^ 60"
    and big: "f_maxSize fs < length (rle_spec (a_data f @ take len buf))"
  shows "\<exists>s' xs' fs'. writeToFileHandler env s path buf len [] NULL c = Some (Inl E2BIG, [], NULL, s') \<and> sim s' xs' fs' \<and>
    f_files fs' = a_update path (touch env) (f_files fs)"
proof -
  let ?w = "logged env ''WRITE'' path (errno_value E2BIG) c 0 (upd path (touch env) fs)"
  have max: "f_maxSize (upd path (touch env) fs) = f_maxSize fs" by (simp add: upd_def)
  then have w: "spec_write env fs path (take len buf) c = (Inl E2BIG, [], [], ?w)"
    using good f granted big by (simp add: spec_write_def)
  obtain s' xs' ep es where "writeToFileHandler env s path buf len [] NULL c = Some (Inl E2BIG, [], ep, s')"
    "sim s' xs' ?w" "evicted_rep s' ep es []"
    using writeToFile_refines [OF sim ok req len w] by blast
  moreover have "f_files ?w = a_update path (touch env) (f_files fs)" by (simp add: files_sel)
  ultimately show ?thesis by (fastforce simp: evicted_rep_def)
qed

lemma example_too_big: "length (rle_spec ''abcdefghijk'') = 11"
  by code_simp

theorem too_big_changes_nothing_witness:
  "\<exists>s' xs' fs'. writeToFileHandler example_env (example_store FIFO_ALGO) ''/b'' ''abcdefghijk'' 11 [] NULL 5 =
     Some (Inl E2BIG, [], NULL, s') \<and> sim s' xs' fs' \<and> f_files fs' = [file_a, touch example_env file_b]"
proof -
  have "\<not> bad_input ''/b'' 5" "a_lookup (f_files (example_fs FIFO_ALGO)) ''/b'' = Some file_b" "granted file_b 5"
    "11 \<le> length ''abcdefghijk''" "(11::nat) < 2 ^ 60"
    by (simp_all add: bad_input_def granted_def)
  moreover have "f_maxSize (example_fs FIFO_ALGO) < length (rle_spec (a_data file_b @ take 11 ''abcdefghijk''))"
    using example_too_big by (simp del: rle_spec.simps)
  ultimately show ?thesis
    using too_big_changes_nothing [OF example_sim_FIFO example_fs_ok example_request_b] by fastforce
qed

section \<open>Reading many files\<close>

text \<open>C12: \<open>readNFilesHandler\<close> returns the serialisation of the first \<open>upperLimit\<close> files in order of insertion
  (of all when the limit is not positive): for each, the length of its name, the name, the length of its
  content and the content. With the memory it asks for, it does so exactly when its buffer does not overflow
  by the terminator that \<open>sprintf\<close> adds; when it does, the handler writes outside the buffer. When an
  allocation may fail, a call that returns has returned either exactly this, or \<open>ENOMEM\<close> with the files as
  they were; and it returns \<open>ENOMEM\<close>, with nothing in the caller's buffer, when the first allocation fails.\<close>

theorem readNFilesHandler_exact:
  assumes sim: "sim s xs fs" and ok: "fs_ok fs" and conf: "config_ok fs" and caller: "caller_ok env c"
    and spec: "spec_read_n env errno0 fs upperLimit c = (r, resp, fs')"
  shows "(buffers_ok env \<longrightarrow>
      (if overflows 0 (first_files upperLimit (f_files fs)) then readNFilesHandler env errno0 s upperLimit c = None
       else (\<exists>buf s'. readNFilesHandler env errno0 s upperLimit c = Some (r, Some (Some buf, length resp), s') \<and>
         take (length resp) buf = resp \<and> sim s' xs fs'))) \<and>
    (\<forall>r' out s'. readNFilesHandler env errno0 s upperLimit c = Some (r', out, s') \<longrightarrow>
       r' = Inl ENOMEM \<and> heap s' = heap s \<or>
       r' = r \<and> (\<exists>buf. out = Some (Some buf, length resp) \<and> take (length resp) buf = resp) \<and> sim s' xs fs') \<and>
    (\<not> calloc_ok env \<longrightarrow> readNFilesHandler env errno0 s upperLimit c = Some (Inl ENOMEM, None, s))"
proof -
  have tr: "\<forall>f \<in> set (f_files fs). transmissible f" using ok_transmissible(1) [OF ok conf] by blast
  have c: "\<bar>self env\<bar> < 10 ^ 20" "\<bar>c\<bar> < 2 ^ 31" using caller by (simp_all add: caller_ok_def)
  have "buffers_ok env \<longrightarrow>
      (if overflows 0 (first_files upperLimit (f_files fs)) then readNFilesHandler env errno0 s upperLimit c = None
       else (\<exists>buf s'. readNFilesHandler env errno0 s upperLimit c = Some (r, Some (Some buf, length resp), s') \<and>
         take (length resp) buf = resp \<and> sim s' xs fs'))"
    using readNFiles_refines [OF sim tr _ c response_bound [OF ok conf] spec] by blast
  moreover have "\<not> calloc_ok env \<longrightarrow> readNFilesHandler env errno0 s upperLimit c = Some (Inl ENOMEM, None, s)"
    by (simp add: readNFilesHandler_def)
  ultimately show ?thesis using readNFiles_memory [OF sim tr c response_bound [OF ok conf] spec] by blast
qed

lemma example_response: "response [file_a, file_b] = ''0000000002/a0000000002xx0000000002/b0000000000''"
  unfolding response_def serialize_def file_a_def file_b_def by code_simp

lemma example_buffers: "buffers_ok example_env"
  by (simp add: example_env_def buffers_ok_def)

theorem readNFilesHandler_exact_witness:
  "\<exists>buf s'. readNFilesHandler example_env None (example_store 0) 0 5 = Some (Inr 2, Some (Some buf, 46), s') \<and>
     take 46 buf = ''0000000002/a0000000002xx0000000002/b0000000000''"
proof -
  have conf: "config_ok (example_fs 0)" by (simp add: config_ok_def)
  have caller: "caller_ok example_env 5" by (simp add: caller_ok_def example_env_def)
  obtain fs' where sp: "spec_read_n example_env None (example_fs 0) 0 5 = (Inr 2, response [file_a, file_b], fs')"
    by (simp add: spec_read_n_def first_files_def Let_def)
  have l: "length (response [file_a, file_b]) = 46" unfolding example_response by simp
  have "transmissible file_a" "transmissible file_b" by (simp_all add: transmissible_def)
  then have "\<not> overflows 0 (first_files 0 (f_files (example_fs 0)))"
    by (simp add: first_files_def length_serialize INITIALBUFSIZ_def Let_def)
  then obtain buf s' where "readNFilesHandler example_env None (example_store 0) 0 5 =
      Some (Inr 2, Some (Some buf, length (response [file_a, file_b])), s')"
    and "take (length (response [file_a, file_b])) buf = response [file_a, file_b]"
    using conjunct1 [OF readNFilesHandler_exact [OF example_sim0 example_fs_ok conf caller sp]] example_buffers by auto
  then show ?thesis unfolding example_response [symmetric] l [symmetric] by blast
qed

text \<open>The overflow is within reach: two files with names of 492 characters and no content.\<close>

definition long_name :: "char \<Rightarrow> cstring" where
  "long_name ch = CHR ''/'' # replicate 491 ch"

definition env_at :: "ptr \<Rightarrow> env" where
  "env_at p = \<lparr>now = 0, clock = (\<lambda>_. (0, 0, 0)), self = 1, fresh = p, mem_ok = True, junk = (\<lambda>_. NUL),
     calloc_ok = True, realloc_ok = (\<lambda>_. True), unpack_ok = (\<lambda>_. True)\<rparr>"

lemma modify_None: "modify s q g = Some s' \<Longrightarrow> heap s p = None \<Longrightarrow> heap s' p = None"
  by (auto simp: modify_def deref_def split: if_splits bind_splits)

lemma log_heap: "logEvent env op path outcome c n s = Some s' \<Longrightarrow> heap s' = heap s"
  by (auto simp: logEvent_def split: bind_splits option.splits)

lemma open_new_frame:
  assumes "open_new env s path lock c = Some (r, s')" and "heap s p = None" and "p \<noteq> fresh env"
  shows "heap s' p = None"
  using assms
  by (auto simp: open_new_def allocFile_def addFileToStore_def Let_def split: if_splits bind_splits sum.splits prod.splits
      dest!: modify_None [of _ _ _ _ p] log_heap)

text \<open>One creation in a store that is not full.\<close>

lemma create_file:
  assumes sim: "sim s xs fs" and ok: "fs_ok fs" and p: "p \<noteq> NULL" "heap s p = None"
    and path: "path \<noteq> []" "length path \<le> PATH_LIMIT" "NUL \<notin> set path"
    and new: "a_lookup (f_files fs) path = None" and room: "length (f_files fs) \<noteq> f_maxNum fs" and c: "0 < c" "c < 2 ^ 31"
  shows "\<exists>s' xs' fs'. openFileHandler (env_at p) s path 1 [] c = Some (Inr 0, [], s') \<and> sim s' xs' fs' \<and> fs_ok fs' \<and>
    f_files fs' = f_files fs @ [new_file (env_at p) path False c] \<and> limits fs' = limits fs \<and>
    (\<forall>q. q \<noteq> p \<longrightarrow> heap s q = None \<longrightarrow> heap s' q = None)"
proof -
  let ?fs' = "spec_add (new_file (env_at p) path False c) (logged (env_at p) ''OPEN'' path 0 c 0 fs)"
  have flags: "IS_SET O_CREATE 1" "\<not> IS_SET O_LOCK 1" by (simp_all add: IS_SET_def O_CREATE_def O_LOCK_def)
  have mem: "mem_ok (env_at p)" and al: "alloc_ok (env_at p) s" using p by (simp_all add: env_at_def alloc_ok_def)
  have req: "request_ok (env_at p) path c" using path c by (simp add: request_ok_def env_at_def)
  have sp: "spec_open (env_at p) fs path 1 [] c = (Inr 0, [], ?fs')"
    using path c new room flags mem by (simp add: spec_open_def spec_make_room_def Let_def)
  obtain s' xs' where op: "openFileHandler (env_at p) s path 1 [] c = Some (Inr 0, [], s')" and sim': "sim s' xs' ?fs'"
    using openFile_refines [OF sim ok al req sp] by blast
  have "currFileNum s \<noteq> maxFileNum s" using sim_counts(1,2) [OF sim] room by simp
  moreover have "findFile s path = Inl ENOENT" using sim_find [OF sim, of path] new path(1) by (metis option.distinct(1))
  ultimately have "open_new (env_at p) s path False c = Some (Inr 0, s')"
    using op path(1) c flags by (auto simp: openFileHandler_def open_evict_def Let_def split: bind_splits)
  then have "\<forall>q. q \<noteq> p \<longrightarrow> heap s q = None \<longrightarrow> heap s' q = None"
    using open_new_frame [of "env_at p" s path False c "Inr 0" s'] by (simp add: env_at_def)
  moreover have "limits ?fs' = limits fs" by simp
  moreover have "fs_ok ?fs'" by (rule fs_ok_open [OF ok path(2,3) sp])
  ultimately show ?thesis using op sim' by (intro exI [of _ s'] exI [of _ xs'] exI [of _ ?fs']) (simp add: files_sel)
qed

text \<open>The overflow of \<open>readNFilesHandler\<close> can be provoked by clients: after two successful requests
  that create empty files with names of 492 characters in a fresh store, a request to read all files
  makes the handler write outside its buffer.\<close>

theorem readNFiles_overflow:
  "\<exists>s0 s1 s2. allocStorage True True True 10 1000 FIFO_ALGO = Inr s0 \<and>
     openFileHandler (env_at 1) s0 (long_name CHR ''a'') 1 [] 5 = Some (Inr 0, [], s1) \<and>
     openFileHandler (env_at 2) s1 (long_name CHR ''b'') 1 [] 5 = Some (Inr 0, [], s2) \<and>
     readNFilesHandler (env_at 3) None s2 0 5 = None"
proof -
  obtain s0 where s0: "allocStorage True True True 10 1000 FIFO_ALGO = Inr s0" and h: "heap s0 = Map.empty"
    by (simp add: allocStorage_def icl_hash_create_def)
  obtain fs0 where fs0: "sim s0 [] fs0" "fs_ok fs0" "f_files fs0 = []" and l0: "limits fs0 = (10, 1000, FIFO_ALGO)"
    using allocStorage_sim [OF s0] by (auto simp: FIFO_ALGO_def)
  have nm: "long_name ch \<noteq> []" "length (long_name ch) = 492" for ch by (simp_all add: long_name_def)
  have nn: "NUL \<notin> set (long_name CHR ''a'')" "NUL \<notin> set (long_name CHR ''b'')" by (simp_all add: long_name_def)
  have max: "f_maxNum fs0 = 10" using l0 by (simp add: limits_def)
  obtain s1 xs1 fs1 where s1: "openFileHandler (env_at 1) s0 (long_name CHR ''a'') 1 [] 5 = Some (Inr 0, [], s1)"
    "sim s1 xs1 fs1" "fs_ok fs1" and f1: "f_files fs1 = [new_file (env_at 1) (long_name CHR ''a'') False 5]"
    and l1: "limits fs1 = limits fs0" and h1: "heap s1 2 = None"
    using create_file [OF fs0(1,2), of 1 "long_name CHR ''a''" 5] fs0(3) nm nn max h
    by (auto simp: PATH_LIMIT_def a_lookup_def)
  have max1: "f_maxNum fs1 = 10" using l1 l0 by (simp add: limits_def)
  have ne: "long_name CHR ''a'' \<noteq> long_name CHR ''b''" by (simp add: long_name_def)
  have lk: "a_lookup (f_files fs1) (long_name CHR ''b'') = None" using ne by (simp add: f1 a_lookup_def new_file_def)
  obtain s2 xs2 fs2 where s2: "openFileHandler (env_at 2) s1 (long_name CHR ''b'') 1 [] 5 = Some (Inr 0, [], s2)"
    "sim s2 xs2 fs2" "fs_ok fs2"
    and f2: "f_files fs2 = [new_file (env_at 1) (long_name CHR ''a'') False 5, new_file (env_at 2) (long_name CHR ''b'') False 5]"
    and l2: "limits fs2 = limits fs1"
    using create_file [OF s1(2,3), of 2 "long_name CHR ''b''" 5] nm nn max1 h1 lk f1
    by (auto simp: PATH_LIMIT_def)
  have tr: "transmissible (new_file env (long_name ch) False 5)" for env ch
    using nm(2) [of ch] by (simp add: transmissible_def new_file_def)
  have len: "length (serialize (new_file env (long_name ch) False 5)) = 512" for env ch
    using length_serialize [OF tr] nm(2) [of ch] by (simp add: new_file_def)
  have ov: "overflows 0 (first_files 0 (f_files fs2))"
    using len by (simp add: f2 first_files_def Let_def INITIALBUFSIZ_def) (simp add: new_file_def)
  obtain r resp fs3 where sp: "spec_read_n (env_at 3) None fs2 0 5 = (r, resp, fs3)" using prod_cases3 by blast
  have conf: "config_ok fs2" using l2 l1 l0 by (simp add: limits_def config_ok_def)
  have "\<forall>f \<in> set (f_files fs2). transmissible f" using tr by (simp add: f2)
  then have "readNFilesHandler (env_at 3) None s2 0 5 = None"
    using readNFiles_refines [OF s2(2) _ _ _ _ response_bound [OF s2(3) conf] sp] ov by (simp add: env_at_def buffers_ok_def)
  then show ?thesis using s0 s1(1) s2(1) by blast
qed

section \<open>The protocol\<close>

text \<open>C2: The worker implements the protocol: for every sequence of bytes that decodes to a request within
  the limits it consumes exactly the bytes of that request, writes exactly the response codes, contents,
  evicted files, notifications and pipe messages that the protocol's specification lists, in that order,
  and leaves a store that represents the specification's result. For a read of many files this
  is claimed when the allocations that the handler makes succeed.\<close>

theorem serve_correct:
  assumes "sim s xs fs" and "fs_ok fs" and "config_ok fs" and "alloc_ok env s" and "caller_ok env c"
    and "decode inp = Some (r, rest)" and "request_fits unset fs r" and "spec_serve env unset fs c r = (fs', out)"
    and "(\<exists>k. r = ReadN k) \<longrightarrow> buffers_ok env"
  shows "\<exists>s' xs'. serve env unset s c inp = Some (s', out, rest) \<and> sim s' xs' fs'"
  by (rule serve_request_refines [OF assms])

lemma example_decode: "decode (''3'' @ ''0000000002'' @ ''/a'' @ ''rest'') = Some (Read ''/a'', ''rest'')"
  by code_simp

lemma example_conf: "config_ok (example_fs algo)"
  by (simp add: config_ok_def)

lemma example_caller: "0 < c \<Longrightarrow> c < 2 ^ 31 \<Longrightarrow> caller_ok example_env c"
  by (simp add: caller_ok_def example_env_def)

theorem serve_correct_witness:
  "\<exists>s'. serve example_env 0 (example_store 0) 5 (''3'' @ ''0000000002'' @ ''/a'' @ ''rest'') =
     Some (s', [Send 5 ''1'', Send 5 (''0000000002'' @ ''xx''), Pipe (''0005'' @ [NUL])], ''rest'')"
proof -
  have codes: "code_msg 5 1 = Send 5 ''1''" "fd_msg 5 = ''0005'' @ [NUL]" "pad10 2 = ''0000000002''"
    unfolding code_msg_def fd_msg_def by code_simp+
  obtain fs' where "spec_read example_env (example_fs 0) ''/a'' 5 = (Inr ''xx'', fs')"
    by (simp add: spec_read_def bad_input_def granted_def)
  then have sp: "spec_serve example_env 0 (example_fs 0) 5 (Read ''/a'') =
      (fs', [Send 5 ''1'', Send 5 (''0000000002'' @ ''xx''), Pipe (''0005'' @ [NUL])])"
    using codes by (simp add: spec_serve_def numeral_2_eq_2)
  have fits: "request_fits 0 (example_fs 0) (Read ''/a'')" by (simp add: request_fits_def PATH_LIMIT_def)
  show ?thesis
    using serve_correct [OF example_sim0 example_fs_ok example_conf example_alloc example_caller example_decode fits sp]
    by auto
qed

end
