(* ===== verification/Progress.thy ===== *)
theory Progress
  imports System ProtocolProps
begin

text \<open>
  What a worker achieves in a reachable state of the server, and a run of the server that the
  properties of the whole are exercised on: client 5 creates and locks the file \<open>/a\<close>, client 6 asks
  for its lock and waits, and a worker takes the next request of client 5.
\<close>

section \<open>One request in a reachable state\<close>

lemma work_step:
  assumes r: "reachable maxFiles maxSize algo st" and ok: "system_ok maxFiles maxSize algo st xs fs"
    and c: "c \<in> set (working st)" and env: "env_ok env (store st)" and dec: "decode inp = Some (q, rest)" and pr: "proper q"
    and rd: "readable unset fs q" and sp: "spec_serve env unset fs c q = (fs', out)"
  shows "\<exists>s' xs' st'. serve env unset (store st) c inp = Some (s', out, rest) \<and>
    worker_serve env unset c inp st = Some (st', out, rest) \<and> sys_step st st' \<and> reachable maxFiles maxSize algo st' \<and>
    st' = st\<lparr>store := s', working := remove1 c (working st), pipe := pipe st @ pipe_msgs out,
              connected := connected st - closed out\<rparr> \<and>
    system_ok maxFiles maxSize algo st' xs' fs'"
proof -
  obtain s' xs' where s: "serve env unset (store st) c inp = Some (s', out, rest)" and sim: "sim s' xs' fs'"
    using worker_serve_some [OF ok env c dec pr rd sp] by blast
  define st' where "st' = st\<lparr>store := s', working := remove1 c (working st), pipe := pipe st @ pipe_msgs out,
    connected := connected st - closed out\<rparr>"
  have w: "worker_serve env unset c inp st = Some (st', out, rest)" by (simp add: worker_serve_def s st'_def)
  have step: "sys_step st st'" by (rule sys_step.work [OF c env dec pr w])
  have r': "reachable maxFiles maxSize algo st'" by (rule reachable.step [OF r step])
  have "system_ok maxFiles maxSize algo st' xs' fs'"
    by (rule work_ok_at [OF ok env c dec pr w sp]) (simp add: st'_def sim)
  then show ?thesis using s w step r' st'_def by blast
qed

lemma pipe_msgs_set: "m \<in> set (pipe_msgs as) \<longleftrightarrow> Pipe m \<in> set as"
  by (induction as rule: pipe_msgs.induct) auto

text \<open>A client that is served is given back to the manager unless it has left or is queued for a lock.\<close>

lemma spec_serve_returned:
  assumes c: "client_fd c" and sp: "spec_serve env unset fs c r = (fs', out)"
  shows "r \<noteq> Exit \<Longrightarrow> \<not> queued fs c r \<Longrightarrow> c \<in># returned (pipe_msgs out)"
    and "queued fs c r \<Longrightarrow> c \<notin># returned (pipe_msgs out)"
proof -
  have "msg_fd (fd_msg c) = c" "c \<noteq> 0" using c msg_fd_fd_msg [of c] by (simp_all add: client_fd_def)
  then show "r \<noteq> Exit \<Longrightarrow> \<not> queued fs c r \<Longrightarrow> c \<in># returned (pipe_msgs out)"
    using sp by (auto simp: spec_serve_def returned_def split: prod.splits)
  assume q: "queued fs c r"
  then obtain path where r: "r = Lock path" by (cases r) (simp_all add: queued_def)
  have "fst (spec_lock env fs path c) = Inr (-2)"
    using q spec_lock_queued [of env fs path c "fst (spec_lock env fs path c)" "snd (spec_lock env fs path c)"] by (simp add: r)
  then have "out = []" using sp q by (auto simp: spec_serve_def r split: prod.splits)
  then show "c \<notin># returned (pipe_msgs out)" by (simp add: returned_def)
qed

lemma accept_step:
  assumes "reachable maxFiles maxSize algo st" and "env_ok env (store st)" and "0 < c" "c < 1024" "c \<notin> connected st"
    and "c \<noteq> fd_socket (mgr st)" "c \<noteq> pipe_in (mgr st)" and "manager_accept env c st = Some st'"
  shows "reachable maxFiles maxSize algo st'"
  by (rule reachable.step [OF assms(1) sys_step.accept [OF assms(8,2-7)]])

section \<open>A run\<close>

definition demo_state :: "fd \<Rightarrow> fd set \<Rightarrow> CacheStorage \<Rightarrow> fd list \<Rightarrow> buffer list \<Rightarrow> system" where
  "demo_state n W s w p =
     \<lparr>mgr = \<lparr>fd_socket = 4, pipe_in = 3, setsave = {3, 4} \<union> W, fd_num = n, clientCount = 2,
             maxSimultaneousClients = 2, softExit = False, hardExit = False\<rparr>,
      store = s, taskBuffer = [], working = w, pipe = p, connected = {5, 6}\<rparr>"

lemma demo_sel [simp]:
  "store (demo_state n W s w p) = s" "working (demo_state n W s w p) = w" "pipe (demo_state n W s w p) = p"
  "connected (demo_state n W s w p) = {5, 6}" "taskBuffer (demo_state n W s w p) = []"
  by (simp_all add: demo_state_def)

lemma env_at_ok: "p \<noteq> NULL \<Longrightarrow> heap s p = None \<Longrightarrow> env_ok (env_at p) s"
  by (simp add: env_ok_def env_at_def alloc_ok_def buffers_ok_def)

lemma env_at_simps [simp]: "buffers_ok (env_at p)" "mem_ok (env_at p)" "fresh (env_at p) = p"
  by (simp_all add: env_at_def buffers_ok_def)

text \<open>A watched client sends a request and a worker takes it; a worker reports that it is done.\<close>

lemma demo_take:
  assumes r: "reachable maxFiles maxSize algo (demo_state n W s [] p)" and c: "4 < c" "c \<in> W" "c \<le> n"
  shows "reachable maxFiles maxSize algo (demo_state (if c = n then n - 1 else n) (W - {c}) s [c] p)"
proof -
  let ?st = "demo_state n W s [] p"
  have s1: "sys_step ?st (manager_request c ?st)"
    by (rule sys_step.ready) (use c in \<open>simp_all add: demo_state_def\<close>)
  have "{3, 4} \<union> W - {c} = {3, 4} \<union> (W - {c})" using c by auto
  then have "worker_take (manager_request c ?st) = Some (demo_state (if c = n then n - 1 else n) (W - {c}) s [c] p)"
    by (simp add: worker_take_def manager_request_def demo_state_def client_ready_def)
  then have s2: "sys_step (manager_request c ?st) (demo_state (if c = n then n - 1 else n) (W - {c}) s [c] p)"
    by (rule sys_step.take)
  show ?thesis by (rule reachable.step [OF reachable.step [OF r s1] s2])
qed

lemma demo_message:
  assumes r: "reachable maxFiles maxSize algo (demo_state n W s [] [fd_msg c])" and c: "4 < c" "c < 10 ^ 4"
    and env: "env_ok env s"
  shows "reachable maxFiles maxSize algo (demo_state (max_macro c n) (insert c W) s [] [])"
proof (rule reachable.step [OF r])
  have "atol (c_string (fd_msg c)) = c" using msg_fd_fd_msg [of c] c by (simp add: msg_fd_def client_fd_def)
  moreover have "insert c ({3, 4} \<union> W) = {3, 4} \<union> insert c W" by auto
  ultimately have "manager_pipe env (demo_state n W s [] [fd_msg c]) = Some (demo_state (max_macro c n) (insert c W) s [] [], False)"
    using c by (simp add: manager_pipe_def worker_done_def demo_state_def)
  then show "sys_step (demo_state n W s [] [fd_msg c]) (demo_state (max_macro c n) (insert c W) s [] [])"
    by (rule sys_step.message) (simp add: env)
qed

lemma decode_exit: "decode [] = Some (Exit, [])"
  by (simp add: decode_def)

definition demo_first :: "CacheStorage \<Rightarrow> system" where
  "demo_first s =
     \<lparr>mgr = \<lparr>fd_socket = 4, pipe_in = 3, setsave = {3, 4, 5}, fd_num = 5, clientCount = 1,
             maxSimultaneousClients = 1, softExit = False, hardExit = False\<rparr>,
      store = s, taskBuffer = [], working = [], pipe = [], connected = {5}\<rparr>"

lemma demo_log:
  assumes "env_ok (env_at 9) s" and "0 < c" and "c < 10"
  shows "logEvent (env_at 9) ''NEW_CLIENT'' [] 0 c 0 s =
    Some (s\<lparr>logBuffer := entry (env_at 9) (logBuffer s) ''NEW_CLIENT'' [] 0 c 0\<rparr>)"
  using log_ok [OF assms(1)] assms(2,3) by simp

lemma demo_started: "\<exists>s. reachable 10 1000 0 (demo_first s) \<and> heap s = Map.empty \<and> hPtr s = NULL"
proof -
  obtain s0 where s0: "allocStorage True True True 10 1000 0 = Inr s0" "heap s0 = Map.empty" "hPtr s0 = NULL"
    by (simp add: allocStorage_def icl_hash_create_def)
  let ?st0 = "\<lparr>mgr = start_manager 4 3, store = s0, taskBuffer = [], working = [], pipe = [], connected = {}\<rparr>"
  let ?s = "s0\<lparr>logBuffer := entry (env_at 9) (logBuffer s0) ''NEW_CLIENT'' [] 0 5 0\<rparr>"
  have "start_server 10 1000 0 4 3 = Inr ?st0" by (simp add: start_server_def s0(1))
  then have r0: "reachable 10 1000 0 ?st0" by (rule reachable.init) (simp add: config_limits_def)
  have env: "env_ok (env_at 9) s0" using s0(2) by (simp add: env_at_ok)
  have "manager_accept (env_at 9) 5 ?st0 = Some (demo_first ?s)"
    using demo_log [OF env, of 5]
    by (simp add: manager_accept_def accept_client_def start_manager_def max_macro_def demo_first_def insert_commute)
  then have "reachable 10 1000 0 (demo_first ?s)"
    by (rule accept_step [OF r0, rotated -1]) (simp_all add: env start_manager_def)
  then show ?thesis using s0(2,3) by (intro exI [of _ ?s]) simp
qed

lemma demo_connected: "\<exists>s. reachable 10 1000 0 (demo_state 6 {5, 6} s [] []) \<and> heap s = Map.empty"
proof -
  obtain s where r: "reachable 10 1000 0 (demo_first s)" and heap: "heap s = Map.empty" using demo_started by blast
  let ?s = "s\<lparr>logBuffer := entry (env_at 9) (logBuffer s) ''NEW_CLIENT'' [] 0 6 0\<rparr>"
  have env: "env_ok (env_at 9) s" using heap by (simp add: env_at_ok)
  have "manager_accept (env_at 9) 6 (demo_first s) = Some (demo_state 6 {5, 6} ?s [] [])"
    using demo_log [OF env, of 6]
    by (simp add: manager_accept_def accept_client_def max_macro_def demo_first_def demo_state_def insert_commute)
  then have "reachable 10 1000 0 (demo_state 6 {5, 6} ?s [] [])"
    by (rule accept_step [OF r, rotated -1]) (simp_all add: env demo_first_def)
  then show ?thesis using heap by (intro exI [of _ ?s]) simp
qed

text \<open>The only client leaves after the server was asked to stop.\<close>

lemma demo_stopping:
  "\<exists>st st'. reachable 10 1000 0 st \<and> env_ok (env_at 9) (store st) \<and> manager_pipe (env_at 9) st = Some (st', True)"
proof -
  obtain s where r: "reachable 10 1000 0 (demo_first s)" and heap: "heap s = Map.empty" "hPtr s = NULL"
    using demo_started by blast
  have env: "env_ok (env_at 9) s" using heap by (simp add: env_at_ok)
  let ?st1 = "manager_request 5 (demo_first s)" and ?out = "[Close 5, Pipe CLIENT_LEFT_MSG]"
  have s1: "sys_step (demo_first s) ?st1" by (rule sys_step.ready) (simp_all add: demo_first_def)
  let ?st2 = "?st1\<lparr>taskBuffer := [], working := [5]\<rparr>"
  have "worker_take ?st1 = Some ?st2" by (simp add: worker_take_def manager_request_def demo_first_def)
  then have s2: "sys_step ?st1 ?st2" by (rule sys_step.take)
  let ?st3 = "?st2\<lparr>working := [], pipe := [CLIENT_LEFT_MSG], connected := {}\<rparr>"
  have "serve (env_at 9) 0 s 5 [] = Some (s, ?out, [])"
    using heap by (simp add: serve_def clientExitHandler_def exit_loop.simps notify_out_def)
  then have "worker_serve (env_at 9) 0 5 [] ?st2 = Some (?st3, ?out, [])"
    by (simp add: worker_serve_def manager_request_def demo_first_def closed_def)
  then have s3: "sys_step ?st2 ?st3"
    by (rule sys_step.work [rotated -1, where c = 5 and r = Exit])
      (simp_all add: env decode_exit proper_def manager_request_def demo_first_def)
  let ?st4 = "?st3\<lparr>mgr := exitSigHandler SIGHUP (mgr ?st3)\<rparr>"
  have "reachable 10 1000 0 ?st4"
    by (intro reachable.step [OF _ sys_step.signal] reachable.step [OF _ s3] reachable.step [OF _ s2] reachable.step [OF _ s1] r)
  moreover have st: "store ?st4 = s" by (simp add: manager_request_def demo_first_def)
  moreover have "atol (c_string CLIENT_LEFT_MSG) = 0" by code_simp
  then have "\<exists>st'. manager_pipe (env_at 9) ?st4 = Some (st', True)"
    using log_ok [OF env, of "''CLIENT_LEFT''" "-1"]
    by (simp add: manager_pipe_def worker_done_def manager_request_def demo_first_def client_ready_def exitSigHandler_def)
  ultimately show ?thesis using env by metis
qed

lemma demo_open_decode: "decode (''2'' @ ''0000000002'' @ ''/a'' @ ''3'') = Some (Open ''/a'' (Some 3), [])"
  by code_simp

lemma demo_lock_decode: "decode (''6'' @ ''0000000002'' @ ''/a'') = Some (Lock ''/a'', [])"
  by code_simp

definition demo_file :: "fd list \<Rightarrow> afile" where
  "demo_file w = (new_file (env_at 9) ''/a'' True 5)\<lparr>a_wait := w\<rparr>"

text \<open>The requests of the run write to no address but those of the files.\<close>

lemma open_frame:
  assumes "openFileHandler env s path flags notify c = Some (r, notify', s')" and "currFileNum s \<noteq> maxFileNum s"
    and "heap s p = None" and "p \<noteq> fresh env"
  shows "heap s' p = None"
  using assms unfolding openFileHandler_def Let_def
  by (auto simp: open_evict_def open_existing_def split: if_splits bind_splits sum.splits errno.splits
      dest!: open_new_frame [of _ _ _ _ _ _ _ p] modify_None [of _ _ _ _ p])

lemma lock_frame:
  assumes "lockFileHandler env s path c = Some (r, s')" and "heap s p = None"
  shows "heap s' p = None"
  using assms unfolding lockFileHandler_def lockFile_enter_def lockFile_body_def update_leave_def
  by (auto split: if_splits bind_splits sum.splits option.splits dest!: log_heap modify_None [of _ _ _ _ p])

lemma demo_payload:
  "getRequestPayloadSegment (''0000000002'' @ ''/a'' @ rest) = Some (''/a'' @ [NUL], 2, rest)"
proof -
  have "atol (c_string ''0000000002'') = 2" by code_simp
  then show ?thesis by (simp add: getRequestPayloadSegment_def readn_def METADATA_SIZE_def)
qed

lemma demo_codes:
  "atol (c_string [CHR ''2'', NUL]) = 2" "atol (c_string [CHR ''6'', NUL]) = 6" "c_string (''/a'' @ [NUL]) = ''/a''"
  "isNumber (c_string ''3'') = (0, 3)"
  by code_simp+

lemma demo_open_frame:
  assumes "serve env unset s c (''2'' @ ''0000000002'' @ ''/a'' @ ''3'') = Some (s', out, rest)"
    and "currFileNum s \<noteq> maxFileNum s" and "heap s p = None" and "p \<noteq> fresh env"
  shows "heap s' p = None"
proof -
  obtain r notify where "openFileHandler env s ''/a'' 3 [] c = Some (r, notify, s')"
    using assms(1) demo_codes(1,3,4) demo_payload [of "''3''"]
    by (auto simp: serve_def serve_file_def serve_open_def request_codes READ_N_FILES_def split: bind_splits)
  then show ?thesis using open_frame assms(2-4) by blast
qed

lemma demo_lock_frame:
  assumes "serve env unset s c (''6'' @ ''0000000002'' @ ''/a'') = Some (s', out, rest)" and "heap s p = None"
  shows "heap s' p = None"
proof -
  obtain r where "lockFileHandler env s ''/a'' c = Some (r, s')"
    using assms(1) demo_codes(2,3) demo_payload [of "[]"]
    by (auto simp: serve_def serve_file_def serve_lock_def request_codes READ_N_FILES_def split: bind_splits sum.splits if_splits)
  then show ?thesis using lock_frame assms(2) by blast
qed


text \<open>What a store represents is determined by the store.\<close>

lemma dll_unique:
  "dll h p xs NULL \<Longrightarrow> dll h p ys NULL \<Longrightarrow> first_of xs NULL = first_of ys NULL \<Longrightarrow> xs = ys"
proof (induction xs arbitrary: p ys)
  case Nil
  then show ?case by (cases ys) auto
next
  case (Cons x xs)
  then show ?case by (cases ys) auto
qed

lemma sim_unique:
  assumes "sim s xs fs" and "sim s ys gs"
  shows "xs = ys" and "fs = gs"
proof -
  show "xs = ys" using assms dll_unique by (auto simp: sim_busy_def store_rep_def list_rep_def)
  then show "fs = gs" using assms by (simp add: sim_busy_def)
qed

lemma reachable_sim:
  assumes "reachable maxFiles maxSize algo st" and "sim (store st) xs fs"
  shows "system_ok maxFiles maxSize algo st xs fs"
proof -
  obtain ys gs where ok: "system_ok maxFiles maxSize algo st ys gs" using reachable_ok [OF assms(1)] by blast
  then have "sim (store st) ys gs" by (simp add: system_ok_def)
  from sim_unique [OF this assms(2)] ok show ?thesis by simp
qed

text \<open>Client 5 creates the file and locks it.\<close>

lemma demo_opened:
  "\<exists>s xs fs. reachable 10 1000 0 (demo_state 6 {5, 6} s [] []) \<and>
     system_ok 10 1000 0 (demo_state 6 {5, 6} s [] []) xs fs \<and> f_files fs = [demo_file []] \<and> heap s 2 = None"
proof -
  obtain s where r0: "reachable 10 1000 0 (demo_state 6 {5, 6} s [] [])" and heap: "heap s = Map.empty"
    using demo_connected by blast
  have r1: "reachable 10 1000 0 (demo_state 6 {6} s [5] [])" using demo_take [OF r0, of 5] by simp
  obtain xs fs where ok: "system_ok 10 1000 0 (demo_state 6 {6} s [5] []) xs fs" using reachable_ok [OF r1] by blast
  then have sim: "sim s xs fs" and lim: "f_maxNum fs = 10" by (simp_all add: system_ok_def limits_def)
  have files: "f_files fs = []"
    using sim heap by (cases xs) (auto simp: sim_busy_def store_rep_def list_rep_def abs_store_def abs_files_def)
  have flags: "IS_SET O_CREATE 3" "IS_SET O_LOCK 3" by (simp_all add: IS_SET_def O_CREATE_def O_LOCK_def)
  obtain fs' where sp: "spec_serve (env_at 9) 0 fs 5 (Open ''/a'' (Some 3)) = (fs', [code_msg 5 1, Pipe (fd_msg 5)])"
    and fs': "f_files fs' = [demo_file []]"
    by (simp add: spec_serve_def spec_open_def spec_make_room_def files lim flags a_lookup_def spec_add_def notify_out_def
        logged_def queued_def demo_file_def new_file_def)
  have env: "env_ok (env_at 9) s" using heap by (simp add: env_at_ok)
  have proper: "proper (Open ''/a'' (Some 3))" by (simp add: proper_def PATH_LIMIT_def)
  obtain s' xs' st' where sv: "serve (env_at 9) 0 s 5 (''2'' @ ''0000000002'' @ ''/a'' @ ''3'') = Some (s', [code_msg 5 1, Pipe (fd_msg 5)], [])"
    and r2: "reachable 10 1000 0 st'" and ok2: "system_ok 10 1000 0 st' xs' fs'"
    and st': "st' = demo_state 6 {6} s' [] [fd_msg 5]"
    using work_step [OF r1 ok _ _ demo_open_decode proper _ sp] env
    by (auto simp: demo_state_def code_msg_def)
  have "currFileNum s \<noteq> maxFileNum s" using sim_counts(1,2) [OF sim] files lim by simp
  then have heap': "heap s' 2 = None"
    by (rule demo_open_frame [OF sv]) (simp_all add: heap)
  have r3: "reachable 10 1000 0 (demo_state 6 {5, 6} s' [] [])"
    using demo_message [of 10 1000 0 6 "{6}" s' 5 "env_at 2"] r2 env_at_ok [of 2 s'] heap' by (simp add: st' max_macro_def)
  moreover have "system_ok 10 1000 0 (demo_state 6 {5, 6} s' [] []) xs' fs'"
    by (rule reachable_sim [OF r3]) (use ok2 in \<open>simp add: system_ok_def st'\<close>)
  ultimately show ?thesis using fs' heap' by blast
qed

text \<open>Client 6 waits for the lock; a worker takes the next request of client 5.\<close>

lemma demo_locked:
  "\<exists>s xs fs. reachable 10 1000 0 (demo_state 4 {} s [5] []) \<and>
     sim s xs fs \<and> f_files fs = [demo_file [6]] \<and> env_ok (env_at 2) s"
proof -
  obtain s xs fs where r0: "reachable 10 1000 0 (demo_state 6 {5, 6} s [] [])"
    and ok0: "system_ok 10 1000 0 (demo_state 6 {5, 6} s [] []) xs fs"
    and files: "f_files fs = [demo_file []]" and heap: "heap s 2 = None"
    using demo_opened by blast
  have r1: "reachable 10 1000 0 (demo_state 5 {5} s [6] [])"
    using demo_take [OF r0, of 6] by (simp add: insert_Diff_if)
  have ok: "system_ok 10 1000 0 (demo_state 5 {5} s [6] []) xs fs"
    by (rule reachable_sim [OF r1]) (use ok0 in \<open>simp add: system_ok_def\<close>)
  obtain fs' where sp: "spec_serve (env_at 2) 0 fs 6 (Lock ''/a'') = (fs', [])" and fs': "f_files fs' = [demo_file [6]]"
    by (simp add: spec_serve_def spec_lock_def files a_lookup_def logged_def queued_def demo_file_def new_file_def upd_def a_update_def)
  have env: "env_ok (env_at 2) s" using heap by (simp add: env_at_ok)
  have proper: "proper (Lock ''/a'')" by (simp add: proper_def PATH_LIMIT_def)
  obtain s' xs' st' where sv: "serve (env_at 2) 0 s 6 (''6'' @ ''0000000002'' @ ''/a'') = Some (s', [], [])"
    and r2: "reachable 10 1000 0 st'" and ok2: "system_ok 10 1000 0 st' xs' fs'" and st': "st' = demo_state 5 {5} s' [] []"
    using work_step [OF r1 ok _ _ demo_lock_decode proper _ sp] env by (auto simp: demo_state_def)
  have r3: "reachable 10 1000 0 (demo_state 4 {} s' [5] [])"
    using demo_take [of 10 1000 0 5 "{5}" s' "[]" 5] r2 by (simp add: st')
  moreover have "sim s' xs' fs'" using ok2 by (simp add: system_ok_def st')
  moreover have "env_ok (env_at 2) s'" using demo_lock_frame [OF sv heap] by (simp add: env_at_ok)
  ultimately show ?thesis using fs' by blast
qed

end
