(* ===== verification/Shutdown.thy ===== *)
theory Shutdown
  imports Progress
begin

text \<open>
  The end of the server, the last part of \<open>main\<close> in \<^verbatim>\<open>src/src/server.c\<close>. The manager has left its loop; it
  puts a termination message for each worker behind the tasks that are still queued, then one for the log
  flusher, and joins the workers. Both queues are bounded: the manager waits while the queue of tasks is
  full, and once the flusher has met its message nobody empties the log queue any more.
\<close>

section \<open>Steps of the manager and of the workers\<close>

text \<open>The server, the workers that have not ended, the termination messages that are still to be sent, and
  the number of log entries sent up to and with the message for the flusher, once it has been sent.\<close>

record halting =
  server :: system
  workers_left :: nat
  terms_left :: nat
  log_end :: "nat option"

definition halt :: "nat \<Rightarrow> system \<Rightarrow> halting" where
  "halt workerPoolSize st = \<lparr>server = st, workers_left = workerPoolSize, terms_left = workerPoolSize, log_end = None\<rparr>"

definition send_term :: "halting \<Rightarrow> halting option" where
  "send_term h =
     (let st = server h in
      if 0 < terms_left h \<and> length (taskBuffer st) < MAX_TASKS
      then Some (h\<lparr>server := st\<lparr>taskBuffer := taskBuffer st @ [0]\<rparr>, terms_left := terms_left h - 1\<rparr>)
      else None)"

text \<open>The flusher still empties the log queue, so that this message always finds room.\<close>

definition send_exit :: "buffer \<Rightarrow> halting \<Rightarrow> halting option" where
  "send_exit block h =
     (if terms_left h = 0 \<and> log_end h = None
      then let s = store (server h); s = s\<lparr>logBuffer := logBuffer s @ [exit_block block]\<rparr> in
        Some (h\<lparr>server := (server h)\<lparr>store := s\<rparr>, log_end := Some (length (logBuffer s))\<rparr>)
      else None)"

text \<open>A worker that serves nobody dequeues: a descriptor is served next, 0 ends the worker.\<close>

definition worker_dequeue :: "halting \<Rightarrow> halting option" where
  "worker_dequeue h =
     (let st = server h in
      (case taskBuffer st of
         [] \<Rightarrow> None
       | rdy_fd # rest \<Rightarrow>
           if length (working st) < workers_left h
           then Some (if rdy_fd = 0 then h\<lparr>server := st\<lparr>taskBuffer := rest\<rparr>, workers_left := workers_left h - 1\<rparr>
                      else h\<lparr>server := st\<lparr>taskBuffer := rest, working := rdy_fd # working st\<rparr>\<rparr>)
           else None))"

text \<open>What a worker logs while it serves a client finds room sooner or later: the flusher empties the
  queue up to its message, and only what comes behind that message has to fit in the queue.\<close>

definition log_room :: "halting \<Rightarrow> system \<Rightarrow> bool" where
  "log_room h st' \<longleftrightarrow>
     (case log_end h of None \<Rightarrow> True | Some n \<Rightarrow> length (logBuffer (store st')) \<le> n + EVENT_BUF_CAP)"

inductive stop_step :: "halting \<Rightarrow> halting \<Rightarrow> bool" where
  send: "send_term h = Some h' \<Longrightarrow> stop_step h h'"
| exit_log: "send_exit block h = Some h' \<Longrightarrow> stop_step h h'"
| dequeue: "worker_dequeue h = Some h' \<Longrightarrow> stop_step h h'"
| serve: "c \<in> set (working (server h)) \<Longrightarrow> env_ok env (store (server h)) \<Longrightarrow> decode inp = Some (r, rest) \<Longrightarrow> proper r \<Longrightarrow>
    worker_serve env unset c inp (server h) = Some (st', out, rest) \<Longrightarrow> log_room h st' \<Longrightarrow>
    stop_step h (h\<lparr>server := st'\<rparr>)"

section \<open>The invariant\<close>

text \<open>The tasks, then the messages sent so far, one for each worker that is left and not still to be sent;
  without the messages the server is as it was.\<close>

definition stopping :: "nat \<Rightarrow> nat \<Rightarrow> int \<Rightarrow> fd list \<Rightarrow> halting \<Rightarrow> bool" where
  "stopping maxFiles maxSize algo tasks h \<longleftrightarrow>
     (let st = server h in
      terms_left h \<le> workers_left h \<and> taskBuffer st = tasks @ replicate (workers_left h - terms_left h) 0 \<and>
      0 \<notin> set tasks \<and> length (working st) \<le> workers_left h \<and> (workers_left h = 0 \<longrightarrow> tasks = []) \<and>
      (\<exists>xs fs. system_ok maxFiles maxSize algo (st\<lparr>taskBuffer := tasks\<rparr>) xs fs))"

definition steps_left :: "fd list \<Rightarrow> halting \<Rightarrow> nat" where
  "steps_left tasks h = 2 * length tasks + length (working (server h)) + workers_left h + terms_left h +
     (if log_end h = None then 1 else 0)"

lemma tasks_not_zero:
  "system_ok maxFiles maxSize algo st xs fs \<Longrightarrow> 0 \<notin> set (taskBuffer st)"
proof
  assume ok: "system_ok maxFiles maxSize algo st xs fs" and "0 \<in> set (taskBuffer st)"
  then have "0 \<in> connected st" using system_ok_places(1) [OF ok, of 0] by (simp add: places_def)
  then show False using ok by (auto simp: system_ok_def manager_ok_def Let_def)
qed

lemma log_irrelevant:
  assumes "system_ok maxFiles maxSize algo st xs fs"
  shows "system_ok maxFiles maxSize algo (st\<lparr>store := (store st)\<lparr>logBuffer := l\<rparr>\<rparr>) xs (fs\<lparr>f_log := l\<rparr>)"
proof -
  have "sim ((store st)\<lparr>logBuffer := l\<rparr>) xs (fs\<lparr>f_log := l\<rparr>)"
    using assms by (auto simp: system_ok_def sim_busy_def abs_store_def)
  then show ?thesis using assms
    by (simp add: system_ok_def fs_ok_def config_ok_def limits_def manager_ok_def places_def waiting_def owners_def)
qed

lemma stopping_start:
  assumes "reachable maxFiles maxSize algo st" and "length (working st) \<le> workers" and "0 < workers"
  shows "stopping maxFiles maxSize algo (taskBuffer st) (halt workers st)"
proof -
  obtain xs fs where ok: "system_ok maxFiles maxSize algo st xs fs" using reachable_ok [OF assms(1)] by blast
  moreover have "st\<lparr>taskBuffer := taskBuffer st\<rparr> = st" by simp
  ultimately show ?thesis using tasks_not_zero [OF ok] assms(2,3) by (auto simp: stopping_def halt_def)
qed

lemma worker_serve_tasks:
  "worker_serve env unset c inp st = Some (st', out, rest) \<Longrightarrow>
   worker_serve env unset c inp (st\<lparr>taskBuffer := q\<rparr>) = Some (st'\<lparr>taskBuffer := q\<rparr>, out, rest) \<and>
   taskBuffer st' = taskBuffer st \<and> working st' = remove1 c (working st)"
  by (auto simp: worker_serve_def split: bind_splits)

lemma stopping_dequeue:
  assumes inv: "stopping maxFiles maxSize algo tasks h" and step: "worker_dequeue h = Some h'"
  shows "\<exists>tasks'. stopping maxFiles maxSize algo tasks' h' \<and> steps_left tasks h = Suc (steps_left tasks' h')"
proof -
  let ?st = "server h"
  have b: "taskBuffer ?st = tasks @ replicate (workers_left h - terms_left h) 0" using inv by (simp add: stopping_def Let_def)
  obtain x q where q: "taskBuffer ?st = x # q" and w: "length (working ?st) < workers_left h"
    and h': "h' = (if x = 0 then h\<lparr>server := ?st\<lparr>taskBuffer := q\<rparr>, workers_left := workers_left h - 1\<rparr>
        else h\<lparr>server := ?st\<lparr>taskBuffer := q, working := x # working ?st\<rparr>\<rparr>)"
    using step by (auto simp: worker_dequeue_def Let_def split: list.splits if_splits)
  show ?thesis
  proof (cases tasks)
    case Nil
    obtain m where m: "workers_left h - terms_left h = Suc m" "x = 0" "q = replicate m 0"
      using b q Nil by (cases "workers_left h - terms_left h") auto
    then have "stopping maxFiles maxSize algo [] h'" using inv w Nil by (auto simp: stopping_def Let_def h')
    then show ?thesis using m w Nil by (intro exI [of _ "[]"]) (auto simp: steps_left_def h')
  next
    case (Cons c cs)
    have x: "x = c" "x \<noteq> 0" "q = cs @ replicate (workers_left h - terms_left h) 0"
      using b q Cons inv by (auto simp: stopping_def Let_def)
    obtain xs fs where ok: "system_ok maxFiles maxSize algo (?st\<lparr>taskBuffer := tasks\<rparr>) xs fs"
      using inv by (auto simp: stopping_def Let_def)
    have "worker_take (?st\<lparr>taskBuffer := tasks\<rparr>) = Some (?st\<lparr>taskBuffer := cs, working := c # working ?st\<rparr>)"
      by (simp add: worker_take_def Cons)
    then have "system_ok maxFiles maxSize algo (?st\<lparr>taskBuffer := cs, working := c # working ?st\<rparr>) xs fs" by (rule take_ok [OF ok])
    moreover have "?st\<lparr>taskBuffer := cs, working := c # working ?st\<rparr> = ?st\<lparr>working := c # working ?st, taskBuffer := cs\<rparr>"
      by (cases ?st) simp
    ultimately have "stopping maxFiles maxSize algo cs h'" using inv w Cons x by (auto simp: stopping_def Let_def h')
    then show ?thesis using Cons x by (intro exI [of _ cs]) (simp add: steps_left_def h')
  qed
qed

lemma stopping_serve:
  assumes inv: "stopping maxFiles maxSize algo tasks h" and c: "c \<in> set (working (server h))"
    and env: "env_ok env (store (server h))" and dec: "decode inp = Some (r, rest)" and pr: "proper r"
    and run: "worker_serve env unset c inp (server h) = Some (st', out, rest)"
  shows "stopping maxFiles maxSize algo tasks (h\<lparr>server := st'\<rparr>) \<and> steps_left tasks h = Suc (steps_left tasks (h\<lparr>server := st'\<rparr>))"
proof -
  obtain xs fs where ok: "system_ok maxFiles maxSize algo ((server h)\<lparr>taskBuffer := tasks\<rparr>) xs fs"
    using inv by (auto simp: stopping_def Let_def)
  note w = worker_serve_tasks [OF run, of tasks]
  have "\<exists>xs' fs'. system_ok maxFiles maxSize algo (st'\<lparr>taskBuffer := tasks\<rparr>) xs' fs'"
    using work_ok [OF ok, of env c inp r rest unset] c env dec pr w by fastforce
  moreover have "length (working (server h)) = Suc (length (working st'))"
    using w length_pos_if_in_set [OF c] by (simp add: length_remove1 c)
  ultimately show ?thesis using inv w by (auto simp: stopping_def Let_def steps_left_def)
qed

lemma stopping_step:
  assumes inv: "stopping maxFiles maxSize algo tasks h" and step: "stop_step h h'"
  shows "\<exists>tasks'. stopping maxFiles maxSize algo tasks' h' \<and> steps_left tasks h = Suc (steps_left tasks' h')"
  using step
proof (cases rule: stop_step.cases)
  case send
  have t: "0 < terms_left h" and h': "h' = h\<lparr>server := (server h)\<lparr>taskBuffer := taskBuffer (server h) @ [0]\<rparr>, terms_left := terms_left h - 1\<rparr>"
    using send by (auto simp: send_term_def Let_def split: if_splits)
  have "terms_left h \<le> workers_left h" using inv by (simp add: stopping_def Let_def)
  then have "workers_left h - (terms_left h - 1) = Suc (workers_left h - terms_left h)" using t by simp
  then have "stopping maxFiles maxSize algo tasks h'" using inv t
    by (simp add: stopping_def Let_def h' replicate_append_same)
  then show ?thesis using t by (intro exI [of _ tasks]) (simp add: steps_left_def h')
next
  case (exit_log block)
  let ?l = "logBuffer (store (server h)) @ [exit_block block]"
  have l: "log_end h = None" and h': "h' = h\<lparr>server := (server h)\<lparr>store := (store (server h))\<lparr>logBuffer := ?l\<rparr>\<rparr>, log_end := Some (length ?l)\<rparr>"
    using exit_log by (auto simp: send_exit_def Let_def split: if_splits)
  obtain xs fs where ok: "system_ok maxFiles maxSize algo ((server h)\<lparr>taskBuffer := tasks\<rparr>) xs fs"
    using inv by (auto simp: stopping_def Let_def)
  have "(server h)\<lparr>taskBuffer := tasks, store := (store (server h))\<lparr>logBuffer := ?l\<rparr>\<rparr> = (server h')\<lparr>taskBuffer := tasks\<rparr>"
    by (cases "server h") (simp add: h')
  moreover have "system_ok maxFiles maxSize algo
      ((server h)\<lparr>taskBuffer := tasks, store := (store (server h))\<lparr>logBuffer := ?l\<rparr>\<rparr>) xs (fs\<lparr>f_log := ?l\<rparr>)"
    using log_irrelevant [OF ok, of ?l] by simp
  ultimately have "\<exists>xs fs. system_ok maxFiles maxSize algo ((server h')\<lparr>taskBuffer := tasks\<rparr>) xs fs" by metis
  then have "stopping maxFiles maxSize algo tasks h'" using inv by (simp add: stopping_def Let_def h')
  then show ?thesis using l by (intro exI [of _ tasks]) (simp add: steps_left_def h')
next
  case dequeue
  then show ?thesis using stopping_dequeue [OF inv] by blast
next
  case (serve c env inp r rest unset st' out)
  then show ?thesis using stopping_serve [OF inv] by blast
qed

lemma stopping_steps:
  assumes "stopping maxFiles maxSize algo tasks h" and "(stop_step ^^ k) h h'"
  shows "\<exists>tasks'. stopping maxFiles maxSize algo tasks' h' \<and> steps_left tasks h = k + steps_left tasks' h'"
  using assms(2)
proof (induction k arbitrary: h')
  case 0
  then show ?case using assms(1) by auto
next
  case (Suc k)
  then obtain q where q: "(stop_step ^^ k) h q" "stop_step q h'" by auto
  then show ?case using Suc.IH [OF q(1)] stopping_step by fastforce
qed

text \<open>While no client is being served, the manager or a worker can go on until all have ended.\<close>

definition halted :: "halting \<Rightarrow> bool" where
  "halted h \<longleftrightarrow> workers_left h = 0 \<and> terms_left h = 0 \<and> log_end h \<noteq> None \<and> taskBuffer (server h) = [] \<and> working (server h) = []"

lemma stopping_progress:
  assumes inv: "stopping maxFiles maxSize algo tasks h" and idle: "working (server h) = []"
  shows "halted h \<or> (\<exists>h'. stop_step h h')"
proof (cases "workers_left h = 0")
  case True
  then have h: "terms_left h = 0" "taskBuffer (server h) = []" using inv by (auto simp: stopping_def Let_def)
  show ?thesis
  proof (cases "log_end h")
    case None
    then have "\<exists>h'. send_exit [] h = Some h'" using h by (simp add: send_exit_def Let_def)
    then show ?thesis using stop_step.exit_log by blast
  qed (use True h idle in \<open>simp add: halted_def\<close>)
next
  case False
  show ?thesis
  proof (cases "taskBuffer (server h)")
    case Nil
    then have "0 < terms_left h" using inv False by (auto simp: stopping_def Let_def)
    then have "\<exists>h'. send_term h = Some h'" using Nil by (simp add: send_term_def Let_def MAX_TASKS_def)
    then show ?thesis using stop_step.send by blast
  next
    case (Cons c q)
    then have "\<exists>h'. worker_dequeue h = Some h'" using False idle by (simp add: worker_dequeue_def Let_def)
    then show ?thesis using stop_step.dequeue by blast
  qed
qed

text \<open>A client that is being served, whatever it sends.\<close>

lemma stopping_serves:
  assumes inv: "stopping maxFiles maxSize algo tasks h" and c: "c \<in> set (working (server h))"
    and env: "env_ok env (store (server h))" and dec: "decode inp = Some (r, rest)" and pr: "proper r"
    and sim: "sim (store (server h)) xs fs" and rd: "readable unset fs r"
  shows "\<exists>st' out. worker_serve env unset c inp (server h) = Some (st', out, rest) \<and>
    (log_room h st' \<longrightarrow> stop_step h (h\<lparr>server := st'\<rparr>))"
proof -
  obtain ys gs where ok: "system_ok maxFiles maxSize algo ((server h)\<lparr>taskBuffer := tasks\<rparr>) ys gs"
    using inv by (auto simp: stopping_def Let_def)
  then have "sim (store (server h)) ys gs" by (simp add: system_ok_def)
  then have ok: "system_ok maxFiles maxSize algo ((server h)\<lparr>taskBuffer := tasks\<rparr>) xs fs" using sim_unique [OF sim] ok by blast
  obtain fs' out where sp: "spec_serve env unset fs c r = (fs', out)" by fastforce
  obtain s' where "serve env unset (store (server h)) c inp = Some (s', out, rest)"
    using worker_serve_some [OF ok _ _ dec pr rd sp] env c by auto
  then obtain st' where run: "worker_serve env unset c inp (server h) = Some (st', out, rest)" by (simp add: worker_serve_def)
  then show ?thesis using stop_step.serve [OF c env dec pr run] by blast
qed

section \<open>The server ends\<close>

text \<open>C15: the server ends, unless what its last clients do overflows the log. After the manager has left its
  loop, it and the workers take a bounded number of steps, in any order: the termination messages, each
  as soon as there is room in the queue of tasks, the end of the log, and for each client that is held or
  queued one service. While no client is being served one of them can go on, until all workers have ended and
  nothing is left to do. A client that is being served is served, whatever request it sends (or if it leaves),
  and this is a step of the shutdown, unless what its worker logs does not fit in the log queue: behind the
  message that ends the flusher there is room for \<open>EVENT_BUF_CAP\<close> entries, and a worker that logs more waits
  for ever, and the server with it. A client that stops in the middle of a request without closing its
  connection holds its worker in the same way; the property is about complete requests, other than a read of
  many files that overflows its buffer (C12).\<close>

theorem shutdown_completes:
  assumes "reachable maxFiles maxSize algo st" and "length (working st) \<le> workers" and "0 < workers"
    and "(stop_step ^^ k) (halt workers st) h"
  shows "k \<le> 2 * length (taskBuffer st) + length (working st) + 2 * workers + 1 \<and>
    (working (server h) = [] \<longrightarrow> halted h \<or> (\<exists>h'. stop_step h h')) \<and>
    (\<forall>c env unset inp r rest xs fs. c \<in> set (working (server h)) \<longrightarrow> env_ok env (store (server h)) \<longrightarrow>
       decode inp = Some (r, rest) \<longrightarrow> proper r \<longrightarrow> sim (store (server h)) xs fs \<longrightarrow> readable unset fs r \<longrightarrow>
       (\<exists>st' out. worker_serve env unset c inp (server h) = Some (st', out, rest) \<and>
          (log_room h st' \<longrightarrow> stop_step h (h\<lparr>server := st'\<rparr>))))"
proof -
  obtain tasks where inv: "stopping maxFiles maxSize algo tasks h"
    and k: "steps_left (taskBuffer st) (halt workers st) = k + steps_left tasks h"
    using stopping_steps [OF stopping_start [OF assms(1-3)] assms(4)] by blast
  have "k \<le> 2 * length (taskBuffer st) + length (working st) + 2 * workers + 1"
    using k by (simp add: steps_left_def halt_def)
  then show ?thesis using stopping_progress [OF inv] stopping_serves [OF inv] by blast
qed

theorem shutdown_completes_witness:
  "\<exists>st st' out. reachable 10 1000 0 st \<and> working st = [5] \<and>
     worker_serve (env_at 2) 0 5 [] st = Some (st', out, []) \<and> stop_step (halt 2 st) ((halt 2 st)\<lparr>server := st'\<rparr>)"
proof -
  obtain s xs fs where r: "reachable 10 1000 0 (demo_state 4 {} s [5] [])" and sim: "sim s xs fs" and env: "env_ok (env_at 2) s"
    using demo_locked by blast
  let ?st = "demo_state 4 {} s [5] []"
  have h: "(stop_step ^^ 0) (halt 2 ?st) (halt 2 ?st)" "server (halt 2 ?st) = ?st" "log_end (halt 2 ?st) = None"
    by (simp_all add: halt_def)
  have w: "length (working ?st) \<le> 2" "(0::nat) < 2" by simp_all
  have "\<exists>st' out. worker_serve (env_at 2) 0 5 [] (server (halt 2 ?st)) = Some (st', out, []) \<and>
      (log_room (halt 2 ?st) st' \<longrightarrow> stop_step (halt 2 ?st) ((halt 2 ?st)\<lparr>server := st'\<rparr>))"
    using shutdown_completes [OF r w h(1), THEN conjunct2, THEN conjunct2, rule_format, of 5 "env_at 2" "[]" Exit "[]" xs fs 0] sim env
    by (simp add: h decode_exit proper_def)
  then show ?thesis using r h by (auto simp: log_room_def)
qed

end
