(* ===== verification/RwLock.thy ===== *)
theory RwLock
  imports Handlers
begin

text \<open>
  The locking protocol of the handlers of \<^verbatim>\<open>src/src/filesystemApi.c\<close> around one file: the mutex of the
  store, the mutexes \<open>ordering\<close> and \<open>mutex\<close> of the file, the condition variable \<open>rwCond\<close>, the count of
  active readers and the flag \<open>isBeingWritten\<close>. The sequential definitions of the handlers run one
  request at a time; here any number of worker threads run them on the same file, interleaved at every
  acquisition of a mutex and around the work that is done outside them. What a section does to the file
  is what the handler does.
\<close>

section \<open>Threads\<close>

text \<open>The handlers, as far as they lock a file that exists; the descriptor is the client's. \<open>HDestroy\<close> is
  \<open>destroyFile\<close> called by another handler that evicts the file.\<close>

datatype handler =
    HRead fd
  | HWrite fd
  | HLock fd
  | HUnlock fd
  | HClose fd
  | HOpen fd bool
  | HTest fd
  | HExit fd
  | HRemove fd
  | HDestroy

text \<open>
  Where a thread is: about to take the mutex of the store, \<open>ordering\<close> or \<open>mutex\<close>; inside the first
  critical section; in \<open>pthread_cond_wait\<close>, or woken and about to take \<open>mutex\<close> again, or back in the section; at work between
  the two sections; about to take \<open>mutex\<close> for the second one, or inside it; returned with an outcome.
\<close>

datatype pc =
    Idle
  | AtStore handler
  | AtOrdering handler
  | AtMutex handler
  | Entered handler
  | Asleep handler
  | Awake handler
  | Resumed handler
  | Working handler
  | AtSecond handler
  | InSecond handler
  | Returned handler int

record rw_state =
  fnode :: FileNode
  gone :: bool
  crashed :: bool
  store_lock :: "nat option"
  order_lock :: "nat option"
  node_lock :: "nat option"
  pcs :: "nat \<Rightarrow> pc"

definition goto :: "nat \<Rightarrow> pc \<Rightarrow> rw_state \<Rightarrow> rw_state" where
  "goto t p st = st\<lparr>pcs := (pcs st)(t := p)\<rparr>"

text \<open>Handlers that keep the mutex of the store until they return, the others release it as soon as they
  hold the two mutexes of the file.\<close>

fun keeps_store :: "handler \<Rightarrow> bool" where
  "keeps_store (HWrite c) = True"
| "keeps_store (HClose c) = True"
| "keeps_store (HOpen c l) = True"
| "keeps_store (HExit c) = True"
| "keeps_store (HRemove c) = True"
| "keeps_store HDestroy = True"
| "keeps_store _ = False"

fun asserts :: "handler \<Rightarrow> bool" where
  "asserts (HWrite c) = True"
| "asserts h = False"

fun destroys :: "handler \<Rightarrow> bool" where
  "destroys (HRemove c) = True"
| "destroys HDestroy = True"
| "destroys h = False"

text \<open>The condition of the loop around \<open>pthread_cond_wait\<close>.\<close>

fun waits :: "handler \<Rightarrow> FileNode \<Rightarrow> bool" where
  "waits (HRead c) n = isBeingWritten n"
| "waits (HWrite c) n = (0 < activeReaders n)"
| "waits (HOpen c l) n = False"
| "waits (HTest c) n = False"
| "waits _ n = (0 < activeReaders n \<or> isBeingWritten n)"

fun refused :: "handler \<Rightarrow> FileNode \<Rightarrow> bool" where
  "refused (HRead c) n = access_denied n c"
| "refused (HWrite c) n = access_denied n c"
| "refused _ n = False"

section \<open>The critical sections\<close>

text \<open>The first section after the wait: the file and, unless the thread goes on to work, the outcome.\<close>

fun first_section :: "env \<Rightarrow> handler \<Rightarrow> FileNode \<Rightarrow> FileNode \<times> int option" where
  "first_section env (HRead c) n =
     (update_cache_bits env (n\<lparr>activeReaders := size_add (activeReaders n) 1\<rparr>), None)"
| "first_section env (HWrite c) n = (update_cache_bits env (n\<lparr>isBeingWritten := True\<rparr>), None)"
| "first_section env (HLock c) n =
     (if lockedBy n \<noteq> 0 \<and> lockedBy n \<noteq> c
      then (n\<lparr>pendingLocks := push_tail (pendingLocks n) c\<rparr>, Some (-2))
      else (update_cache_bits env (n\<lparr>isBeingWritten := True\<rparr>), None))"
| "first_section env (HUnlock c) n =
     (let n = update_cache_bits env n in
      if lockedBy n = c then
        (let (q, newLock) = popNodeFromFdQueue (pendingLocks n) (-1) in
         (n\<lparr>pendingLocks := q, lockedBy := newLock, canDoFirstWrite := 0\<rparr>, Some 0))
      else (n, Some (-1)))"
| "first_section env (HClose c) n = (update_cache_bits env (n\<lparr>isBeingWritten := True\<rparr>), None)"
| "first_section env (HOpen c l) n =
     (if l \<and> lockedBy n \<noteq> 0 then (n, Some (-1))
      else (n\<lparr>lockedBy := (if l then c else lockedBy n), openDescriptors := push_tail (openDescriptors n) c\<rparr>, Some 0))"
| "first_section env (HTest c) n = (n, Some (if canDoFirstWrite n = c then 1 else 0))"
| "first_section env (HExit c) n =
     ((case exit_node c n [] of Some (n, _) \<Rightarrow> n | None \<Rightarrow> n), Some 0)"
| "first_section env (HRemove c) n = (n\<lparr>openDescriptors := []\<rparr>, Some 0)"
| "first_section env HDestroy n = (n\<lparr>openDescriptors := []\<rparr>, Some 0)"

text \<open>The work outside the mutexes. A write replaces the content, unless the new one is too big.\<close>

fun between :: "handler \<Rightarrow> (buffer \<times> nat \<times> nat) option \<Rightarrow> FileNode \<Rightarrow> FileNode" where
  "between (HWrite c) w n =
     (case w of
        None \<Rightarrow> n
      | Some (new, sz, plain) \<Rightarrow>
          n\<lparr>refCount := 0, content := new, uncompressedSize := plain, contentSize := sz, canDoFirstWrite := 0\<rparr>)"
| "between (HLock c) w n = n\<lparr>lockedBy := c\<rparr>"
| "between (HClose c) w n = n\<lparr>openDescriptors := fst (popNodeFromFdQueue (openDescriptors n) c)\<rparr>"
| "between h w n = n"

text \<open>The second section, and whether it wakes the threads that wait for the file: a reader signals, a
  writer broadcasts.\<close>

datatype wakeup = Nobody | Signal | Broadcast

fun second_section :: "handler \<Rightarrow> FileNode \<Rightarrow> FileNode \<times> wakeup" where
  "second_section (HRead c) n =
     (let n = n\<lparr>activeReaders := size_sub (activeReaders n) 1, canDoFirstWrite := 0\<rparr> in
      (n, if activeReaders n = 0 then Signal else Nobody))"
| "second_section (HWrite c) n = (n\<lparr>isBeingWritten := False\<rparr>, Broadcast)"
| "second_section h n = (n\<lparr>isBeingWritten := False, canDoFirstWrite := 0\<rparr>, Broadcast)"

fun broadcasts_first :: "handler \<Rightarrow> wakeup" where
  "broadcasts_first (HUnlock c) = Broadcast"
| "broadcasts_first h = Nobody"

fun wake :: "pc \<Rightarrow> pc" where
  "wake (Asleep h) = Awake h"
| "wake p = p"

text \<open>A signal wakes the thread \<open>who\<close>.\<close>

fun wake_pcs :: "wakeup \<Rightarrow> nat \<Rightarrow> (nat \<Rightarrow> pc) \<Rightarrow> nat \<Rightarrow> pc" where
  "wake_pcs Nobody who ps = ps"
| "wake_pcs Signal who ps = ps(who := wake (ps who))"
| "wake_pcs Broadcast who ps = wake \<circ> ps"

definition wake_up :: "wakeup \<Rightarrow> nat \<Rightarrow> rw_state \<Rightarrow> rw_state" where
  "wake_up b who st = st\<lparr>pcs := wake_pcs b who (pcs st)\<rparr>"

section \<open>Steps\<close>

text \<open>With the mutex of the store held, the file is looked up; \<open>removeFileHandler\<close> checks the owner.\<close>

fun missing :: "handler \<Rightarrow> rw_state \<Rightarrow> bool" where
  "missing (HRemove c) st = (gone st \<or> lockedBy (fnode st) \<noteq> c)"
| "missing h st = gone st"

definition run_store :: "nat \<Rightarrow> handler \<Rightarrow> rw_state \<Rightarrow> rw_state" where
  "run_store t h st =
     (if missing h st then goto t (Returned h (-1)) st else goto t (AtOrdering h) (st\<lparr>store_lock := Some t\<rparr>))"

definition release_store :: "handler \<Rightarrow> rw_state \<Rightarrow> rw_state" where
  "release_store h st = (if keeps_store h then st\<lparr>store_lock := None\<rparr> else st)"

text \<open>Inside the first section, with both mutexes of the file held: the wait, and what follows it.\<close>

definition run_first :: "env \<Rightarrow> nat \<Rightarrow> nat \<Rightarrow> handler \<Rightarrow> rw_state \<Rightarrow> rw_state" where
  "run_first env t who h st =
     (if waits h (fnode st) then goto t (Asleep h) (st\<lparr>node_lock := None\<rparr>)
      else (let (n, outcome) = first_section env h (fnode st);
                st = wake_up (broadcasts_first h) who (st\<lparr>fnode := n, node_lock := None, order_lock := None\<rparr>) in
            (case outcome of
               None \<Rightarrow> goto t (Working h) st
             | Some k \<Rightarrow> goto t (Returned h k) (release_store h (st\<lparr>gone := gone st \<or> destroys h\<rparr>)))))"

text \<open>On entry come the assertion of \<open>writeToFileHandler\<close> and the check of the client's rights.\<close>

definition run_entered :: "env \<Rightarrow> nat \<Rightarrow> nat \<Rightarrow> handler \<Rightarrow> rw_state \<Rightarrow> rw_state" where
  "run_entered env t who h st =
     (if asserts h \<and> isBeingWritten (fnode st) then st\<lparr>crashed := True\<rparr>
      else if refused h (fnode st)
      then goto t (Returned h (-1)) (release_store h (st\<lparr>node_lock := None, order_lock := None\<rparr>))
      else run_first env t who h st)"

definition run_second :: "nat \<Rightarrow> nat \<Rightarrow> handler \<Rightarrow> rw_state \<Rightarrow> rw_state" where
  "run_second t who h st =
     (let (n, b) = second_section h (fnode st) in
      goto t (Returned h 0) (release_store h (wake_up b who (st\<lparr>fnode := n, node_lock := None\<rparr>))))"

fun asleep :: "pc \<Rightarrow> bool" where
  "asleep (Asleep h) = True"
| "asleep p = False"

text \<open>A signal wakes a sleeping thread if there is one.\<close>

definition signals :: "nat \<Rightarrow> rw_state \<Rightarrow> bool" where
  "signals who st \<longleftrightarrow> asleep (pcs st who) \<or> (\<forall>u. \<not> asleep (pcs st u))"

inductive rw_step :: "nat \<Rightarrow> rw_state \<Rightarrow> rw_state \<Rightarrow> bool" where
  take_store: "pcs st t = AtStore h \<Longrightarrow> store_lock st = None \<Longrightarrow> \<not> crashed st \<Longrightarrow> rw_step t st (run_store t h st)"
| take_ordering: "pcs st t = AtOrdering h \<Longrightarrow> order_lock st = None \<Longrightarrow> \<not> crashed st \<Longrightarrow>
    rw_step t st (goto t (AtMutex h) (st\<lparr>order_lock := Some t\<rparr>))"
| take_mutex: "pcs st t = AtMutex h \<Longrightarrow> node_lock st = None \<Longrightarrow> \<not> crashed st \<Longrightarrow>
    rw_step t st (goto t (Entered h)
      (st\<lparr>node_lock := Some t, store_lock := (if keeps_store h then store_lock st else None)\<rparr>))"
| enter: "pcs st t = Entered h \<Longrightarrow> \<not> crashed st \<Longrightarrow> rw_step t st (run_entered env t who h st)"
| retake: "pcs st t = Awake h \<Longrightarrow> node_lock st = None \<Longrightarrow> \<not> crashed st \<Longrightarrow>
    rw_step t st (goto t (Resumed h) (st\<lparr>node_lock := Some t\<rparr>))"
| resume: "pcs st t = Resumed h \<Longrightarrow> \<not> crashed st \<Longrightarrow> rw_step t st (run_first env t who h st)"
| work: "pcs st t = Working h \<Longrightarrow> \<not> crashed st \<Longrightarrow> rw_step t st (goto t (AtSecond h) (st\<lparr>fnode := between h w (fnode st)\<rparr>))"
| take_second: "pcs st t = AtSecond h \<Longrightarrow> node_lock st = None \<Longrightarrow> \<not> crashed st \<Longrightarrow>
    rw_step t st (goto t (InSecond h) (st\<lparr>node_lock := Some t\<rparr>))"
| leave: "pcs st t = InSecond h \<Longrightarrow> signals who st \<Longrightarrow> \<not> crashed st \<Longrightarrow> rw_step t st (run_second t who h st)"

text \<open>A worker that is free starts a handler; a wait may also end without being signalled.\<close>

inductive rw_next :: "nat \<Rightarrow> rw_state \<Rightarrow> rw_state \<Rightarrow> bool" for pool where
  begins: "t < pool \<Longrightarrow> pcs st t = Idle \<or> (\<exists>h k. pcs st t = Returned h k) \<Longrightarrow> \<not> crashed st \<Longrightarrow>
    rw_next pool st (goto t (AtStore h) st)"
| spurious: "pcs st t = Asleep h \<Longrightarrow> \<not> crashed st \<Longrightarrow> rw_next pool st (goto t (Awake h) st)"
| runs: "rw_step t st st' \<Longrightarrow> rw_next pool st st'"

definition rw_start :: "FileNode \<Rightarrow> rw_state" where
  "rw_start n = \<lparr>fnode = n, gone = False, crashed = False, store_lock = None, order_lock = None, node_lock = None,
     pcs = (\<lambda>_. Idle)\<rparr>"

inductive rw_reachable :: "nat \<Rightarrow> rw_state \<Rightarrow> bool" for pool where
  rw_init: "quiet n \<Longrightarrow> pool < size_max \<Longrightarrow> rw_reachable pool (rw_start n)"
| rw_more: "rw_reachable pool st \<Longrightarrow> rw_next pool st st' \<Longrightarrow> rw_reachable pool st'"

inductive_cases rw_stepE: "rw_step t st st'"

section \<open>The invariant\<close>

fun holds_store :: "pc \<Rightarrow> bool" where
  "holds_store (AtOrdering h) = True"
| "holds_store (AtMutex h) = True"
| "holds_store (Entered h) = keeps_store h"
| "holds_store (Asleep h) = keeps_store h"
| "holds_store (Awake h) = keeps_store h"
| "holds_store (Resumed h) = keeps_store h"
| "holds_store (Working h) = keeps_store h"
| "holds_store (AtSecond h) = keeps_store h"
| "holds_store (InSecond h) = keeps_store h"
| "holds_store _ = False"

fun holds_order :: "pc \<Rightarrow> bool" where
  "holds_order (AtMutex h) = True"
| "holds_order (Entered h) = True"
| "holds_order (Asleep h) = True"
| "holds_order (Awake h) = True"
| "holds_order (Resumed h) = True"
| "holds_order _ = False"

fun holds_node :: "pc \<Rightarrow> bool" where
  "holds_node (Entered h) = True"
| "holds_node (Resumed h) = True"
| "holds_node (InSecond h) = True"
| "holds_node _ = False"

fun active :: "pc \<Rightarrow> handler option" where
  "active (Working h) = Some h"
| "active (AtSecond h) = Some h"
| "active (InSecond h) = Some h"
| "active _ = None"

fun is_read :: "handler \<Rightarrow> bool" where
  "is_read (HRead c) = True"
| "is_read _ = False"

definition reading :: "pc \<Rightarrow> bool" where
  "reading p \<longleftrightarrow> (case active p of Some h \<Rightarrow> is_read h | None \<Rightarrow> False)"

definition writing :: "pc \<Rightarrow> bool" where
  "writing p \<longleftrightarrow> (case active p of Some h \<Rightarrow> \<not> is_read h | None \<Rightarrow> False)"

text \<open>Handlers that have a second section.\<close>

fun two_sections :: "handler \<Rightarrow> bool" where
  "two_sections (HRead c) = True"
| "two_sections (HWrite c) = True"
| "two_sections (HLock c) = True"
| "two_sections (HClose c) = True"
| "two_sections _ = False"

definition owner :: "nat option \<Rightarrow> (pc \<Rightarrow> bool) \<Rightarrow> (nat \<Rightarrow> pc) \<Rightarrow> bool" where
  "owner l holds ps \<longleftrightarrow> (\<forall>t. holds (ps t) \<longleftrightarrow> l = Some t)"

definition locks_ok :: "rw_state \<Rightarrow> bool" where
  "locks_ok st \<longleftrightarrow>
     owner (store_lock st) holds_store (pcs st) \<and> owner (order_lock st) holds_order (pcs st) \<and>
     owner (node_lock st) holds_node (pcs st)"

definition counts_ok :: "nat \<Rightarrow> rw_state \<Rightarrow> bool" where
  "counts_ok pool st \<longleftrightarrow>
     pool < size_max \<and> (\<forall>t. pool \<le> t \<longrightarrow> pcs st t = Idle) \<and>
     activeReaders (fnode st) = card {t. reading (pcs st t)} \<and>
     (isBeingWritten (fnode st) \<longleftrightarrow> (\<exists>t. writing (pcs st t)))"

definition exclusive :: "rw_state \<Rightarrow> bool" where
  "exclusive st \<longleftrightarrow>
     (\<forall>t u. writing (pcs st t) \<longrightarrow> writing (pcs st u) \<longrightarrow> t = u) \<and>
     (\<forall>t u. writing (pcs st t) \<longrightarrow> \<not> reading (pcs st u))"

text \<open>A sleeping thread has a reason to sleep; a waiting writer has passed its assertion.\<close>

fun waiting_writer :: "pc \<Rightarrow> bool" where
  "waiting_writer (Asleep h) = asserts h"
| "waiting_writer (Awake h) = asserts h"
| "waiting_writer (Resumed h) = asserts h"
| "waiting_writer p = False"

definition sleep_ok :: "rw_state \<Rightarrow> bool" where
  "sleep_ok st \<longleftrightarrow>
     (\<forall>t h. pcs st t = Asleep h \<longrightarrow> waits h (fnode st)) \<and>
     (\<forall>t. waiting_writer (pcs st t) \<longrightarrow> \<not> isBeingWritten (fnode st)) \<and>
     (\<forall>t h. active (pcs st t) = Some h \<longrightarrow> two_sections h)"

fun in_file :: "pc \<Rightarrow> bool" where
  "in_file Idle = False"
| "in_file (AtStore h) = False"
| "in_file (Returned h k) = False"
| "in_file p = True"

definition rw_inv :: "nat \<Rightarrow> rw_state \<Rightarrow> bool" where
  "rw_inv pool st \<longleftrightarrow>
     locks_ok st \<and> counts_ok pool st \<and> exclusive st \<and> sleep_ok st \<and> (gone st \<longrightarrow> (\<forall>t. \<not> in_file (pcs st t)))"

lemma owner_keep: "owner l H ps \<Longrightarrow> H p = H (ps t) \<Longrightarrow> owner l H (ps(t := p))"
  by (simp add: owner_def)

lemma owner_take: "owner None H ps \<Longrightarrow> H p \<Longrightarrow> owner (Some t) H (ps(t := p))"
  by (auto simp: owner_def)

lemma owner_drop: "owner l H ps \<Longrightarrow> H (ps t) \<Longrightarrow> \<not> H p \<Longrightarrow> owner None H (ps(t := p))"
  by (auto simp: owner_def)

lemma owner_same: "owner l H ps \<Longrightarrow> (\<And>u. H (ps' u) = H (ps u)) \<Longrightarrow> owner l H ps'"
  by (simp add: owner_def)

lemma wake_simps [simp]:
  "holds_store (wake p) = holds_store p" "holds_order (wake p) = holds_order p" "holds_node (wake p) = holds_node p"
  "active (wake p) = active p" "waiting_writer (wake p) = waiting_writer p" "in_file (wake p) = in_file p"
  "wake p = Idle \<longleftrightarrow> p = Idle" "wake p \<noteq> Asleep h"
  by (cases p; simp)+

lemma wake_activity [simp]: "reading (wake p) = reading p" "writing (wake p) = writing p"
  by (simp_all add: reading_def writing_def)

text \<open>What a change of one thread's place does to the lock holders and the active threads.\<close>

lemma pcs_goto [simp]: "pcs (goto t p st) = (pcs st)(t := p)"
  by (simp add: goto_def)

lemma goto_sel [simp]:
  "fnode (goto t p st) = fnode st" "gone (goto t p st) = gone st" "crashed (goto t p st) = crashed st"
  "store_lock (goto t p st) = store_lock st" "order_lock (goto t p st) = order_lock st" "node_lock (goto t p st) = node_lock st"
  by (simp_all add: goto_def)

lemma wake_up_sel [simp]:
  "fnode (wake_up b who st) = fnode st" "gone (wake_up b who st) = gone st" "crashed (wake_up b who st) = crashed st"
  "store_lock (wake_up b who st) = store_lock st" "order_lock (wake_up b who st) = order_lock st"
  "node_lock (wake_up b who st) = node_lock st" "pcs (wake_up b who st) = wake_pcs b who (pcs st)"
  by (simp_all add: wake_up_def)

lemma release_store_sel [simp]:
  "fnode (release_store h st) = fnode st" "gone (release_store h st) = gone st" "crashed (release_store h st) = crashed st"
  "pcs (release_store h st) = pcs st" "order_lock (release_store h st) = order_lock st"
  "node_lock (release_store h st) = node_lock st"
  "store_lock (release_store h st) = (if keeps_store h then None else store_lock st)"
  by (simp_all add: release_store_def)

lemma wake_pcs_cases: "wake_pcs b who ps u = ps u \<or> wake_pcs b who ps u = wake (ps u)"
  by (cases b) auto

lemmas run_defs = run_store_def run_entered_def run_first_def run_second_def Let_def case_prod_beta

lemma rw_step_others:
  assumes "rw_step t st st'" and "u \<noteq> t"
  shows "pcs st' u = pcs st u \<or> pcs st' u = wake (pcs st u)"
  using assms(1)
proof cases
  case (enter h env who)
  then show ?thesis using assms(2) wake_pcs_cases by (auto simp: run_defs split: option.splits)
next
  case (resume h env who)
  then show ?thesis using assms(2) wake_pcs_cases by (auto simp: run_defs split: option.splits)
next
  case (leave h who)
  then show ?thesis using assms(2) wake_pcs_cases by (auto simp: run_defs)
qed (use assms(2) in \<open>auto simp: run_defs\<close>)

lemma rw_step_same:
  assumes "rw_step t st st'" and "\<And>p. H (wake p) = H p" and "u \<noteq> t"
  shows "H (pcs st' u) = H (pcs st u)"
  using rw_step_others [OF assms(1,3)] assms(2) by metis

lemma owner_step:
  assumes "owner l H ps" and "\<And>u. u \<noteq> t \<Longrightarrow> H (ps' u) = H (ps u)"
    and "H (ps' t) \<longrightarrow> H (ps t) \<or> l = None" and "l' = (if H (ps' t) then Some t else if H (ps t) then None else l)"
  shows "owner l' H ps'"
  using assms unfolding owner_def by (metis option.discI option.inject)

lemma locks_step:
  assumes step: "rw_step t st st'" and inv: "locks_ok st"
  shows "locks_ok st'"
proof -
  have o: "owner (store_lock st) holds_store (pcs st)" "owner (order_lock st) holds_order (pcs st)"
    "owner (node_lock st) holds_node (pcs st)"
    using inv by (simp_all add: locks_ok_def)
  then have own: "holds_store (pcs st t) \<Longrightarrow> store_lock st = Some t" "holds_order (pcs st t) \<Longrightarrow> order_lock st = Some t"
    "holds_node (pcs st t) \<Longrightarrow> node_lock st = Some t"
    by (simp_all add: owner_def)
  note split = if_splits option.splits
  from step
  have "(holds_store (pcs st' t) \<longrightarrow> holds_store (pcs st t) \<or> store_lock st = None) \<and>
      store_lock st' = (if holds_store (pcs st' t) then Some t else if holds_store (pcs st t) then None else store_lock st)"
    by cases (use own(1) in \<open>auto simp: run_defs split: option.split\<close>)
  moreover from step
  have "(holds_order (pcs st' t) \<longrightarrow> holds_order (pcs st t) \<or> order_lock st = None) \<and>
      order_lock st' = (if holds_order (pcs st' t) then Some t else if holds_order (pcs st t) then None else order_lock st)"
    by cases (use own(2) in \<open>auto simp: run_defs split: option.split\<close>)
  moreover from step
  have "(holds_node (pcs st' t) \<longrightarrow> holds_node (pcs st t) \<or> node_lock st = None) \<and>
      node_lock st' = (if holds_node (pcs st' t) then Some t else if holds_node (pcs st t) then None else node_lock st)"
    by cases (use own(3) in \<open>auto simp: run_defs split: option.split\<close>)
  ultimately show ?thesis
    unfolding locks_ok_def
    using owner_step [OF o(1), of t "pcs st'"] owner_step [OF o(2), of t "pcs st'"] owner_step [OF o(3), of t "pcs st'"]
      rw_step_same [OF step, of holds_store] rw_step_same [OF step, of holds_order] rw_step_same [OF step, of holds_node]
    by simp
qed

section \<open>Readers and writers\<close>

lemma exit_node_activity:
  "exit_node c n l = Some (n', l') \<Longrightarrow> activeReaders n' = activeReaders n \<and> isBeingWritten n' = isBeingWritten n"
  by (auto simp: exit_node_def Let_def split: if_splits bind_splits prod.splits)

lemma exit_section_activity [simp]:
  "activeReaders (case exit_node c n l of Some (n', l') \<Rightarrow> n' | None \<Rightarrow> n) = activeReaders n"
  "isBeingWritten (case exit_node c n l of Some (n', l') \<Rightarrow> n' | None \<Rightarrow> n) = isBeingWritten n"
  by (auto dest: exit_node_activity split: option.split)

lemma first_section_outcome:
  "is_read h \<Longrightarrow> snd (first_section env h n) = None" "snd (first_section env h n) = None \<Longrightarrow> two_sections h"
  by (cases h; simp split: prod.splits if_splits add: Let_def)+

lemma first_section_readers:
  "activeReaders (fst (first_section env h n)) = (if is_read h then size_add (activeReaders n) 1 else activeReaders n)"
  by (cases h; simp split: prod.split add: update_cache_bits_def Let_def)

lemma first_section_writing:
  "isBeingWritten (fst (first_section env h n)) =
     (isBeingWritten n \<or> \<not> is_read h \<and> snd (first_section env h n) = None)"
  by (cases h; simp split: prod.split add: update_cache_bits_def Let_def)

lemma between_effect [simp]:
  "activeReaders (between h w n) = activeReaders n" "isBeingWritten (between h w n) = isBeingWritten n"
  by (cases h; simp split: option.splits prod.splits)+

lemma second_section_effect:
  "activeReaders (fst (second_section h n)) = (if is_read h then size_sub (activeReaders n) 1 else activeReaders n)"
  "isBeingWritten (fst (second_section h n)) = (is_read h \<and> isBeingWritten n)"
  by (cases h; simp add: Let_def)+

lemma waits_two_sections:
  "two_sections h \<Longrightarrow> \<not> waits h n \<Longrightarrow> (asserts h \<longrightarrow> \<not> isBeingWritten n) \<Longrightarrow>
     \<not> isBeingWritten n \<and> (is_read h \<or> activeReaders n = 0)"
  by (cases h) auto

text \<open>What a step does to the thread that makes it and to the counters of the file.\<close>

definition effect :: "FileNode \<Rightarrow> FileNode \<Rightarrow> pc \<Rightarrow> pc \<Rightarrow> bool" where
  "effect n n' p p' \<longleftrightarrow>
     (reading p' = reading p \<and> writing p' = writing p \<and> activeReaders n' = activeReaders n \<and> isBeingWritten n' = isBeingWritten n) \<or>
     (active p = None \<and> reading p' \<and> \<not> isBeingWritten n \<and> activeReaders n' = size_add (activeReaders n) 1 \<and> \<not> isBeingWritten n') \<or>
     (reading p \<and> active p' = None \<and> activeReaders n' = size_sub (activeReaders n) 1 \<and> isBeingWritten n' = isBeingWritten n) \<or>
     (active p = None \<and> writing p' \<and> activeReaders n = 0 \<and> \<not> isBeingWritten n \<and> activeReaders n' = 0 \<and> isBeingWritten n') \<or>
     (writing p \<and> active p' = None \<and> activeReaders n' = activeReaders n \<and> \<not> isBeingWritten n')"

lemma activity_simps [simp]:
  "active p = None \<Longrightarrow> \<not> reading p" "active p = None \<Longrightarrow> \<not> writing p"
  "active p = Some h \<Longrightarrow> reading p \<longleftrightarrow> is_read h" "active p = Some h \<Longrightarrow> writing p \<longleftrightarrow> \<not> is_read h"
  by (simp_all add: reading_def writing_def)

lemma run_first_effect:
  assumes p: "active (pcs st t) = None" and a: "asserts h \<longrightarrow> \<not> isBeingWritten (fnode st)"
  shows "effect (fnode st) (fnode (run_first env t who h st)) (pcs st t) (pcs (run_first env t who h st) t)"
proof (cases "waits h (fnode st)")
  case True
  then show ?thesis using p by (simp add: effect_def run_first_def)
next
  case False
  note e = first_section_readers [of env h "fnode st"] first_section_writing [of env h "fnode st"]
    first_section_outcome [where h = h and env = env and n = "fnode st"]
  show ?thesis
  proof (cases "snd (first_section env h (fnode st))")
    case None
    then show ?thesis
      using waits_two_sections [OF first_section_outcome(2) [OF None] False a] False p e(1,2)
      by (auto simp: effect_def run_first_def case_prod_beta Let_def)
  next
    case (Some k)
    then show ?thesis using False p e by (auto simp: effect_def run_first_def case_prod_beta Let_def)
  qed
qed

lemma rw_effect:
  assumes step: "rw_step t st st'" and sleep: "sleep_ok st"
  shows "effect (fnode st) (fnode st') (pcs st t) (pcs st' t)"
  using step
proof cases
  case (enter h env who)
  then show ?thesis using run_first_effect [of st t h env who] by (auto simp: run_entered_def effect_def)
next
  case (resume h env who)
  then have "asserts h \<longrightarrow> \<not> isBeingWritten (fnode st)" using sleep by (auto simp: sleep_ok_def dest!: spec [of _ t])
  then show ?thesis using resume run_first_effect [of st t h env who] by simp
next
  case (leave h who)
  then show ?thesis using second_section_effect [of h "fnode st"] by (cases "is_read h") (simp_all add: effect_def run_second_def case_prod_beta Let_def)
next
  case (work h w)
  then show ?thesis by (simp add: effect_def reading_def writing_def)
next
  case (take_second h)
  then show ?thesis by (simp add: effect_def reading_def writing_def)
qed (simp_all add: effect_def run_store_def reading_def writing_def)

lemma readers_below:
  assumes "counts_ok pool st"
  shows "finite {t. reading (pcs st t)}" and "card {t. reading (pcs st t)} \<le> pool"
proof -
  have sub: "{t. reading (pcs st t)} \<subseteq> {..<pool}"
  proof
    fix t assume "t \<in> {t. reading (pcs st t)}"
    then have "pcs st t \<noteq> Idle" by auto
    then show "t \<in> {..<pool}" using assms unfolding counts_ok_def by (metis lessThan_iff not_le)
  qed
  then show "finite {t. reading (pcs st t)}" by (rule finite_subset) simp
  show "card {t. reading (pcs st t)} \<le> pool" using card_mono [OF _ sub] by simp
qed

lemma rw_step_busy: "rw_step t st st' \<Longrightarrow> pcs st t \<noteq> Idle"
  by (erule rw_stepE) auto

lemma counts_step:
  assumes step: "rw_step t st st'" and counts: "counts_ok pool st" and ex: "exclusive st" and sleep: "sleep_ok st"
  shows "counts_ok pool st'" and "exclusive st'"
proof -
  let ?R = "{u. reading (pcs st u)}" and ?R' = "{u. reading (pcs st' u)}"
  note same = rw_step_same [OF step, of reading] rw_step_same [OF step, of writing]
  note eff = rw_effect [OF step sleep]
  note fin = readers_below [OF counts]
  have pool: "pool < size_max" and cnt: "activeReaders (fnode st) = card ?R"
    and wr: "isBeingWritten (fnode st) \<longleftrightarrow> (\<exists>u. writing (pcs st u))" and idle: "\<forall>u. pool \<le> u \<longrightarrow> pcs st u = Idle"
    using counts by (auto simp: counts_ok_def)
  have R': "?R' = (if reading (pcs st' t) then insert t ?R else ?R - {t})"
  proof (rule set_eqI)
    show "x \<in> ?R' \<longleftrightarrow> x \<in> (if reading (pcs st' t) then insert t ?R else ?R - {t})" for x
      using same(1) [of x] by (cases "x = t") auto
  qed
  have tp: "t < pool" using rw_step_busy [OF step] idle by (meson not_le)
  have idle': "pcs st' u = Idle" if "pool \<le> u" for u
    using rw_step_others [OF step, of u] idle that tp by force
  have rw: "\<not> (reading p \<and> writing p)" for p by (simp add: reading_def writing_def split: option.splits)
  have lt: "card (insert t ?R) \<le> pool" if "\<not> reading (pcs st t)"
  proof -
    have "u < pool" if "reading (pcs st u)" for u
    proof -
      have "pcs st u \<noteq> Idle" using that by auto
      then show ?thesis using idle by (meson not_le)
    qed
    then have "insert t ?R \<subseteq> {..<pool}" using tp by auto
    then show ?thesis using card_mono [of "{..<pool}"] by fastforce
  qed
  have excl: "writing (pcs st u) \<Longrightarrow> writing (pcs st v) \<Longrightarrow> u = v" "writing (pcs st u) \<Longrightarrow> \<not> reading (pcs st v)" for u v
    using ex by (auto simp: exclusive_def)
  have w: "writing (pcs st' u) = writing (pcs st u)" if "u \<noteq> t" for u by (rule same(2)) (use that in simp_all)
  have r: "reading (pcs st' u) = reading (pcs st u)" if "u \<noteq> t" for u by (rule same(1)) (use that in simp_all)
  from eff [unfolded effect_def]
  have "activeReaders (fnode st') = card ?R' \<and> (isBeingWritten (fnode st') \<longleftrightarrow> (\<exists>u. writing (pcs st' u))) \<and> exclusive st'"
  proof (elim disjE conjE)
    assume t: "reading (pcs st' t) = reading (pcs st t)" "writing (pcs st' t) = writing (pcs st t)"
      and n: "activeReaders (fnode st') = activeReaders (fnode st)" "isBeingWritten (fnode st') = isBeingWritten (fnode st)"
    then have "reading (pcs st' u) = reading (pcs st u)" "writing (pcs st' u) = writing (pcs st u)" for u
      using r w by (cases "u = t"; simp)+
    then show ?thesis using n cnt wr ex by (simp add: exclusive_def)
  next
    assume t: "active (pcs st t) = None" "reading (pcs st' t)"
      and n: "\<not> isBeingWritten (fnode st)" "activeReaders (fnode st') = size_add (activeReaders (fnode st)) 1" "\<not> isBeingWritten (fnode st')"
    have nr: "\<not> reading (pcs st t)" using t by simp
    have "card ?R' = Suc (card ?R)" unfolding R' using t nr fin(1) by simp
    moreover have "Suc (card ?R) < size_max" using lt [OF nr] pool nr fin(1) by simp
    moreover have "\<not> writing (pcs st' u)" for u using w [of u] wr n(1) rw [of "pcs st' u"] t(2) by (cases "u = t") auto
    ultimately show ?thesis using n cnt by (simp add: size_add_small exclusive_def)
  next
    assume t: "reading (pcs st t)" "active (pcs st' t) = None"
      and n: "activeReaders (fnode st') = size_sub (activeReaders (fnode st)) 1" "isBeingWritten (fnode st') = isBeingWritten (fnode st)"
    have nw: "\<not> writing (pcs st u)" for u using excl(2) [of u t] t(1) by blast
    have "\<not> writing (pcs st' u)" for u using w [of u] nw [of u] t(2) by (cases "u = t") auto
    moreover have "card ?R' = card ?R - 1" "0 < card ?R" unfolding R' using t fin(1) by (auto simp: card_gt_0_iff)
    moreover have "card ?R < size_max" using fin(2) pool by simp
    ultimately show ?thesis using n cnt wr nw by (simp add: size_sub_small exclusive_def)
  next
    assume t: "active (pcs st t) = None" "writing (pcs st' t)"
      and n: "activeReaders (fnode st) = 0" "\<not> isBeingWritten (fnode st)" "activeReaders (fnode st') = 0" "isBeingWritten (fnode st')"
    have nr: "?R = {}" using cnt n(1) fin(1) by simp
    then have "\<not> reading (pcs st' u)" for u using r [of u] rw [of "pcs st' u"] t(2) by (cases "u = t") auto
    moreover have "writing (pcs st' u) \<longleftrightarrow> u = t" for u using w [of u] t(2) wr n(2) by (cases "u = t") auto
    ultimately show ?thesis using n by (auto simp: exclusive_def)
  next
    assume t: "writing (pcs st t)" "active (pcs st' t) = None"
      and n: "activeReaders (fnode st') = activeReaders (fnode st)" "\<not> isBeingWritten (fnode st')"
    have "\<not> writing (pcs st' u)" for u using w [of u] excl(1) [of u t] t by (cases "u = t") auto
    moreover have "?R' = ?R" unfolding R' using t rw [of "pcs st t"] by auto
    ultimately show ?thesis using n cnt by (simp add: exclusive_def)
  qed
  then show "counts_ok pool st'" and "exclusive st'" using pool idle' by (simp_all add: counts_ok_def)
qed

section \<open>Sleeping and deleting\<close>

lemma waits_cong:
  "activeReaders n' = activeReaders n \<Longrightarrow> isBeingWritten n' = isBeingWritten n \<Longrightarrow> waits h n' = waits h n"
  by (cases h) simp_all

text \<open>Only a thread that holds \<open>ordering\<close> starts to work on the file.\<close>

lemma rw_step_enters:
  "rw_step t st st' \<Longrightarrow> active (pcs st t) = None \<Longrightarrow> active (pcs st' t) \<noteq> None \<Longrightarrow> holds_order (pcs st t)"
  by (erule rw_stepE) (auto simp: run_store_def split: if_splits)

text \<open>While another thread holds \<open>ordering\<close>, a step changes the counters of the file only at its end.\<close>

lemma rw_step_counters:
  assumes step: "rw_step t st st'" and locks: "locks_ok st" and u: "u \<noteq> t" "holds_order (pcs st u)"
  shows "(activeReaders (fnode st') = activeReaders (fnode st) \<and> isBeingWritten (fnode st') = isBeingWritten (fnode st)) \<or>
    (\<exists>h who. pcs st t = InSecond h \<and> signals who st \<and> st' = run_second t who h st)"
proof -
  have "\<not> holds_order (pcs st t)" using locks u by (auto simp: locks_ok_def owner_def)
  with step show ?thesis by cases (auto simp: run_store_def)
qed

lemma sleep_step:
  assumes step: "rw_step t st st'" and locks: "locks_ok st" and counts: "counts_ok pool st" and ex: "exclusive st"
    and sleep: "sleep_ok st"
  shows "sleep_ok st'"
proof -
  have once: "asleep (pcs st u) \<Longrightarrow> asleep (pcs st v) \<Longrightarrow> u = v" for u v
  proof -
    have "asleep p \<Longrightarrow> holds_order p" for p by (cases p) simp_all
    then show "asleep (pcs st u) \<Longrightarrow> asleep (pcs st v) \<Longrightarrow> u = v"
      using locks unfolding locks_ok_def owner_def by (metis option.inject)
  qed
  have "waits h (fnode st')" if "pcs st' u = Asleep h" for u h
  proof (cases "u = t")
    case True
    with step that show ?thesis
      by cases (auto simp: run_defs split: if_splits option.splits)
  next
    case False
    then have p: "pcs st u = Asleep h" using rw_step_others [OF step False] that wake_simps(8) by metis
    then have wt: "waits h (fnode st)" using sleep by (simp add: sleep_ok_def)
    have "holds_order (pcs st u)" by (simp add: p)
    from rw_step_counters [OF step locks False this] show ?thesis
    proof (elim disjE conjE exE)
      assume "activeReaders (fnode st') = activeReaders (fnode st)" "isBeingWritten (fnode st') = isBeingWritten (fnode st)"
      then show ?thesis using wt waits_cong by blast
    next
      fix g who assume t: "pcs st t = InSecond g" and sig: "signals who st" and st': "st' = run_second t who g st"
      have "asleep (pcs st u)" by (simp add: p)
      then have "who = u" using sig once [of who u] unfolding signals_def by blast
      then have b: "snd (second_section g (fnode st)) = Nobody"
        using that False p unfolding st'
        by (cases "snd (second_section g (fnode st))") (auto simp: run_second_def case_prod_beta)
      then have g: "is_read g" by (cases g) simp_all
      then have "0 < activeReaders (fst (second_section g (fnode st)))"
        using b by (cases g) (simp_all add: Let_def split: if_splits)
      moreover have "reading (pcs st t)" using t g by (simp add: reading_def)
      then have "\<not> isBeingWritten (fnode st)" using ex counts by (auto simp: exclusive_def counts_ok_def)
      ultimately show ?thesis using wt unfolding st'
        by (cases h) (simp_all add: run_second_def case_prod_beta)
    qed
  qed
  moreover have "\<not> isBeingWritten (fnode st')" if w: "waiting_writer (pcs st' u)" for u
  proof (cases "u = t")
    case True
    from step sleep w show ?thesis unfolding True sleep_ok_def
      by cases (auto simp: run_defs split: if_splits option.splits dest!: spec [of _ t])
  next
    case False
    then have p: "waiting_writer (pcs st u)" using rw_step_same [OF step _ False, of waiting_writer] w by simp
    have "waiting_writer p \<Longrightarrow> holds_order p" for p by (cases p) simp_all
    from rw_step_counters [OF step locks False this [OF p]] show ?thesis
    proof (elim disjE conjE exE)
      assume "isBeingWritten (fnode st') = isBeingWritten (fnode st)"
      then show ?thesis using sleep p by (auto simp: sleep_ok_def)
    next
      fix g who assume "st' = run_second t who g st"
      then show ?thesis using sleep p second_section_effect(2) [of g "fnode st"]
        by (auto simp: sleep_ok_def run_second_def case_prod_beta Let_def)
    qed
  qed
  moreover have "two_sections h" if a: "active (pcs st' u) = Some h" for u h
  proof (cases "u = t")
    case True
    have ts: "active (pcs st t) = Some g \<Longrightarrow> two_sections g" for g using sleep by (simp add: sleep_ok_def)
    from step a show ?thesis unfolding True
      by cases (use ts in \<open>auto simp: run_defs first_section_outcome split: if_splits option.splits\<close>)
  next
    case False
    then have "active (pcs st u) = Some h" using rw_step_same [OF step _ False, of active] a by simp
    then show ?thesis using sleep by (simp add: sleep_ok_def)
  qed
  ultimately show ?thesis by (auto simp: sleep_ok_def)
qed

lemma in_file_holds: "in_file p \<Longrightarrow> holds_store p \<or> holds_order p \<or> active p \<noteq> None"
  by (cases p) simp_all

lemma gone_step:
  assumes step: "rw_step t st st'" and inv: "rw_inv pool st" and g: "gone st'"
  shows "\<not> in_file (pcs st' u)"
proof (cases "gone st")
  case True
  then have out: "\<not> in_file (pcs st v)" for v using inv by (simp add: rw_inv_def)
  have m: "missing h st" for h using True by (cases h) simp_all
  from step out [of t] m have "\<not> in_file (pcs st' t)" by cases (auto simp: run_store_def)
  moreover have "\<not> in_file (pcs st' u)" if "u \<noteq> t" using rw_step_same [OF step _ that, of in_file] out [of u] by simp
  ultimately show ?thesis by blast
next
  case False
  have "\<exists>h k. holds_order (pcs st t) \<and> holds_store (pcs st t) \<and> pcs st' t = Returned h k \<and> quiet (fnode st)"
  proof -
    have d: "destroys h \<Longrightarrow> keeps_store h \<and> (waits h n \<longleftrightarrow> \<not> quiet n)" for h n by (cases h) (auto simp: quiet_def)
    from step g False show ?thesis
      by cases (auto simp: run_defs d split: if_splits option.splits)
  qed
  then obtain h k where t: "holds_order (pcs st t)" "holds_store (pcs st t)" "pcs st' t = Returned h k"
    and quiet: "quiet (fnode st)" by blast
  show ?thesis
  proof (cases "u = t")
    case False
    have "\<not> holds_order (pcs st u)" "\<not> holds_store (pcs st u)"
      using inv t(1,2) False by (auto simp: rw_inv_def locks_ok_def owner_def)
    moreover have "active (pcs st u) = None"
    proof (rule ccontr)
      assume "active (pcs st u) \<noteq> None"
      then have "reading (pcs st u) \<or> writing (pcs st u)" by (auto simp: reading_def writing_def)
      moreover have c: "counts_ok pool st" using inv by (simp add: rw_inv_def)
      then have "{v. reading (pcs st v)} = {}" "\<not> writing (pcs st u)"
        using quiet readers_below(1) [OF c] by (auto simp: counts_ok_def quiet_def)
      ultimately show False by blast
    qed
    ultimately have "\<not> in_file (pcs st u)" using in_file_holds by blast
    then show ?thesis using rw_step_same [OF step _ False, of in_file] by simp
  qed (use t in simp)
qed

lemma rw_inv_step:
  assumes step: "rw_step t st st'" and inv: "rw_inv pool st"
  shows "rw_inv pool st'"
proof -
  have i: "locks_ok st" "counts_ok pool st" "exclusive st" "sleep_ok st" using inv by (simp_all add: rw_inv_def)
  show ?thesis
    using locks_step [OF step i(1)] counts_step [OF step i(2-4)] sleep_step [OF step i] gone_step [OF step inv]
    by (simp add: rw_inv_def)
qed

lemma rw_inv_start: "quiet n \<Longrightarrow> pool < size_max \<Longrightarrow> rw_inv pool (rw_start n)"
  by (simp add: rw_inv_def locks_ok_def owner_def counts_ok_def exclusive_def sleep_ok_def rw_start_def quiet_def)

text \<open>A thread that begins a request, or wakes up for no reason.\<close>

lemma rw_inv_outside:
  assumes inv: "rw_inv pool st" and p: "active p = None" "active (pcs st t) = None" "\<And>h. p \<noteq> Asleep h"
    and same: "holds_store p = holds_store (pcs st t)" "holds_order p = holds_order (pcs st t)" "holds_node p = holds_node (pcs st t)"
    "waiting_writer p = waiting_writer (pcs st t)" "in_file p = in_file (pcs st t)" and t: "t < pool"
  shows "rw_inv pool (goto t p st)"
proof -
  have eq: "reading (if u = t then p else pcs st u) = reading (pcs st u)" "writing (if u = t then p else pcs st u) = writing (pcs st u)"
    "waiting_writer (if u = t then p else pcs st u) = waiting_writer (pcs st u)"
    "in_file (if u = t then p else pcs st u) = in_file (pcs st u)" for u
    using p same by auto
  show ?thesis
    using inv p same t unfolding rw_inv_def locks_ok_def counts_ok_def exclusive_def sleep_ok_def
    by (simp add: owner_keep fun_upd_apply eq) blast
qed

lemma rw_reachable_inv: "rw_reachable pool st \<Longrightarrow> rw_inv pool st"
proof (induction rule: rw_reachable.induct)
  case (rw_init n)
  then show ?case by (rule rw_inv_start)
next
  case (rw_more st st')
  from rw_more(2) show ?case
  proof cases
    case (begins t h)
    then show ?thesis using rw_inv_outside [OF rw_more(3), of "AtStore h" t] by auto
  next
    case (spurious t h)
    have "t < pool" using rw_more(3) spurious(2) unfolding rw_inv_def counts_ok_def by (metis not_le pc.distinct(9))
    then show ?thesis using rw_inv_outside [OF rw_more(3), of "Awake h" t] spurious by auto
  next
    case (runs t)
    then show ?thesis using rw_inv_step rw_more(3) by blast
  qed
qed

section \<open>Progress\<close>

definition can_step :: "rw_state \<Rightarrow> bool" where
  "can_step st \<longleftrightarrow> (\<exists>t st'. rw_step t st st')"

lemma can_step_holder:
  assumes "\<not> crashed st" and "holds_node (pcs st t)"
  shows "can_step st"
proof -
  consider h where "pcs st t = Entered h" | h where "pcs st t = Resumed h" | h where "pcs st t = InSecond h"
    using assms(2) by (cases "pcs st t") simp_all
  then show ?thesis
  proof cases
    case 1
    then show ?thesis using rw_step.enter assms(1) unfolding can_step_def by metis
  next
    case 2
    then show ?thesis using rw_step.resume assms(1) unfolding can_step_def by metis
  next
    case (3 h)
    obtain who where "signals who st" by (metis signals_def)
    then show ?thesis using rw_step.leave 3 assms(1) unfolding can_step_def by metis
  qed
qed

lemma can_step_free:
  assumes "\<not> crashed st" and "node_lock st = None"
    and "(\<exists>h. pcs st t = AtMutex h) \<or> (\<exists>h. pcs st t = Awake h) \<or> active (pcs st t) \<noteq> None" and "\<not> holds_node (pcs st t)"
  shows "can_step st"
proof -
  from assms(3,4) consider h where "pcs st t = AtMutex h" | h where "pcs st t = Awake h" | h where "pcs st t = Working h"
    | h where "pcs st t = AtSecond h"
    by (cases "pcs st t") auto
  then show ?thesis
    using rw_step.take_mutex rw_step.retake rw_step.work rw_step.take_second assms(1,2)
    unfolding can_step_def by cases metis+
qed

lemma rw_progress:
  assumes inv: "rw_inv pool st" and "\<not> crashed st" and busy: "pcs st t \<noteq> Idle" "\<And>h k. pcs st t \<noteq> Returned h k"
  shows "can_step st"
proof (rule ccontr)
  assume stuck: "\<not> can_step st"
  have locks: "locks_ok st" and sleep: "sleep_ok st" and counts: "counts_ok pool st" using inv by (simp_all add: rw_inv_def)
  have node: "\<not> holds_node (pcs st u)" for u using can_step_holder [OF assms(2)] stuck by blast
  have free: "node_lock st = None"
  proof (cases "node_lock st")
    case (Some u)
    then show ?thesis using locks node [of u] by (auto simp: locks_ok_def owner_def)
  qed
  have out: "pcs st u \<noteq> AtMutex h" "pcs st u \<noteq> Awake h" "active (pcs st u) = None" for u h
    using can_step_free [OF assms(2) free _ node, of u] stuck by metis+
  have "{u. reading (pcs st u)} = {}" "\<not> writing (pcs st u)" for u using out(3) by simp_all
  then have quiet: "activeReaders (fnode st) = 0" "\<not> isBeingWritten (fnode st)" using counts by (simp_all add: counts_ok_def)
  have "\<not> waits h (fnode st)" for h using quiet by (cases h) simp_all
  then have awake: "pcs st u \<noteq> Asleep h" for u h using sleep by (auto simp: sleep_ok_def)
  have order: "\<not> holds_order (pcs st u)" for u using out [of u] awake [of u] node [of u] by (cases "pcs st u") auto
  have "order_lock st = None"
  proof (cases "order_lock st")
    case (Some u)
    then show ?thesis using locks order [of u] by (auto simp: locks_ok_def owner_def)
  qed
  then have ord: "pcs st u \<noteq> AtOrdering h" for u h using rw_step.take_ordering assms(2) stuck unfolding can_step_def by metis
  have hs: "\<not> holds_store (pcs st u)" for u using out [of u] awake [of u] node [of u] ord [of u] by (cases "pcs st u") auto
  have "store_lock st = None"
  proof (cases "store_lock st")
    case (Some u)
    then show ?thesis using locks hs [of u] by (auto simp: locks_ok_def owner_def)
  qed
  then have "pcs st u \<noteq> AtStore h" for u h using rw_step.take_store assms(2) stuck unfolding can_step_def by metis
  then show False using busy out [of t] awake [of t] ord [of t] node [of t] by (cases "pcs st t") auto
qed

end
