(* ===== verification/RwProps.thy ===== *)
theory RwProps
  imports RwLock HandlerProps
begin

text \<open>
  What the locking protocol of the files guarantees: readers and writers exclude each other, no thread
  touches a deleted file, no wakeup is lost, no deadlock. And what it does not: three interleavings in
  which \<open>lockFileHandler\<close>, which works on the file after it has released the mutex of the store, meets
  another handler.
\<close>

section \<open>Runs\<close>

definition some_step :: "rw_state \<Rightarrow> rw_state \<Rightarrow> bool" where
  "some_step st st' \<longleftrightarrow> (\<exists>t. rw_step t st st')"

abbreviation runs_to :: "rw_state \<Rightarrow> rw_state \<Rightarrow> bool" where
  "runs_to \<equiv> some_step\<^sup>*\<^sup>*"

text \<open>Two threads, 0 and 1, on the same file.\<close>

definition duo :: "FileNode \<Rightarrow> nat option \<Rightarrow> nat option \<Rightarrow> nat option \<Rightarrow> pc \<Rightarrow> pc \<Rightarrow> rw_state" where
  "duo n sl ol nl p q =
     \<lparr>fnode = n, gone = False, crashed = False, store_lock = sl, order_lock = ol, node_lock = nl,
      pcs = (\<lambda>_. Idle)(0 := p, Suc 0 := q)\<rparr>"

lemma duo_simps [simp]:
  "fnode (duo n sl ol nl p q) = n" "gone (duo n sl ol nl p q) = False" "crashed (duo n sl ol nl p q) = False"
  "store_lock (duo n sl ol nl p q) = sl" "order_lock (duo n sl ol nl p q) = ol" "node_lock (duo n sl ol nl p q) = nl"
  "pcs (duo n sl ol nl p q) 0 = p" "pcs (duo n sl ol nl p q) (Suc 0) = q"
  "goto 0 r (duo n sl ol nl p q) = duo n sl ol nl r q" "goto (Suc 0) r (duo n sl ol nl p q) = duo n sl ol nl p r"
  "duo n sl ol nl p q\<lparr>fnode := n'\<rparr> = duo n' sl ol nl p q" "duo n sl ol nl p q\<lparr>store_lock := l\<rparr> = duo n l ol nl p q"
  "duo n sl ol nl p q\<lparr>order_lock := l\<rparr> = duo n sl l nl p q" "duo n sl ol nl p q\<lparr>node_lock := l\<rparr> = duo n sl ol l p q"
  "duo n sl ol nl p q\<lparr>gone := False\<rparr> = duo n sl ol nl p q"
  "wake_up Nobody who (duo n sl ol nl p q) = duo n sl ol nl p q"
  "wake_up Broadcast who (duo n sl ol nl p q) = duo n sl ol nl (wake p) (wake q)"
  by (auto simp: duo_def goto_def wake_up_def fun_eq_iff)

lemma duo_start: "rw_start n = duo n None None None Idle Idle"
  by (simp add: rw_start_def duo_def fun_eq_iff)

lemma duo_reachable: "quiet n \<Longrightarrow> rw_reachable 2 (duo n None None None (AtStore h) (AtStore g))"
proof -
  assume "quiet n"
  then have "rw_reachable 2 (duo n None None None Idle Idle)"
    using rw_init [of n 2] by (simp add: duo_start size_max_def)
  moreover have "rw_next 2 (duo n None None None Idle Idle) (duo n None None None (AtStore h) Idle)"
    using begins [of 0 2 "duo n None None None Idle Idle" h] by simp
  moreover have "rw_next 2 (duo n None None None (AtStore h) Idle) (duo n None None None (AtStore h) (AtStore g))"
    using begins [of 1 2 "duo n None None None (AtStore h) Idle" g] by simp
  ultimately show ?thesis by (blast intro: rw_more)
qed

lemma runs_reachable: "runs_to st st' \<Longrightarrow> rw_reachable pool st \<Longrightarrow> rw_reachable pool st'"
  by (induction rule: rtranclp_induct) (auto simp: some_step_def intro: rw_more runs)

lemma runs_refl [simp]: "runs_to st st"
  by (rule rtranclp.rtrancl_refl)

lemma runs_step: "rw_step t st st' \<Longrightarrow> runs_to st' st'' \<Longrightarrow> runs_to st st''"
  by (rule converse_rtranclp_into_rtranclp) (auto simp: some_step_def)

text \<open>A thread that finds no lock taken gets into the first section.\<close>

lemma runs_in:
  assumes "pcs st t = AtStore h" and "store_lock st = None" "order_lock st = None" "node_lock st = None"
    and "\<not> crashed st" and "\<not> missing h st"
    and "runs_to (goto t (Entered h) (st\<lparr>order_lock := Some t, node_lock := Some t,
      store_lock := (if keeps_store h then Some t else None)\<rparr>)) st'"
  shows "runs_to st st'"
proof -
  let ?a = "goto t (AtOrdering h) (st\<lparr>store_lock := Some t\<rparr>)"
  let ?b = "goto t (AtMutex h) (?a\<lparr>order_lock := Some t\<rparr>)"
  have 1: "rw_step t st ?a" using rw_step.take_store [OF assms(1,2,5)] assms(6) by (simp add: run_store_def)
  have 2: "rw_step t ?a ?b" by (rule rw_step.take_ordering) (use assms in \<open>simp_all add: goto_def\<close>)
  have 3: "rw_step t ?b (goto t (Entered h) (st\<lparr>order_lock := Some t, node_lock := Some t,
      store_lock := (if keeps_store h then Some t else None)\<rparr>))"
    using rw_step.take_mutex [of ?b t h] assms by (cases "keeps_store h") (simp_all add: goto_def)
  show ?thesis by (rule runs_step [OF 1 runs_step [OF 2 runs_step [OF 3 assms(7)]]])
qed

text \<open>A thread goes through the first section without waiting; it works; it goes through the second.\<close>

lemma runs_first:
  assumes "pcs st t = Entered h" and "\<not> crashed st" and "run_entered env t 0 h st = st'" and "runs_to st' st''"
  shows "runs_to st st''"
  using runs_step [OF rw_step.enter [OF assms(1,2), where env = env and who = 0]] assms(3,4) by simp

lemma runs_out:
  assumes "pcs st t = Working h" and "\<not> crashed st" and "node_lock st = None"
    and "signals who st"
    and "runs_to (run_second t who h (st\<lparr>fnode := between h None (fnode st), node_lock := Some t, pcs := (pcs st)(t := InSecond h)\<rparr>)) st'"
  shows "runs_to st st'"
proof -
  let ?a = "goto t (AtSecond h) (st\<lparr>fnode := between h None (fnode st)\<rparr>)"
  let ?b = "goto t (InSecond h) (?a\<lparr>node_lock := Some t\<rparr>)"
  have 1: "rw_step t st ?a" by (rule rw_step.work [OF assms(1,2)])
  have 2: "rw_step t ?a ?b" by (rule rw_step.take_second) (use assms in \<open>simp_all add: goto_def\<close>)
  have "signals who ?b" using assms(1,4) by (auto simp: signals_def goto_def fun_upd_apply)
  then have 3: "rw_step t ?b (run_second t who h ?b)" by (intro rw_step.leave) (use assms(2) in \<open>simp_all add: goto_def\<close>)
  have b: "?b = st\<lparr>fnode := between h None (fnode st), node_lock := Some t, pcs := (pcs st)(t := InSecond h)\<rparr>"
    by (simp add: goto_def)
  show ?thesis by (rule runs_step [OF 1 runs_step [OF 2 runs_step [OF 3 assms(5) [folded b]]]])
qed

lemma example_b_sel [simp]:
  "lockedBy example_b = 0" "activeReaders example_b = 0" "isBeingWritten example_b = False"
  "openDescriptors example_b = [5, 6]" "canDoFirstWrite example_b = 0" "pendingLocks example_b = []"
  by (simp_all add: example_b_def)

lemma cache_bits_sel [simp]:
  "lockedBy (update_cache_bits env n) = lockedBy n" "activeReaders (update_cache_bits env n) = activeReaders n"
  "isBeingWritten (update_cache_bits env n) = isBeingWritten n" "openDescriptors (update_cache_bits env n) = openDescriptors n"
  "pendingLocks (update_cache_bits env n) = pendingLocks n"
  by (simp_all add: update_cache_bits_def)

section \<open>A lock being granted\<close>

text \<open>The file while client 5 is being given the lock: \<open>isBeingWritten\<close> is set, every mutex is free.\<close>

definition node_in_lock :: FileNode where
  "node_in_lock = update_cache_bits example_env (example_b\<lparr>isBeingWritten := True\<rparr>)"

lemma node_in_lock_sel [simp]:
  "lockedBy node_in_lock = 0" "activeReaders node_in_lock = 0" "isBeingWritten node_in_lock = True"
  "openDescriptors node_in_lock = [5, 6]" "pendingLocks node_in_lock = []"
  by (simp_all add: node_in_lock_def)

lemma lock_begun:
  assumes "runs_to (duo node_in_lock None None None (Working (HLock 5)) q) st'"
  shows "runs_to (duo example_b None None None (AtStore (HLock 5)) q) st'"
proof -
  have "runs_to (duo example_b None (Some 0) (Some 0) (Entered (HLock 5)) q) st'"
    using runs_first [where t = 0 and h = "HLock 5" and env = example_env, OF _ _ _ assms]
    by (simp add: run_defs node_in_lock_def)
  then show ?thesis using runs_in [where t = 0 and h = "HLock 5"] by simp
qed

text \<open>Client 5 gets its lock.\<close>

lemma lock_ended:
  assumes "runs_to (duo (n\<lparr>lockedBy := 5, isBeingWritten := False, canDoFirstWrite := 0\<rparr>) None ol None
      (Returned (HLock 5) 0) (wake q)) st'"
  shows "runs_to (duo n None ol None (Working (HLock 5)) q) st'"
proof -
  have "signals 1 (duo n None ol None (Working (HLock 5)) q)"
    unfolding signals_def by (auto simp: duo_def)
  moreover have "duo n None ol None (Working (HLock 5)) q
      \<lparr>fnode := between (HLock 5) None n, node_lock := Some 0,
       pcs := (pcs (duo n None ol None (Working (HLock 5)) q))(0 := InSecond (HLock 5))\<rparr> =
      duo (n\<lparr>lockedBy := 5\<rparr>) None ol (Some 0) (InSecond (HLock 5)) q"
    by (simp add: duo_def fun_eq_iff)
  ultimately show ?thesis
    using assms runs_out [of "duo n None ol None (Working (HLock 5)) q" 0 "HLock 5" 1 st']
    by (simp add: run_second_def release_store_def)
qed

section \<open>Guarantees\<close>

text \<open>They are exercised on two readers at work, on a reader that sleeps while a writer works, and on a
  deleted file.\<close>

lemma two_readers:
  "\<exists>st. rw_reachable 2 st \<and> pcs st 0 = Working (HRead 5) \<and> pcs st 1 = Working (HRead 6)"
proof -
  let ?r = "\<lambda>n. update_cache_bits example_env (n\<lparr>activeReaders := size_add (activeReaders n) 1\<rparr>)"
  let ?st = "duo (?r (?r example_b)) None None None (Working (HRead 5)) (Working (HRead 6))"
  have "runs_to (duo (?r example_b) None (Some 1) (Some 1) (Working (HRead 5)) (Entered (HRead 6))) ?st"
    by (rule runs_first [where t = 1 and h = "HRead 6" and env = example_env, OF _ _ _ runs_refl])
      (simp_all add: run_defs access_denied_def)
  then have "runs_to (duo (?r example_b) None None None (Working (HRead 5)) (AtStore (HRead 6))) ?st"
    using runs_in [where t = 1 and h = "HRead 6"] by simp
  then have "runs_to (duo example_b None (Some 0) (Some 0) (Entered (HRead 5)) (AtStore (HRead 6))) ?st"
    by (rule runs_first [where t = 0 and h = "HRead 5" and env = example_env, rotated -1])
      (simp_all add: run_defs access_denied_def)
  then have "runs_to (duo example_b None None None (AtStore (HRead 5)) (AtStore (HRead 6))) ?st"
    using runs_in [where t = 0 and h = "HRead 5"] by simp
  from runs_reachable [OF this duo_reachable [OF example_quiet(2)]] show ?thesis by (intro exI [of _ ?st]) simp
qed

lemma sleeping_reader:
  "\<exists>st. rw_reachable 2 st \<and> \<not> crashed st \<and> pcs st 0 = Working (HLock 5) \<and> pcs st 1 = Asleep (HRead 6)"
proof -
  let ?st = "duo node_in_lock None (Some 1) None (Working (HLock 5)) (Asleep (HRead 6))"
  have "runs_to (duo node_in_lock None (Some 1) (Some 1) (Working (HLock 5)) (Entered (HRead 6))) ?st"
    by (rule runs_first [where t = 1 and h = "HRead 6", OF _ _ _ runs_refl]) (simp_all add: run_defs access_denied_def)
  then have "runs_to (duo node_in_lock None None None (Working (HLock 5)) (AtStore (HRead 6))) ?st"
    using runs_in [where t = 1 and h = "HRead 6"] by simp
  from runs_reachable [OF lock_begun [OF this] duo_reachable [OF example_quiet(2)]]
  show ?thesis by (intro exI [of _ ?st]) simp
qed

lemma deleted_file:
  "\<exists>st. rw_reachable 2 st \<and> gone st \<and> pcs st 0 = Returned HDestroy 0 \<and> pcs st 1 = AtStore (HRead 6)"
proof -
  let ?st = "duo (example_b\<lparr>openDescriptors := []\<rparr>) None None None (Returned HDestroy 0) (AtStore (HRead 6))\<lparr>gone := True\<rparr>"
  have d: "duo n (Some 0) None None p q\<lparr>gone := True, store_lock := None\<rparr> = duo n None None None p q\<lparr>gone := True\<rparr>" for n p q
    by (simp add: duo_def)
  have g: "goto 0 r (duo n sl ol nl p q\<lparr>gone := True\<rparr>) = duo n sl ol nl r q\<lparr>gone := True\<rparr>" for r n sl ol nl p q
    by (auto simp: duo_def goto_def fun_eq_iff)
  have "runs_to (duo example_b (Some 0) (Some 0) (Some 0) (Entered HDestroy) (AtStore (HRead 6))) ?st"
    by (rule runs_first [where t = 0 and h = HDestroy, OF _ _ _ runs_refl]) (simp_all add: run_defs release_store_def d g)
  then have "runs_to (duo example_b None None None (AtStore HDestroy) (AtStore (HRead 6))) ?st"
    using runs_in [where t = 0 and h = HDestroy] by simp
  from runs_reachable [OF this duo_reachable [OF example_quiet(2)]]
  show ?thesis by (intro exI [of _ ?st]) (simp add: duo_def)
qed

text \<open>C18: readers and writers of a file. If two threads are both between their two critical sections, or in the
  second, both are readers; the file's counter is the number of readers there and its flag says whether a
  writer is.\<close>

theorem file_access_exclusive:
  assumes "rw_reachable pool st"
  shows "(\<forall>t u h g. active (pcs st t) = Some h \<longrightarrow> active (pcs st u) = Some g \<longrightarrow> t \<noteq> u \<longrightarrow> is_read h \<and> is_read g) \<and>
     activeReaders (fnode st) = card {t. reading (pcs st t)} \<and> (isBeingWritten (fnode st) \<longleftrightarrow> (\<exists>t. writing (pcs st t)))"
  using rw_reachable_inv [OF assms] unfolding rw_inv_def counts_ok_def exclusive_def by (metis activity_simps(3,4))

theorem file_access_exclusive_witness:
  "\<exists>st. rw_reachable 2 st \<and> pcs st 0 = Working (HRead 5) \<and> pcs st 1 = Working (HRead 6) \<and> \<not> isBeingWritten (fnode st)"
proof -
  obtain st where st: "rw_reachable 2 st" "pcs st 0 = Working (HRead 5)" "pcs st 1 = Working (HRead 6)"
    using two_readers by blast
  have "\<not> writing (pcs st t)" for t
  proof (cases "t = 0")
    case False
    have "is_read h" if "active (pcs st t) = Some h" for h
      using file_access_exclusive [OF st(1), THEN conjunct1, rule_format, of t h 0 "HRead 5"] that False st(2) by simp
    then show ?thesis by (auto simp: writing_def split: option.splits)
  qed (simp add: st(2) writing_def)
  then show ?thesis using file_access_exclusive [OF st(1)] st by blast
qed

text \<open>No use after free. Once the file is deleted no thread waits for its mutexes, holds them, sleeps on
  its condition variable or works on it.\<close>

theorem deleted_file_unused:
  assumes "rw_reachable pool st" and "gone st"
  shows "pcs st t = Idle \<or> (\<exists>h. pcs st t = AtStore h) \<or> (\<exists>h k. pcs st t = Returned h k)"
proof -
  have "\<not> in_file (pcs st t)" using rw_reachable_inv [OF assms(1)] assms(2) by (simp add: rw_inv_def)
  then show ?thesis by (cases "pcs st t") simp_all
qed

theorem deleted_file_unused_witness:
  "\<exists>st. rw_reachable 2 st \<and> gone st \<and> pcs st 1 = AtStore (HRead 6) \<and> pcs st 5 \<noteq> Working (HRead 6)"
proof -
  obtain st where st: "rw_reachable 2 st" "gone st" "pcs st 1 = AtStore (HRead 6)" using deleted_file by blast
  then show ?thesis using deleted_file_unused [OF st(1,2), of 5] by auto
qed

text \<open>C20: no wakeup is lost. A thread that sleeps on the condition variable still has a reason to, so that the
  thread it waits for will wake it; and at most one thread sleeps there, so that the readers' signal, which
  wakes one thread, wakes the one that there is.\<close>

theorem file_no_lost_wakeup:
  assumes "rw_reachable pool st" and "pcs st t = Asleep h"
  shows "waits h (fnode st) \<and> (\<exists>u. active (pcs st u) \<noteq> None) \<and> (pcs st u = Asleep g \<longrightarrow> u = t)"
proof -
  note inv = rw_reachable_inv [OF assms(1)]
  have w: "waits h (fnode st)" using inv assms(2) by (simp add: rw_inv_def sleep_ok_def)
  have "\<exists>u. active (pcs st u) \<noteq> None"
  proof (rule ccontr)
    assume "\<not> ?thesis"
    then have "{u. reading (pcs st u)} = {}" "\<not> (\<exists>u. writing (pcs st u))" by simp_all
    then have "activeReaders (fnode st) = 0" "\<not> isBeingWritten (fnode st)" using inv by (simp_all add: rw_inv_def counts_ok_def)
    then show False using w by (cases h) simp_all
  qed
  moreover have "pcs st u = Asleep g \<Longrightarrow> u = t"
  proof -
    assume "pcs st u = Asleep g"
    then have "holds_order (pcs st u)" "holds_order (pcs st t)" using assms(2) by simp_all
    then show "u = t" using inv unfolding rw_inv_def locks_ok_def owner_def by (metis option.inject)
  qed
  ultimately show ?thesis using w by blast
qed

theorem file_no_lost_wakeup_witness:
  "\<exists>st. rw_reachable 2 st \<and> pcs st 1 = Asleep (HRead 6) \<and> isBeingWritten (fnode st)"
proof -
  obtain st where st: "rw_reachable 2 st" "pcs st 1 = Asleep (HRead 6)" using sleeping_reader by blast
  then have "waits (HRead 6) (fnode st)" using file_no_lost_wakeup [OF st, THEN conjunct1] by blast
  then show ?thesis using st by auto
qed

text \<open>C19: no deadlock around a file. As long as a thread is inside a handler, and no assertion has failed, some
  thread inside a handler can take its next step.\<close>

theorem file_no_deadlock:
  assumes "rw_reachable pool st" and "\<not> crashed st" and "pcs st t \<noteq> Idle" and "\<And>h k. pcs st t \<noteq> Returned h k"
  shows "\<exists>u st'. rw_step u st st'"
  using rw_progress [OF rw_reachable_inv [OF assms(1)] assms(2-4)] by (simp add: can_step_def)

theorem file_no_deadlock_witness:
  "\<exists>st u st'. rw_reachable 2 st \<and> pcs st 0 = Working (HLock 5) \<and> pcs st 1 = Asleep (HRead 6) \<and> rw_step u st st'"
proof -
  obtain st where st: "rw_reachable 2 st" "\<not> crashed st" "pcs st 0 = Working (HLock 5)" "pcs st 1 = Asleep (HRead 6)"
    using sleeping_reader by blast
  then show ?thesis using file_no_deadlock [OF st(1,2), of 1] by auto
qed

section \<open>Three interleavings\<close>

text \<open>The assertion of \<open>writeToFileHandler\<close> that no writer is active, which its comment takes to follow
  from the mutex of the store, can fail: \<open>lockFileHandler\<close> sets \<open>isBeingWritten\<close> and releases that mutex. With
  client 5 locking a file and client 6 writing to it, both from the start of their handlers, the server
  can abort.\<close>

theorem writer_assertion_can_fail:
  "rw_reachable 2 (duo example_b None None None (AtStore (HLock 5)) (AtStore (HWrite 6))) \<and>
   (\<exists>st. runs_to (duo example_b None None None (AtStore (HLock 5)) (AtStore (HWrite 6))) st \<and> crashed st)"
proof -
  let ?st = "duo node_in_lock (Some 1) (Some 1) (Some 1) (Working (HLock 5)) (Entered (HWrite 6))"
  have "runs_to ?st (?st\<lparr>crashed := True\<rparr>)"
    by (rule runs_first [where t = 1 and h = "HWrite 6", OF _ _ _ runs_refl]) (simp_all add: run_entered_def)
  then have "runs_to (duo node_in_lock None None None (Working (HLock 5)) (AtStore (HWrite 6))) (?st\<lparr>crashed := True\<rparr>)"
    using runs_in [where t = 1 and h = "HWrite 6"] by simp
  from lock_begun [OF this] show ?thesis
    using duo_reachable [OF example_quiet(2)] by (intro conjI exI [of _ "?st\<lparr>crashed := True\<rparr>"]) simp_all
qed

text \<open>A lock can be granted twice. \<open>openFileHandler\<close> with \<open>O_LOCK\<close> tests and sets \<open>lockedBy\<close> without
  waiting for \<open>isBeingWritten\<close>, while \<open>lockFileHandler\<close> sets it outside the mutexes after its test: with one
  request each, clients 5 and 6 are both told that they hold the lock of the same file.\<close>

theorem lock_can_be_granted_twice:
  "\<exists>st. rw_reachable 2 (duo example_b None None None (AtStore (HLock 5)) (AtStore (HOpen 6 True))) \<and>
     runs_to (duo example_b None None None (AtStore (HLock 5)) (AtStore (HOpen 6 True))) st \<and>
     pcs st 0 = Returned (HLock 5) 0 \<and> pcs st 1 = Returned (HOpen 6 True) 0 \<and> lockedBy (fnode st) = 5"
proof -
  let ?n = "node_in_lock\<lparr>lockedBy := 6, openDescriptors := [5, 6, 6]\<rparr>"
  let ?st = "duo (?n\<lparr>lockedBy := 5, isBeingWritten := False, canDoFirstWrite := 0\<rparr>) None None None
    (Returned (HLock 5) 0) (Returned (HOpen 6 True) 0)"
  have "runs_to (duo ?n None None None (Working (HLock 5)) (Returned (HOpen 6 True) 0)) ?st"
    by (rule lock_ended) simp
  then have "runs_to (duo node_in_lock (Some 1) (Some 1) (Some 1) (Working (HLock 5)) (Entered (HOpen 6 True))) ?st"
    by (rule runs_first [where t = 1 and h = "HOpen 6 True", rotated -1]) (simp_all add: run_defs release_store_def)
  then have "runs_to (duo node_in_lock None None None (Working (HLock 5)) (AtStore (HOpen 6 True))) ?st"
    using runs_in [where t = 1 and h = "HOpen 6 True"] by simp
  from lock_begun [OF this] show ?thesis
    using duo_reachable [OF example_quiet(2)] by (intro exI [of _ ?st]) simp
qed

text \<open>\<open>readFileHandler\<close> checks the client's rights before it waits for the writer, not after: client 6 can
  read a file after client 5 was told that it holds the file's lock, in a request that was checked
  before.\<close>

theorem read_after_lock_granted:
  "\<exists>st. rw_reachable 2 (duo example_b None None None (AtStore (HLock 5)) (AtStore (HRead 6))) \<and>
     runs_to (duo example_b None None None (AtStore (HLock 5)) (AtStore (HRead 6))) st \<and>
     pcs st 0 = Returned (HLock 5) 0 \<and> lockedBy (fnode st) = 5 \<and> pcs st 1 = Working (HRead 6)"
proof -
  let ?n = "node_in_lock\<lparr>lockedBy := 5, isBeingWritten := False, canDoFirstWrite := 0\<rparr>"
  let ?r = "Returned (HLock 5) 0"
  let ?st = "duo (update_cache_bits example_env (?n\<lparr>activeReaders := size_add 0 1\<rparr>)) None None None ?r (Working (HRead 6))"
  have "rw_step 1 (duo ?n None (Some 1) None ?r (Awake (HRead 6))) (duo ?n None (Some 1) (Some 1) ?r (Resumed (HRead 6)))"
    using retake [of "duo ?n None (Some 1) None ?r (Awake (HRead 6))" 1 "HRead 6"] by simp
  moreover have "rw_step 1 (duo ?n None (Some 1) (Some 1) ?r (Resumed (HRead 6))) ?st"
    using resume [of "duo ?n None (Some 1) (Some 1) ?r (Resumed (HRead 6))" 1 "HRead 6" example_env 0]
    by (simp add: run_first_def)
  ultimately have "runs_to (duo ?n None (Some 1) None ?r (Awake (HRead 6))) ?st"
    by (blast intro: runs_step)
  then have "runs_to (duo node_in_lock None (Some 1) None (Working (HLock 5)) (Asleep (HRead 6))) ?st"
    by (intro lock_ended) simp
  then have "runs_to (duo node_in_lock None (Some 1) (Some 1) (Working (HLock 5)) (Entered (HRead 6))) ?st"
    by (rule runs_first [where t = 1 and h = "HRead 6", rotated -1])
      (simp_all add: run_defs access_denied_def)
  then have "runs_to (duo node_in_lock None None None (Working (HLock 5)) (AtStore (HRead 6))) ?st"
    using runs_in [where t = 1 and h = "HRead 6"] by simp
  from lock_begun [OF this] show ?thesis
    using duo_reachable [OF example_quiet(2)] by (intro exI [of _ ?st]) simp
qed

end
