(* ===== verification/ClientInternals.thy ===== *)
theory ClientInternals
  imports EventLog
begin

text \<open>
  The client's helpers in \<^verbatim>\<open>src/src/clientInternals.c\<close>: removing a substring from a string in place,
  creating the directories of a path, and saving a file. Strings are their characters up to the
  terminating NUL. What the operating system answers to \<open>mkdir\<close> and \<open>fopen\<close> is a parameter.
\<close>

section \<open>strstr\<close>

fun starts :: "cstring \<Rightarrow> cstring \<Rightarrow> bool" where
  "starts [] s = True"
| "starts (x # xs) [] = False"
| "starts (x # xs) (y # ys) = (x = y \<and> starts xs ys)"

text \<open>The index of the first occurrence.\<close>

fun strstr :: "cstring \<Rightarrow> cstring \<Rightarrow> nat option" where
  "strstr [] sub = (if sub = [] then Some 0 else None)"
| "strstr (c # s) sub = (if starts sub (c # s) then Some 0 else map_option Suc (strstr s sub))"

lemma starts_iff: "starts sub s \<longleftrightarrow> take (length sub) s = sub"
  by (induction sub s rule: starts.induct) auto

lemma strstr_Some:
  "strstr s sub = Some i \<Longrightarrow> take (length sub) (drop i s) = sub \<and> i + length sub \<le> length s"
proof (induction s arbitrary: i)
  case Nil
  then show ?case by (simp split: if_splits)
next
  case (Cons c s)
  show ?case
  proof (cases "starts sub (c # s)")
    case True
    then have t: "take (length sub) (c # s) = sub" by (simp only: starts_iff)
    then have "length (take (length sub) (c # s)) = length sub" by simp
    then have "length sub \<le> length (c # s)" by (simp only: length_take min_def split: if_splits)
    then show ?thesis using Cons.prems True t by simp
  next
    case False
    then obtain j where "strstr s sub = Some j" "i = Suc j" using Cons.prems by auto
    then show ?thesis using Cons.IH by simp
  qed
qed

section \<open>strremove\<close>

text \<open>
  The buffer \<open>b\<close> holds the string and its NUL. The indices are the pointers of the code: \<open>q\<close> where
  the next character goes, \<open>p\<close> the next character to keep, \<open>r\<close> the next occurrence.
\<close>

definition string_at :: "buffer \<Rightarrow> nat \<Rightarrow> cstring option" where
  "string_at b p = (if NUL \<in> set (drop p b) then Some (c_string (drop p b)) else None)"

text \<open>Copying while \<open>p < r\<close>, that is \<open>n\<close> characters, and copying up to and with the NUL.\<close>

fun copy_until :: "nat \<Rightarrow> buffer \<Rightarrow> nat \<Rightarrow> nat \<Rightarrow> (buffer \<times> nat \<times> nat) option" where
  "copy_until 0 b q p = Some (b, q, p)"
| "copy_until (Suc n) b q p = do {
     c \<leftarrow> peek b p;
     b \<leftarrow> poke b q c;
     copy_until n b (q + 1) (p + 1)
   }"

function copy_string :: "buffer \<Rightarrow> nat \<Rightarrow> nat \<Rightarrow> buffer option" where
  "copy_string b q p = do {
     c \<leftarrow> peek b p;
     b \<leftarrow> poke b q c;
     if c = NUL then Some b else copy_string b (q + 1) (p + 1)
   }"
  by pat_completeness auto
termination
  by (relation "measure (\<lambda>(b, q, p). length b - p)") (auto simp: peek_Some_iff dest: length_poke)

declare copy_string.simps [simp del]

partial_function (option) strremove_loop :: "buffer \<Rightarrow> cstring \<Rightarrow> nat \<Rightarrow> nat \<Rightarrow> (buffer \<times> nat \<times> nat) option" where
  "strremove_loop b sub q r = do {
     let p = r + length sub;
     s \<leftarrow> string_at b p;
     (case strstr s sub of
        None \<Rightarrow> Some (b, q, p)
      | Some i \<Rightarrow> do {
          (b, q, p) \<leftarrow> copy_until i b q p;
          strremove_loop b sub q p
        })
   }"

definition strremove :: "buffer \<Rightarrow> cstring \<Rightarrow> buffer option" where
  "strremove str sub = do {
     s \<leftarrow> string_at str 0;
     (case strstr s sub of
        None \<Rightarrow> Some str
      | Some r \<Rightarrow> do {
          (b, q, p) \<leftarrow> strremove_loop str sub r r;
          copy_string b q p
        })
   }"

text \<open>The specification: the text between the occurrences, found from left to right.\<close>

function without :: "cstring \<Rightarrow> cstring \<Rightarrow> cstring" where
  "without sub s =
     (if sub = [] then s
      else (case strstr s sub of
          None \<Rightarrow> s
        | Some i \<Rightarrow> take i s @ without sub (drop (i + length sub) s)))"
  by pat_completeness auto
termination
proof (relation "measure (\<lambda>(sub, s). length s)")
  fix sub s :: cstring and i
  assume "sub \<noteq> []" and "strstr s sub = Some i"
  then show "((sub, drop (i + length sub) s), (sub, s)) \<in> measure (\<lambda>(sub, s). length s)"
    using strstr_Some [of s sub i] by (cases sub) auto
qed simp

declare without.simps [simp del]

lemma copy_one:
  assumes "q \<le> p" and "p < length b"
  shows "peek b p = Some (b ! p)" and "poke b q (b ! p) = Some (b[q := b ! p])"
    and "take (Suc q) (b[q := b ! p]) = take q b @ [b ! p]" and "drop (Suc p) (b[q := b ! p]) = drop (Suc p) b"
  using assms by (simp_all add: peek_def poke_def take_Suc_conv_app_nth)

lemma copy_until_spec:
  assumes "q \<le> p" and "p + n \<le> length b"
  shows "copy_until n b q p = Some (take q b @ take n (drop p b) @ drop (q + n) b, q + n, p + n)"
  using assms
proof (induction n arbitrary: b q p)
  case 0
  then show ?case by simp
next
  case (Suc n)
  let ?b = "b[q := b ! p]"
  have p: "p < length b" using Suc.prems by simp
  note one = copy_one [OF Suc.prems(1) p]
  have 3: "drop (Suc q + n) ?b = drop (Suc q + n) b" by simp
  have "take (Suc n) (drop p b) = b ! p # take n (drop (Suc p) b)"
    using p by (metis Cons_nth_drop_Suc take_Suc_Cons)
  then show ?case using Suc.IH [of "Suc q" "Suc p" ?b] Suc.prems by (simp add: one 3)
qed

lemma copy_string_spec:
  assumes "q \<le> p" and "drop p b = u @ NUL # t" and "NUL \<notin> set u"
  shows "copy_string b q p = Some (take q b @ u @ NUL # drop (q + length u + 1) b)"
  using assms
proof (induction u arbitrary: b q p)
  case Nil
  have p: "p < length b" using Nil.prems(2) by (cases "p < length b") simp_all
  then have "b ! p = NUL" using Nil.prems(2) by (metis append_Nil hd_drop_conv_nth list.sel(1))
  moreover have "b[q := NUL] = take q b @ NUL # drop (Suc q) b" using p Nil.prems(1) by (simp add: upd_conv_take_nth_drop)
  ultimately show ?case using copy_one(1,2) [OF Nil.prems(1) p] by (subst copy_string.simps) simp
next
  case (Cons c u)
  have p: "p < length b" using Cons.prems(2) by (cases "p < length b") simp_all
  then have c: "b ! p = c" "drop (Suc p) b = u @ NUL # t"
    using Cons.prems(2) by (simp_all add: Cons_nth_drop_Suc [symmetric])
  have c0: "c \<noteq> NUL" using Cons.prems(3) by auto
  note one = copy_one [OF Cons.prems(1) p, unfolded c(1)]
  have "copy_string (b[q := c]) (Suc q) (Suc p) =
      Some (take (Suc q) (b[q := c]) @ u @ NUL # drop (Suc q + length u + 1) (b[q := c]))"
    using Cons.prems c by (intro Cons.IH) (simp_all add: one)
  then show ?case using c0 by (subst copy_string.simps) (simp add: one c(1))
qed

lemma c_string_app: "NUL \<notin> set u \<Longrightarrow> c_string (u @ NUL # t) = u"
  by (induction u) (auto simp: c_string_def)

lemma string_at_app: "drop p b = u @ NUL # t \<Longrightarrow> NUL \<notin> set u \<Longrightarrow> string_at b p = Some u"
  by (simp add: string_at_def c_string_app)

text \<open>One pass of the loop removes one occurrence and copies the text before the next one.\<close>

lemma strremove_loop_spec:
  assumes "sub \<noteq> []" and "NUL \<notin> set u" and "drop (r + length sub) b = u @ NUL # t" and "q \<le> r"
  shows "\<exists>b' q' p' u'. strremove_loop b sub q r = Some (b', q', p') \<and> q' \<le> p' \<and> drop p' b' = u' @ NUL # t \<and>
    NUL \<notin> set u' \<and> take q' b' @ u' = take q b @ without sub u \<and> length b' = length b"
  using assms(2-)
proof (induction "length u" arbitrary: u b q r rule: less_induct)
  case less
  let ?p = "r + length sub"
  have cs: "string_at b ?p = Some u" using less.prems(1,2) by (simp add: string_at_app)
  show ?case
  proof (cases "strstr u sub")
    case None
    then have "strremove_loop b sub q r = Some (b, q, ?p)"
      by (subst strremove_loop.simps) (simp add: cs)
    moreover have "without sub u = u" using None assms(1) by (subst without.simps) simp
    ultimately show ?thesis using less.prems by (intro exI [of _ b] exI [of _ q] exI [of _ ?p] exI [of _ u]) simp
  next
    case (Some i)
    have i: "i + length sub \<le> length u" using strstr_Some [OF Some] by simp
    have len: "length (drop ?p b) = length u + 1 + length t" using less.prems(2) by simp
    then have fit: "?p + i \<le> length b" using i by simp
    have qp: "q \<le> ?p" using less.prems(3) by simp
    let ?b = "take q b @ take i u @ drop (q + i) b" and ?q = "q + i" and ?r = "?p + i"
    have "take i (drop ?p b) = take i u" using less.prems(2) i by simp
    then have copy: "copy_until i b q ?p = Some (?b, ?q, ?r)" using copy_until_spec [OF qp fit] by simp
    have q: "q \<le> length b" using qp fit by simp
    have ib: "length (take i u) = i" using i by simp
    have "drop (?r + length sub) ?b = drop (?r + length sub) b"
      using qp q ib by (simp add: drop_append min_absorb2 ac_simps)
    also have "\<dots> = drop (i + length sub) (u @ NUL # t)"
      using less.prems(2) by (metis (no_types, lifting) add.assoc add.commute drop_drop)
    also have "\<dots> = drop (i + length sub) u @ NUL # t" using i by simp
    finally have rest: "drop (?r + length sub) ?b = drop (i + length sub) u @ NUL # t" .
    have "length (drop (i + length sub) u) < length u" using assms(1) i by (cases sub) auto
    moreover have "NUL \<notin> set (drop (i + length sub) u)" using less.prems(1) by (meson in_set_dropD)
    ultimately obtain b' q' p' u' where rec: "strremove_loop ?b sub ?q ?r = Some (b', q', p')" "q' \<le> p'"
      "drop p' b' = u' @ NUL # t" "NUL \<notin> set u'"
      "take q' b' @ u' = take ?q ?b @ without sub (drop (i + length sub) u)" "length b' = length ?b"
      using less.hyps [OF _ _ rest] qp by (metis add_le_mono1)
    have "take ?q ?b = take q b @ take i u" using q ib by simp
    moreover have "without sub u = take i u @ without sub (drop (i + length sub) u)"
      using Some assms(1) by (subst without.simps) simp
    moreover have "strremove_loop b sub q r = Some (b', q', p')"
      using rec(1) by (subst strremove_loop.simps) (simp add: cs Some copy)
    moreover have "length ?b = length b" using q ib fit qp by simp
    ultimately show ?thesis using rec by (intro exI [of _ b'] exI [of _ q'] exI [of _ p'] exI [of _ u']) simp
  qed
qed

lemma NUL_without: "NUL \<notin> set s \<Longrightarrow> NUL \<notin> set (without sub s)"
proof (induction sub s rule: without.induct)
  case (1 sub s)
  then show ?case by (subst without.simps) (auto split: option.splits dest: in_set_takeD in_set_dropD)
qed

lemma strremove_without:
  assumes "NUL \<notin> set s" and "sub \<noteq> []"
  shows "\<exists>b. strremove (s @ NUL # t) sub = Some b \<and> c_string b = without sub s \<and>
    length b = length (s @ NUL # t) \<and> drop (length s + 1) b = t"
proof (cases "strstr s sub")
  case None
  then have "strremove (s @ NUL # t) sub = Some (s @ NUL # t)" using assms(1) by (simp add: strremove_def string_at_app)
  moreover have "without sub s = s" using None assms(2) by (subst without.simps) simp
  ultimately show ?thesis using assms(1) by (simp add: c_string_app)
next
  case (Some r)
  let ?b = "s @ NUL # t" and ?u = "drop (r + length sub) s"
  have r: "r + length sub \<le> length s" using strstr_Some [OF Some] by simp
  have "NUL \<notin> set ?u" using assms(1) by (meson in_set_dropD)
  moreover have "drop (r + length sub) ?b = ?u @ NUL # t" using r by simp
  ultimately obtain b' q' p' u' where l: "strremove_loop ?b sub r r = Some (b', q', p')" "q' \<le> p'" "drop p' b' = u' @ NUL # t"
    "NUL \<notin> set u'" "take q' b' @ u' = take r ?b @ without sub ?u" "length b' = length ?b"
    using strremove_loop_spec [OF assms(2), of ?u r ?b t r] by auto
  let ?res = "take q' b' @ u' @ NUL # drop (q' + length u' + 1) b'"
  have copy: "copy_string b' q' p' = Some ?res" using copy_string_spec [OF l(2-4)] .
  have fit: "p' + length u' = length s"
  proof -
    have "length (drop p' b') = length u' + 1 + length t" by (simp add: l(3))
    then show ?thesis using l(6) by simp
  qed
  then have q: "q' + length u' \<le> length s" using l(2) by simp
  have w: "without sub s = take r s @ without sub ?u" using Some assms(2) by (subst without.simps) simp
  have pre: "take q' b' @ u' = without sub s" using l(5) r by (simp add: w)
  have "c_string ?res = without sub s"
    using c_string_app [OF NUL_without [OF assms(1), of sub]] unfolding pre [symmetric] by simp
  moreover have "strremove ?b sub = Some ?res"
    using assms(1) Some l(1) copy by (simp add: strremove_def string_at_app)
  moreover have "length ?res = length ?b" using l(6) q by simp
  moreover have "drop (length s + 1) ?res = t"
  proof -
    obtain k where k: "length s = q' + length u' + k" using q by (metis le_Suc_ex)
    have "drop (length s + 1) ?res = drop (length s + 1) b'" using l(6) by (simp add: drop_append k ac_simps)
    also have "\<dots> = drop (length u' + 1) (drop p' b')" using fit by (simp add: ac_simps)
    finally show ?thesis by (simp add: l(3))
  qed
  ultimately show ?thesis by blast
qed

text \<open>C37: \<open>strremove\<close> works in place and in one pass, and is equivalent to removing the occurrences of the
  substring from left to right: the loops end, no character is read or written outside the buffer, the string
  that is left is the text between the occurrences, and what lies behind the terminating NUL is untouched.\<close>

theorem strremove_equivalent:
  assumes "NUL \<notin> set s" and "sub \<noteq> []"
  shows "\<exists>b. strremove (s @ NUL # t) sub = Some b \<and> c_string b = without sub s \<and>
    length b = length (s @ NUL # t) \<and> drop (length s + 1) b = t"
  by (rule strremove_without [OF assms])

theorem strremove_equivalent_witness:
  "\<exists>b. strremove (''a/../../b'' @ [NUL]) ''../'' = Some b \<and> c_string b = ''a/b'' \<and> length b = 10"
proof -
  have "without ''../'' ''a/../../b'' = ''a/b''" by (simp add: without.simps)
  then show ?thesis using strremove_equivalent [of "''a/../../b''" "''../''" "[]"]
    by (auto simp: eval_nat_numeral)
qed

text \<open>One pass is not enough to get rid of the substring: what is left may contain it again.\<close>

lemma strremove_leaves_dots:
  "\<exists>b. strremove (''d/..././../x'' @ [NUL]) ''../'' = Some b \<and> c_string b = ''d/../x''"
proof -
  have "without ''../'' ''d/..././../x'' = ''d/../x''" by (simp add: without.simps)
  then show ?thesis using strremove_without [of "''d/..././../x''" "''../''" "[]"] by auto
qed

section \<open>Saving a file\<close>

text \<open>The directories made, in order, and the files written. The operating system decides which calls fail;
  a \<open>mkdir\<close> of a directory that exists counts as made.\<close>

record disk =
  made :: "cstring list"
  saved :: "cstring \<rightharpoonup> char list"

record os =
  mkdir_error :: "cstring \<Rightarrow> errno option"
  fopen_error :: "cstring \<Rightarrow> errno option"
  fwrite_error :: "cstring \<Rightarrow> (errno \<times> char list) option"

definition mkdir :: "os \<Rightarrow> cstring \<Rightarrow> disk \<Rightarrow> errno + disk" where
  "mkdir sys path d =
     (case mkdir_error sys path of Some e \<Rightarrow> Inl e | None \<Rightarrow> Inr (d\<lparr>made := made d @ [path]\<rparr>))"

text \<open>The loop over the path: \<open>pre\<close> is the text before the pointer.\<close>

fun mkdir_loop :: "os \<Rightarrow> cstring \<Rightarrow> cstring \<Rightarrow> disk \<Rightarrow> errno + disk" where
  "mkdir_loop sys pre [] d = Inr d"
| "mkdir_loop sys pre (c # rest) d =
     (if c = CHR ''/''
      then (case mkdir sys pre d of Inl e \<Rightarrow> Inl e | Inr d \<Rightarrow> mkdir_loop sys (pre @ [c]) rest d)
      else mkdir_loop sys (pre @ [c]) rest d)"

text \<open>An empty path makes the code read before its buffer (\<open>None\<close>).\<close>

definition mkdir_path :: "os \<Rightarrow> cstring \<Rightarrow> disk \<Rightarrow> (errno + disk) option" where
  "mkdir_path sys dir d =
     (let tmp = take 255 dir in
      if length tmp = 0 then None
      else let tmp = (if last tmp = CHR ''/'' then butlast tmp else tmp) in
        Some (case mkdir_loop sys (take 1 tmp) (drop 1 tmp) d of
            Inl e \<Rightarrow> Inl e
          | Inr d \<Rightarrow> mkdir sys tmp d))"

definition strrchr :: "cstring \<Rightarrow> char \<Rightarrow> nat option" where
  "strrchr s c = (if c \<in> set s then Some (length s - 1 - length (takeWhile (\<lambda>x. x \<noteq> c) (rev s))) else None)"

text \<open>The first part makes the directories. When that fails the code frees the path before it returns, and
  in no other case.\<close>

definition make_dirs :: "os \<Rightarrow> cstring \<Rightarrow> disk \<Rightarrow> (errno + disk) option" where
  "make_dirs sys filepath d =
     (case strrchr filepath CHR ''/'' of
        None \<Rightarrow> Some (Inr d)
      | Some lastSlash \<Rightarrow> mkdir_path sys (take lastSlash filepath) d)"

definition frees_path :: "os \<Rightarrow> buffer \<Rightarrow> disk \<Rightarrow> bool" where
  "frees_path sys filepath d =
     (case strremove filepath ''../'' of
        None \<Rightarrow> False
      | Some b \<Rightarrow> (case make_dirs sys (c_string b) d of Some (Inl e) \<Rightarrow> True | _ \<Rightarrow> False))"

definition saveFileToDisk :: "os \<Rightarrow> buffer \<Rightarrow> char list \<Rightarrow> disk \<Rightarrow> (errno + disk) option" where
  "saveFileToDisk sys filepath filecontent d = do {
     filepath \<leftarrow> strremove filepath ''../'';
     let filepath = c_string filepath;
     r \<leftarrow> make_dirs sys filepath d;
     Some (case r of
         Inl e \<Rightarrow> Inl e
       | Inr d \<Rightarrow>
           (case fopen_error sys filepath of
              Some e \<Rightarrow> Inl e
            | None \<Rightarrow>
                (case fwrite_error sys filepath of
                   Some (e, part) \<Rightarrow> Inl e
                 | None \<Rightarrow> Inr (d\<lparr>saved := (saved d)(filepath \<mapsto> filecontent)\<rparr>))))
   }"

text \<open>On a system without errors a file ends up under its path without the occurrences of \<open>../\<close>.\<close>

definition no_errors :: os where
  "no_errors = \<lparr>mkdir_error = (\<lambda>_. None), fopen_error = (\<lambda>_. None), fwrite_error = (\<lambda>_. None)\<rparr>"

lemma no_errors_sel [simp]:
  "mkdir_error no_errors p = None" "fopen_error no_errors p = None" "fwrite_error no_errors p = None"
  by (simp_all add: no_errors_def)

lemma mkdir_loop_ok: "\<exists>d'. mkdir_loop no_errors pre rest d = Inr d' \<and> saved d' = saved d"
  by (induction no_errors pre rest d rule: mkdir_loop.induct) (auto simp: mkdir_def)

lemma takeWhile_shorter: "c \<in> set xs \<Longrightarrow> length (takeWhile (\<lambda>y. y \<noteq> c) xs) < length xs"
  by (induction xs) auto

lemma strrchr_positive:
  assumes "s = x # t" and "x \<noteq> c" and "c \<in> set s"
  shows "\<exists>i. strrchr s c = Some i \<and> 0 < i"
proof -
  have "c \<in> set t" using assms by auto
  then have "length (takeWhile (\<lambda>y. y \<noteq> c) (rev t @ [x])) < length t"
    using takeWhile_shorter [of c "rev t"] by simp
  then show ?thesis using assms by (auto simp: strrchr_def)
qed

lemma saveFileToDisk_ok:
  assumes "NUL \<notin> set path" and "without ''../'' path = x # p" and "x \<noteq> CHR ''/''"
  shows "\<exists>d'. saveFileToDisk no_errors (path @ [NUL]) filecontent d = Some (Inr d') \<and>
    saved d' = (saved d)(without ''../'' path \<mapsto> filecontent)"
proof -
  let ?w = "without ''../'' path"
  obtain b where b: "strremove (path @ [NUL]) ''../'' = Some b" "c_string b = ?w"
    using strremove_without [OF assms(1), of "''../''" "[]"] by auto
  have "\<exists>d1. (case strrchr ?w CHR ''/'' of None \<Rightarrow> Some (Inr d) | Some i \<Rightarrow> mkdir_path no_errors (take i ?w) d) = Some (Inr d1) \<and>
      saved d1 = saved d"
  proof (cases "CHR ''/'' \<in> set ?w")
    case True
    then obtain i where i: "strrchr ?w CHR ''/'' = Some i" "0 < i" using strrchr_positive [OF assms(2,3)] by blast
    then have ne: "take 255 (take i ?w) \<noteq> []" using assms(2) by simp
    define tmp where "tmp = (if last (take 255 (take i ?w)) = CHR ''/'' then butlast (take 255 (take i ?w)) else take 255 (take i ?w))"
    obtain d1 where "mkdir_loop no_errors (take 1 tmp) (drop 1 tmp) d = Inr d1" "saved d1 = saved d"
      using mkdir_loop_ok by blast
    then show ?thesis using ne by (simp add: i(1) mkdir_path_def tmp_def [symmetric] mkdir_def Let_def del: take_take)
  qed (simp add: strrchr_def)
  then show ?thesis using b by (auto simp: saveFileToDisk_def make_dirs_def)
qed

end
