(* ===== verification/ClientApi.thy ===== *)
theory ClientApi
  imports ServerRequests ClientInternals
begin

text \<open>
  The client library of \<^verbatim>\<open>src/src/clientApi.c\<close>. The connection is the bytes that the client has sent
  and the bytes that the server has sent and the client has not read yet; reading beyond them is reading
  after the server closed the connection. Every function returns the error or the value, and the client;
  \<open>None\<close> is an access outside a block, a read of uninitialised memory, or a loop that does not end. What
  \<open>PRINTS_ENABLED\<close> prints is left out, but not the access to the table of messages. Calls of \<open>calloc\<close> for
  a number of bytes that fits succeed, and \<open>write\<close> does not fail.
\<close>

section \<open>The connection\<close>

definition REQ_CODE_LEN :: nat where "REQ_CODE_LEN = 1"
definition RES_CODE_LEN :: nat where "RES_CODE_LEN = 1"
definition OPEN_FLAG_LEN :: nat where "OPEN_FLAG_LEN = 1"

record client =
  sent :: "char list"
  inbox :: "char list"
  disk :: disk
  local :: "cstring \<Rightarrow> errno + char list"
  PRINTS_ENABLED :: bool

text \<open>\<open>readn\<close> into a buffer: at the end of the stream the rest of the buffer stays as it was.\<close>

definition read_into :: "buffer \<Rightarrow> client \<Rightarrow> nat \<Rightarrow> buffer \<times> client" where
  "read_into buf cl n =
     (take n (inbox cl) @ drop (min n (length (inbox cl))) buf, cl\<lparr>inbox := drop n (inbox cl)\<rparr>)"

definition write_all :: "char list \<Rightarrow> client \<Rightarrow> client" where
  "write_all bytes cl = cl\<lparr>sent := sent cl @ bytes\<rparr>"

text \<open>
  A request is built in a block of \<open>reqLen\<close> zero bytes, and all of it but the last byte is sent. Most
  functions allow \<open>snprintf\<close> one byte rest than the block has.
\<close>

definition request_block :: "nat \<Rightarrow> cstring \<Rightarrow> char list" where
  "request_block reqLen text = take (reqLen - 1) (take (reqLen - 1) text @ calloc reqLen)"

definition request_block_loose :: "nat \<Rightarrow> cstring \<Rightarrow> char list option" where
  "request_block_loose reqLen text =
     (if reqLen \<le> length text then None else Some (request_block reqLen text))"

text \<open>The answer of the server: \<open>OK\<close> or the number of an error. The buffer has room for a terminator,
  \<open>stop\<close>, which one caller does not initialise.\<close>

definition errMessages_length :: int where "errMessages_length = 7"

definition wait_for_response :: "char \<Rightarrow> client \<Rightarrow> ((errno + int) \<times> client) option" where
  "wait_for_response stop cl =
     (let (responseBuffer, cl) = read_into [NUL] cl RES_CODE_LEN in
      if stop \<noteq> NUL then None
      else let (err, responseCode) = isNumber (c_string (responseBuffer @ [stop])) in
        if err \<noteq> 0 then Some (Inl EINVAL, cl)
        else if responseCode = int OK then Some (Inr 0, cl)
        else if PRINTS_ENABLED cl \<and> \<not> (0 \<le> responseCode - 1 \<and> responseCode - 1 < errMessages_length) then None
        else Some (Inl EBADE, cl))"

section \<open>Requests about one file\<close>

definition file_request :: "char \<Rightarrow> int \<Rightarrow> cstring \<Rightarrow> client \<Rightarrow> ((errno + int) \<times> client) option" where
  "file_request stop code path cl =
     (if length path = 0 then Some (Inl EINVAL, cl)
      else do {
        let pathLen = length path;
        req \<leftarrow> request_block_loose (REQ_CODE_LEN + METADATA_SIZE + pathLen + 1)
                 (show_int code @ pad10 pathLen @ path);
        wait_for_response stop (write_all req cl)
      })"

definition lockFile :: "cstring \<Rightarrow> client \<Rightarrow> ((errno + int) \<times> client) option" where
  "lockFile path cl = file_request NUL LOCK_FILE path cl"

definition unlockFile :: "cstring \<Rightarrow> client \<Rightarrow> ((errno + int) \<times> client) option" where
  "unlockFile path cl = file_request NUL UNLOCK_FILE path cl"

definition closeFile :: "cstring \<Rightarrow> client \<Rightarrow> ((errno + int) \<times> client) option" where
  "closeFile path cl = file_request NUL CLOSE_FILE path cl"

text \<open>\<open>removeFile\<close> does not initialise its buffer; \<open>stop\<close> is the byte after the answer.\<close>

definition removeFile :: "char \<Rightarrow> cstring \<Rightarrow> client \<Rightarrow> ((errno + int) \<times> client) option" where
  "removeFile stop path cl = file_request stop REMOVE_FILE path cl"

definition openFile :: "cstring \<Rightarrow> int \<Rightarrow> client \<Rightarrow> ((errno + int) \<times> client) option" where
  "openFile path flags cl =
     (if length path = 0 then Some (Inl EINVAL, cl)
      else let pathLen = length path;
               req = request_block (REQ_CODE_LEN + METADATA_SIZE + OPEN_FLAG_LEN + pathLen + 1)
                       (show_int OPEN_FILE @ pad10 pathLen @ path @ show_int flags) in
        wait_for_response NUL (write_all req cl))"

definition readFile :: "cstring \<Rightarrow> client \<Rightarrow> ((errno + buffer \<times> nat) \<times> client) option" where
  "readFile path cl =
     (if length path = 0 then Some (Inl EINVAL, cl)
      else do {
        let pathLen = length path;
        req \<leftarrow> request_block_loose (REQ_CODE_LEN + METADATA_SIZE + pathLen + 1)
                 (show_int READ_FILE @ pad10 pathLen @ path);
        (r, cl) \<leftarrow> wait_for_response NUL (write_all req cl);
        (case r of
           Inl e \<Rightarrow> Some (Inl e, cl)
         | Inr _ \<Rightarrow>
             let (recvLine2, cl) = read_into (calloc METADATA_SIZE) cl METADATA_SIZE;
                 (err, responseSize) = isNumber (c_string recvLine2) in
             if err \<noteq> 0 then Some (Inl EINVAL, cl)
             else if responseSize < - 1 then Some (Inl ENOMEM, cl)
             else if responseSize = - 1 then None
             else let (recvLine3, cl) = read_into (calloc (nat responseSize + 1)) cl (nat responseSize) in
               Some (Inr (recvLine3, nat responseSize), cl))
      })"

section \<open>Files sent by the server\<close>

text \<open>
  One length is read into the buffer of the length before. A negative length is a huge \<open>size_t\<close>: the
  block cannot be allocated, unless the sum wraps to a small one, into which too much is read.
\<close>

definition room :: "int \<Rightarrow> nat \<Rightarrow> bool option" where
  "room len extra = (if 0 \<le> len then Some True else if len + int extra < 0 then Some False else None)"

partial_function (option) storeFiles_loop ::
  "os \<Rightarrow> cstring option \<Rightarrow> buffer \<Rightarrow> int \<Rightarrow> client \<Rightarrow> ((errno + int) \<times> client) option"
where
  "storeFiles_loop sys dirname filemetadataBuf count cl = do {
     let (filemetadataBuf, cl) = read_into filemetadataBuf cl METADATA_SIZE;
     let filepathLen = atol (c_string filemetadataBuf);
     if filepathLen = 0 then Some (Inr count, cl)
     else do {
       let count = count + 1;
       enough \<leftarrow> room filepathLen (case dirname of Some d \<Rightarrow> length d + 2 | None \<Rightarrow> 2);
       if \<not> enough then Some (Inl ENOMEM, cl)
       else do {
         let (path, cl) = read_into (calloc (nat filepathLen)) cl (nat filepathLen);
         let (filemetadataBuf, cl) = read_into filemetadataBuf cl METADATA_SIZE;
         let filecontentLen = atol (c_string filemetadataBuf);
         enough \<leftarrow> room filecontentLen 1;
         if \<not> enough then Some (Inl ENOMEM, cl)
         else do {
           let (body, cl) = read_into (calloc (nat filecontentLen)) cl (nat filecontentLen);
           (case dirname of
              None \<Rightarrow> storeFiles_loop sys dirname filemetadataBuf count cl
            | Some d \<Rightarrow> do {
                r \<leftarrow> saveFileToDisk sys (d @ CHR ''/'' # path @ [NUL]) body (disk cl);
                (case r of
                   Inl e \<Rightarrow> Some (Inl e, cl)
                 | Inr dk \<Rightarrow> storeFiles_loop sys dirname filemetadataBuf count (cl\<lparr>disk := dk\<rparr>))
              })
         }
       }
     }
   }"

definition storeFiles :: "os \<Rightarrow> cstring option \<Rightarrow> client \<Rightarrow> ((errno + int) \<times> client) option" where
  "storeFiles sys dirname cl = storeFiles_loop sys dirname (calloc METADATA_SIZE) 0 cl"

section \<open>Reading, writing, appending\<close>

definition readNFiles_request :: "int \<Rightarrow> char list" where
  "readNFiles_request N =
     take (METADATA_SIZE + REQ_CODE_LEN)
       (show_int READ_N_FILES @
        (if 0 \<le> N then pad10 (nat N)
         else CHR ''-'' # replicate (9 - length (show_nat (nat (- N)))) CHR ''0'' @ show_nat (nat (- N))))"

text \<open>The common end: the answer, and the files that the server sends with it.\<close>

definition readNFiles :: "os \<Rightarrow> int \<Rightarrow> cstring option \<Rightarrow> client \<Rightarrow> ((errno + int) \<times> client) option" where
  "readNFiles sys N dirname cl = do {
     (r, cl) \<leftarrow> wait_for_response NUL (write_all (readNFiles_request N) cl);
     (case r of Inl e \<Rightarrow> Some (Inl e, cl) | Inr _ \<Rightarrow> storeFiles sys dirname cl)
   }"

text \<open>The head of a request with a content, and the content copied behind it.\<close>

definition content_request :: "int \<Rightarrow> cstring \<Rightarrow> char list \<Rightarrow> char list option" where
  "content_request code path body =
     (let pathLen = length path; head = show_int code @ pad10 pathLen @ path @ pad10 (length body);
          reqLen = REQ_CODE_LEN + METADATA_SIZE + pathLen + METADATA_SIZE + length body + 1 in
      if reqLen \<le> length head + length body then None
      else Some (take (reqLen - 1) (head @ body @ calloc reqLen)))"

definition send_content ::
  "os \<Rightarrow> int \<Rightarrow> cstring \<Rightarrow> char list \<Rightarrow> cstring option \<Rightarrow> client \<Rightarrow> ((errno + int) \<times> client) option"
where
  "send_content sys code path body dirname cl = do {
     req \<leftarrow> content_request code path body;
     (r, cl) \<leftarrow> wait_for_response NUL (write_all req cl);
     (case r of
        Inl e \<Rightarrow> Some (Inl e, cl)
      | Inr _ \<Rightarrow> do {
          (r, cl) \<leftarrow> storeFiles sys dirname cl;
          Some (case r of Inl e \<Rightarrow> Inl e | Inr stored \<Rightarrow> Inr 0, cl)
        })
   }"

text \<open>\<open>local\<close> is what a local file gives to \<open>writeFile\<close>: its content, or the error of the call that fails
  while it is opened, measured and read, or of the \<open>calloc\<close> for its content or for the request.\<close>

definition writeFile :: "os \<Rightarrow> cstring \<Rightarrow> cstring option \<Rightarrow> client \<Rightarrow> ((errno + int) \<times> client) option" where
  "writeFile sys path dirname cl =
     (if length path = 0 then Some (Inl EINVAL, cl)
      else (case local cl path of
          Inl e \<Rightarrow> Some (Inl e, cl)
        | Inr body \<Rightarrow> send_content sys WRITE_FILE path body dirname cl))"

definition appendToFile ::
  "os \<Rightarrow> cstring \<Rightarrow> char list \<Rightarrow> cstring option \<Rightarrow> client \<Rightarrow> ((errno + int) \<times> client) option"
where
  "appendToFile sys path buf dirname cl =
     (if length buf = 0 \<or> length path = 0 then Some (Inl EINVAL, cl)
      else send_content sys APPEND_TO_FILE path buf dirname cl)"

text \<open>
  Connecting: each attempt is answered by the error of \<open>connect\<close>, if any, and the time; the loop gives up
  at \<open>until\<close>. The list is the answers to come.
\<close>

fun connect_loop :: "(errno option \<times> int) list \<Rightarrow> int \<Rightarrow> errno option option" where
  "connect_loop [] until = None"
| "connect_loop ((r, secs) # attempts) until =
     (case r of
        None \<Rightarrow> Some None
      | Some e \<Rightarrow>
          if e \<noteq> ENOENT then Some (Some e)
          else if until \<le> secs then Some (Some EAGAIN)
          else connect_loop attempts until)"

definition MAX_SKT_PATH :: nat where "MAX_SKT_PATH = 1024"

definition openConnection :: "(errno option \<times> int) list \<Rightarrow> cstring \<Rightarrow> int \<Rightarrow> cstring \<Rightarrow> ((errno + int) \<times> cstring) option" where
  "openConnection attempts sockname until SOCKET_NAME =
     (case connect_loop attempts until of
        None \<Rightarrow> None
      | Some (Some e) \<Rightarrow> Some (Inl e, SOCKET_NAME)
      | Some None \<Rightarrow> Some (Inr 0, take MAX_SKT_PATH sockname))"

definition closeConnection :: "cstring option \<Rightarrow> cstring \<Rightarrow> errno + int" where
  "closeConnection sockname SOCKET_NAME =
     (case sockname of
        None \<Rightarrow> Inl EINVAL
      | Some s \<Rightarrow> if take MAX_SKT_PATH s \<noteq> take MAX_SKT_PATH SOCKET_NAME then Inl EINVAL else Inr 0)"

section \<open>Answers\<close>

lemma read_into_exact:
  "inbox cl = xs @ ys \<Longrightarrow> length xs = n \<Longrightarrow> length buf = n \<Longrightarrow> read_into buf cl n = (xs, cl\<lparr>inbox := ys\<rparr>)"
  by (simp add: read_into_def)

lemma read_into_sent [simp]: "sent (snd (read_into buf cl n)) = sent cl" "disk (snd (read_into buf cl n)) = disk cl"
  by (simp_all add: read_into_def)

lemma write_all_sel [simp]:
  "sent (write_all b cl) = sent cl @ b" "inbox (write_all b cl) = inbox cl" "disk (write_all b cl) = disk cl"
  "PRINTS_ENABLED (write_all b cl) = PRINTS_ENABLED cl"
  by (simp_all add: write_all_def)

lemma answer_number:
  assumes "1 \<le> k" and "k \<le> 7"
  shows "length (show_nat k) = 1" and "isNumber (c_string (show_nat k @ [NUL])) = (0, int k)"
proof -
  have "k \<in> {1, 2, 3, 4, 5, 6, 7}" using assms by auto
  moreover have "\<forall>k \<in> {1, 2, 3, 4, 5, 6, 7}. length (show_nat k) = 1 \<and> isNumber (c_string (show_nat k @ [NUL])) = (0, int k)"
    by code_simp
  ultimately show "length (show_nat k) = 1" and "isNumber (c_string (show_nat k @ [NUL])) = (0, int k)" by blast+
qed

lemma wait_answer:
  assumes "inbox cl = show_nat k @ rest" and "1 \<le> k" and "k \<le> 7"
  shows "wait_for_response NUL cl = Some (if k = 1 then Inr 0 else Inl EBADE, cl\<lparr>inbox := rest\<rparr>)"
proof -
  have "read_into [NUL] cl 1 = (show_nat k, cl\<lparr>inbox := rest\<rparr>)"
    by (rule read_into_exact [OF assms(1)]) (simp_all add: answer_number(1) [OF assms(2,3)])
  then show ?thesis
    using answer_number(2) [OF assms(2,3)] assms(2,3)
    by (simp add: wait_for_response_def RES_CODE_LEN_def OK_def errMessages_length_def)
qed

lemma wait_sent: "wait_for_response stop cl = Some (r, cl') \<Longrightarrow> sent cl' = sent cl"
  by (auto simp: wait_for_response_def Let_def case_prod_beta split: if_splits)


lemma storeFiles_loop_sent: "storeFiles_loop sys dirname buf count cl = Some res \<Longrightarrow> sent (snd res) = sent cl"
  apply (erule storeFiles_loop.raw_induct
    [where P = "\<lambda>sys dirname buf count cl res. sent (snd res) = sent cl", rotated])
  subgoal premises step for f sys dirname buf count cl res
    using step(2)
    by (auto simp: Let_def case_prod_beta split: bind_splits if_splits option.splits sum.splits dest!: step(1))
  done

lemma storeFiles_sent: "storeFiles sys dirname cl = Some (r, cl') \<Longrightarrow> sent cl' = sent cl"
  unfolding storeFiles_def by (drule storeFiles_loop_sent) simp

section \<open>The requests that are sent\<close>

definition sends :: "('r \<times> client) option \<Rightarrow> client \<Rightarrow> request \<Rightarrow> bool" where
  "sends res cl q \<longleftrightarrow>
     (\<forall>r cl'. res = Some (r, cl') \<longrightarrow> (\<exists>b. sent cl' = sent cl @ b \<and> (\<forall>rest. decode (b @ rest) = Some (q, rest))))"

lemma sendsI:
  assumes "\<And>r cl'. res = Some (r, cl') \<Longrightarrow> sent cl' = sent cl @ b" and "\<And>rest. decode (b @ rest) = Some (q, rest)"
  shows "sends res cl q"
  using assms unfolding sends_def by blast

lemma request_block_exact: "length text + 1 = n \<Longrightarrow> request_block_loose n text = Some text" "length text + 1 = n \<Longrightarrow> request_block n text = text"
  by (auto simp: request_block_loose_def request_block_def calloc_def)

lemma segment_sent:
  assumes "length d < 10 ^ 10" 
  shows "segment (pad10 (length d) @ d @ rest) = Some (d, rest)"
proof -
  have l: "length (pad10 (length d)) = 10" using assms by (rule length_pad10)
  have "atol (pad10 (length d)) = int (length d)" using atol_pad10 [of "[]" "length d"] by simp
  moreover have "c_string (pad10 (length d)) = pad10 (length d)" by (rule c_string_id [OF NUL_pad10])
  ultimately show ?thesis using l by (simp add: segment_def getRequestPayloadSegment_def readn_def METADATA_SIZE_def)
qed

lemma request_code:
  assumes "1 \<le> k" "k \<le> 9"
  shows "length (show_int k) = 1" "show_int k = [hd (show_int k)]" "atol (c_string (show_int k)) = k"
proof -
  have "k \<in> {1, 2, 3, 4, 5, 6, 7, 8, 9}" using assms by auto
  moreover have "\<forall>k \<in> {1, 2, 3, 4, 5, 6, 7, 8, 9}. length (show_int k) = 1 \<and> show_int k = [hd (show_int k)] \<and> atol (c_string (show_int k)) = k"
    by code_simp
  ultimately show "length (show_int k) = 1" "show_int k = [hd (show_int k)]" "atol (c_string (show_int k)) = k" by blast+
qed

lemma decode_sent:
  assumes "2 \<le> k" "k \<le> 9" and "length path < 10 ^ 10" and "NUL \<notin> set path"
  shows "decode (show_int k @ pad10 (length path) @ path @ rest) = decode_file k path rest"
proof -
  have k: "1 \<le> k" "k \<noteq> READ_N_FILES" using assms(1) by (simp_all add: READ_N_FILES_def)
  obtain b where b: "show_int k = [b]" "atol (c_string [b]) = k" using request_code [OF k(1) assms(2)] by metis
  then show ?thesis
    using segment_sent [OF assms(3)] k(2) assms(4) by (simp add: decode_def c_string_id)
qed

lemma file_request_sent:
  assumes "2 \<le> k" "k \<le> 9" and "path \<noteq> []" and "NUL \<notin> set path" and "length path < 10 ^ 10"
    and "\<And>rest. decode_file k path rest = Some (q, rest)"
  shows "sends (file_request stop k path cl) cl q"
proof (rule sendsI)
  let ?b = "show_int k @ pad10 (length path) @ path"
  have "length ?b + 1 = REQ_CODE_LEN + METADATA_SIZE + length path + 1"
    using request_code(1) [of k] length_pad10 [OF assms(5)] assms(1,2) by (simp add: REQ_CODE_LEN_def METADATA_SIZE_def)
  then show "file_request stop k path cl = Some (r, cl') \<Longrightarrow> sent cl' = sent cl @ ?b" for r cl'
    using assms(3) by (auto simp: file_request_def request_block_exact dest: wait_sent)
  show "decode (?b @ rest) = Some (q, rest)" for rest
    using decode_sent [OF assms(1,2,5,4)] assms(6) by simp
qed


lemma openFile_sent:
  assumes "path \<noteq> []" and "NUL \<notin> set path" and "length path < 10 ^ 10" and "0 \<le> flags" "flags \<le> 3"
  shows "sends (openFile path flags cl) cl (Open path (Some flags))"
proof (rule sendsI)
  have "flags \<in> {0, 1, 2, 3}" using assms(4,5) by auto
  moreover have "\<forall>k \<in> {0, 1, 2, 3}. length (show_int k) = 1 \<and> number (c_string (show_int k)) = Some k"
    by code_simp
  ultimately have f: "length (show_int flags) = 1" "number (c_string (show_int flags)) = Some flags" by blast+
  have two: "2 \<le> OPEN_FILE" "OPEN_FILE \<le> 9" by (simp_all add: OPEN_FILE_def)
  let ?b = "show_int OPEN_FILE @ pad10 (length path) @ path @ show_int flags"
  have "length ?b + 1 = REQ_CODE_LEN + METADATA_SIZE + OPEN_FLAG_LEN + length path + 1"
    using request_code(1) [of OPEN_FILE] length_pad10 [OF assms(3)] f(1)
    by (simp add: REQ_CODE_LEN_def METADATA_SIZE_def OPEN_FLAG_LEN_def OPEN_FILE_def)
  then show "openFile path flags cl = Some (r, cl') \<Longrightarrow> sent cl' = sent cl @ ?b" for r cl'
    using assms(1) by (auto simp: openFile_def request_block_exact Let_def dest: wait_sent)
  show "decode (?b @ rest) = Some (Open path (Some flags), rest)" for rest
    using decode_sent [OF two assms(3,2), of "show_int flags @ rest"] f by (simp add: decode_file_def)
qed

lemma readFile_sent:
  assumes "path \<noteq> []" and "NUL \<notin> set path" and "length path < 10 ^ 10"
  shows "sends (readFile path cl) cl (Read path)"
proof (rule sendsI)
  have two: "2 \<le> READ_FILE" "READ_FILE \<le> 9" by (simp_all add: READ_FILE_def)
  let ?b = "show_int READ_FILE @ pad10 (length path) @ path"
  have "length ?b + 1 = REQ_CODE_LEN + METADATA_SIZE + length path + 1"
    using request_code(1) [of READ_FILE] length_pad10 [OF assms(3)]
    by (simp add: REQ_CODE_LEN_def METADATA_SIZE_def READ_FILE_def)
  then show "readFile path cl = Some (r, cl') \<Longrightarrow> sent cl' = sent cl @ ?b" for r cl'
    using assms(1)
    by (auto simp: readFile_def request_block_exact Let_def case_prod_beta split: bind_splits sum.splits if_splits dest!: wait_sent)
  show "decode (?b @ rest) = Some (Read path, rest)" for rest
    using decode_sent [OF two assms(3,2)] by (simp add: decode_file_def request_codes)
qed

lemma send_content_sent:
  assumes "2 \<le> k" "k \<le> 9" and "path \<noteq> []" and "NUL \<notin> set path" and "length path < 10 ^ 10" and "length body < 10 ^ 10"
    and "\<And>rest. decode_file k path (pad10 (length body) @ body @ rest) = Some (q, rest)"
  shows "sends (send_content sys k path body dirname cl) cl q"
proof (rule sendsI)
  let ?b = "show_int k @ pad10 (length path) @ path @ pad10 (length body) @ body"
  have "content_request k path body = Some ?b"
    using request_code(1) [of k] length_pad10 [OF assms(5)] length_pad10 [OF assms(6)] assms(1,2)
    by (simp add: content_request_def REQ_CODE_LEN_def METADATA_SIZE_def Let_def)
  then show "send_content sys k path body dirname cl = Some (r, cl') \<Longrightarrow> sent cl' = sent cl @ ?b" for r cl'
    by (auto simp: send_content_def Let_def split: bind_splits sum.splits dest!: wait_sent storeFiles_sent)
  show "decode (?b @ rest) = Some (q, rest)" for rest
    using decode_sent [OF assms(1,2,5,4)] assms(7) by simp
qed

lemma readNFiles_sent:
  assumes "0 \<le> N" and "N < 10 ^ 10"
  shows "sends (readNFiles sys N dirname cl) cl (ReadN (Some N))"
proof (rule sendsI)
  let ?b = "show_int READ_N_FILES @ pad10 (nat N)"
  have n: "nat N < 10 ^ 10" using assms by simp
  have one: "1 \<le> READ_N_FILES" "READ_N_FILES \<le> 9" by (simp_all add: READ_N_FILES_def)
  have "readNFiles_request N = ?b"
    using request_code(1) [OF one] length_pad10 [OF n] assms(1) by (simp add: readNFiles_request_def REQ_CODE_LEN_def METADATA_SIZE_def)
  then show "readNFiles sys N dirname cl = Some (r, cl') \<Longrightarrow> sent cl' = sent cl @ ?b" for r cl'
    by (auto simp: readNFiles_def Let_def split: bind_splits sum.splits dest!: wait_sent storeFiles_sent)
  obtain b where b: "show_int READ_N_FILES = [b]" "atol (c_string [b]) = READ_N_FILES"
    using request_code [OF one] by metis
  have "number (pad10 (nat N)) = Some N"
    using isNumber_pad10 [of "nat N"] assms by (simp add: number_def)
  then show "decode (?b @ rest) = Some (ReadN (Some N), rest)" for rest
    using b length_pad10 [OF n] by (simp add: decode_def METADATA_SIZE_def c_string_id [OF NUL_pad10])
qed

section \<open>Receiving files\<close>

lemma read_length:
  assumes "inbox cl = pad10 n @ ys" and "n < 10 ^ 10" and "length buf = 10"
  shows "read_into buf cl METADATA_SIZE = (pad10 n, cl\<lparr>inbox := ys\<rparr>)" and "atol (c_string (pad10 n)) = int n"
    and "length (pad10 n) = 10"
proof -
  have l: "length (pad10 n) = METADATA_SIZE" using length_pad10 [OF assms(2)] by (simp add: METADATA_SIZE_def)
  show "read_into buf cl METADATA_SIZE = (pad10 n, cl\<lparr>inbox := ys\<rparr>)"
    by (rule read_into_exact [OF assms(1) l]) (simp add: assms(3) METADATA_SIZE_def)
  show "atol (c_string (pad10 n)) = int n" using atol_pad10 [of "[]" n] by (simp add: c_string_id [OF NUL_pad10])
  show "length (pad10 n) = 10" by (rule length_pad10 [OF assms(2)])
qed

lemma read_block:
  assumes "inbox cl = xs @ ys"
  shows "read_into (calloc (length xs)) cl (length xs) = (xs, cl\<lparr>inbox := ys\<rparr>)"
  by (rule read_into_exact [OF assms refl]) (simp add: calloc_def)

text \<open>Saving files one after the other.\<close>

fun save_all :: "os \<Rightarrow> cstring option \<Rightarrow> afile list \<Rightarrow> disk \<Rightarrow> disk option" where
  "save_all sys dirname [] d = Some d"
| "save_all sys None (f # fs) d = save_all sys None fs d"
| "save_all sys (Some dir) (f # fs) d =
     (case saveFileToDisk sys (dir @ CHR ''/'' # a_path f @ [NUL]) (a_data f) d of
        Some (Inr d) \<Rightarrow> save_all sys (Some dir) fs d
      | _ \<Rightarrow> None)"

lemma storeFiles_loop_all:
  assumes "\<forall>f \<in> set fs. transmissible f \<and> a_path f \<noteq> []" and "inbox cl = response fs @ pad10 0 @ rest"
    and "save_all sys dirname fs (disk cl) = Some d" and "length buf = 10"
  shows "storeFiles_loop sys dirname buf count cl = Some (Inr (count + int (length fs)), cl\<lparr>inbox := rest, disk := d\<rparr>)"
  using assms
proof (induction fs arbitrary: cl buf count)
  case Nil
  have "inbox cl = pad10 0 @ rest" using Nil.prems(2) by (simp add: response_def)
  note r = read_length [OF this _ Nil.prems(4)]
  show ?case using r(2) Nil.prems(3) by (subst storeFiles_loop.simps) (simp add: r(1))
next
  case (Cons f fs)
  have tr: "length (a_path f) < 10 ^ 10" "length (a_data f) < 10 ^ 10" and ne: "a_path f \<noteq> []"
    using Cons.prems(1) by (simp_all add: transmissible_def)
  let ?p = "a_path f" and ?d = "a_data f" and ?more = "response fs @ pad10 0 @ rest"
  have "inbox cl = pad10 (length ?p) @ ?p @ pad10 (length ?d) @ ?d @ ?more"
    using Cons.prems(2) by (simp add: response_def serialize_def)
  note r1 = read_length [OF this tr(1) Cons.prems(4)]
  let ?c1 = "cl\<lparr>inbox := ?p @ pad10 (length ?d) @ ?d @ ?more\<rparr>"
  have r2: "read_into (calloc (length ?p)) ?c1 (length ?p) = (?p, ?c1\<lparr>inbox := pad10 (length ?d) @ ?d @ ?more\<rparr>)"
    by (rule read_block) simp
  let ?c2 = "?c1\<lparr>inbox := pad10 (length ?d) @ ?d @ ?more\<rparr>"
  have "inbox ?c2 = pad10 (length ?d) @ ?d @ ?more" by simp
  note r3 = read_length [OF this tr(2) r1(3)]
  let ?c3 = "?c2\<lparr>inbox := ?d @ ?more\<rparr>"
  have r4: "read_into (calloc (length ?d)) ?c3 (length ?d) = (?d, ?c3\<lparr>inbox := ?more\<rparr>)"
    by (rule read_block) simp
  have pos: "int (length ?p) \<noteq> 0" using ne by simp
  show ?case
  proof (cases dirname)
    case None
    then have d: "save_all sys dirname fs (disk (cl\<lparr>inbox := ?more\<rparr>)) = Some d" using Cons.prems(3) by simp
    have "storeFiles_loop sys dirname buf count cl = storeFiles_loop sys dirname (pad10 (length ?d)) (count + 1) (cl\<lparr>inbox := ?more\<rparr>)"
      using r1 r2 r3 r4 pos None by (subst storeFiles_loop.simps) (simp add: room_def)
    also have "\<dots> = Some (Inr (count + 1 + int (length fs)), cl\<lparr>inbox := rest, disk := d\<rparr>)"
      using Cons.IH [OF _ _ d r3(3)] Cons.prems(1) by simp
    finally show ?thesis by (simp add: ac_simps)
  next
    case (Some dir)
    then obtain d1 where sv: "saveFileToDisk sys (dir @ CHR ''/'' # ?p @ [NUL]) ?d (disk cl) = Some (Inr d1)"
      and "save_all sys (Some dir) fs d1 = Some d"
      using Cons.prems(3) by (auto split: option.splits sum.splits)
    then have d: "save_all sys dirname fs (disk (cl\<lparr>inbox := ?more, disk := d1\<rparr>)) = Some d" using Some by simp
    have "storeFiles_loop sys dirname buf count cl =
        storeFiles_loop sys dirname (pad10 (length ?d)) (count + 1) (cl\<lparr>inbox := ?more, disk := d1\<rparr>)"
      using r1 r2 r3 r4 pos sv Some by (subst storeFiles_loop.simps) (simp add: room_def)
    also have "\<dots> = Some (Inr (count + 1 + int (length fs)), cl\<lparr>inbox := rest, disk := d\<rparr>)"
      using Cons.IH [OF _ _ d r3(3)] Cons.prems(1) by simp
    finally show ?thesis by (simp add: ac_simps)
  qed
qed

lemma storeFiles_all:
  assumes "\<forall>f \<in> set fs. transmissible f \<and> a_path f \<noteq> []" and "inbox cl = response fs @ pad10 0 @ rest"
    and "save_all sys dirname fs (disk cl) = Some d"
  shows "storeFiles sys dirname cl = Some (Inr (int (length fs)), cl\<lparr>inbox := rest, disk := d\<rparr>)"
  using storeFiles_loop_all [OF assms, of "calloc METADATA_SIZE" 0] by (simp add: storeFiles_def calloc_def METADATA_SIZE_def)


end
