(* ===== verification/CliParser.thy ===== *)
theory CliParser
  imports EventLog
begin

text \<open>
  The parser of the command line, \<^verbatim>\<open>src/src/cliParser.c\<close>. The linked list of options is a list; NULL is the
  empty list or, for an argument, \<open>None\<close>. A failed \<open>assert\<close> is \<open>None\<close>. Which calls of \<open>calloc\<close> succeed is
  a parameter, by the index of the string that is parsed.
\<close>

record CliOption =
  optchar :: char
  argument :: "cstring option"

fun pushOpt :: "CliOption list \<Rightarrow> CliOption \<Rightarrow> CliOption list" where
  "pushOpt [] opt = [opt]"
| "pushOpt (o1 # rest) opt = o1 # pushOpt rest opt"

text \<open>The option that is taken out, and the list without it.\<close>

fun popOption :: "CliOption list \<Rightarrow> char \<Rightarrow> CliOption option \<times> CliOption list" where
  "popOption [] c = (None, [])"
| "popOption (o1 # rest) c =
     (if optchar o1 = c then (Some o1, rest)
      else (case popOption rest c of (r, rest) \<Rightarrow> (r, o1 # rest)))"

fun getLastOpt :: "CliOption list \<Rightarrow> CliOption option" where
  "getLastOpt [] = None"
| "getLastOpt [o1] = Some o1"
| "getLastOpt (o1 # o2 # rest) = getLastOpt (o2 # rest)"

text \<open>The argument is stored in the last option, in place; when it cannot be allocated the option has
  none.\<close>

fun set_last :: "CliOption list \<Rightarrow> cstring option \<Rightarrow> CliOption list" where
  "set_last [] a = []"
| "set_last [o1] a = [o1\<lparr>argument := a\<rparr>]"
| "set_last (o1 # o2 # rest) a = o1 # set_last (o2 # rest) a"

definition addArgumentToLastOpt :: "bool \<Rightarrow> CliOption list \<Rightarrow> cstring \<Rightarrow> (int \<times> CliOption list) option" where
  "addArgumentToLastOpt mem optList a =
     (case getLastOpt optList of
        None \<Rightarrow> None
      | Some lastOpt \<Rightarrow> Some (if mem then (0, set_last optList (Some a)) else (- 1, set_last optList None)))"

definition allocOption :: "bool \<Rightarrow> char \<Rightarrow> CliOption option" where
  "allocOption mem c = (if mem then Some \<lparr>optchar = c, argument = None\<rparr> else None)"

text \<open>The number of blocks that are freed.\<close>

definition deallocOption :: "CliOption option \<Rightarrow> errno + nat" where
  "deallocOption p = (case p of None \<Rightarrow> Inl EINVAL | Some opt \<Rightarrow> Inr (if argument opt = None then 1 else 2))"

fun dealloc_all :: "CliOption list \<Rightarrow> nat" where
  "dealloc_all [] = 0"
| "dealloc_all (o1 # rest) = (case deallocOption (Some o1) of Inr n \<Rightarrow> n | Inl _ \<Rightarrow> 0) + dealloc_all rest"

definition deallocParser :: "CliOption list \<Rightarrow> errno + nat" where
  "deallocParser optList = (if optList = [] then Inl EINVAL else Inr (dealloc_all optList))"

datatype cli_state = EXPECTING_OPT | EXPECTING_ARG

text \<open>The first character after the hyphens, or the NUL at the end.\<close>

definition option_char :: "cstring \<Rightarrow> char" where
  "option_char s = (case dropWhile (\<lambda>c. c = CHR ''-'') s of [] \<Rightarrow> NUL | c # _ \<Rightarrow> c)"

definition starts_with_hyphen :: "cstring \<Rightarrow> bool" where
  "starts_with_hyphen s \<longleftrightarrow> s \<noteq> [] \<and> hd s = CHR ''-''"

text \<open>The list and \<open>errno\<close>; without memory for an option the list is freed and NULL is returned.\<close>

fun parse_strings ::
  "(nat \<Rightarrow> bool) \<Rightarrow> nat \<Rightarrow> cli_state \<Rightarrow> CliOption list \<Rightarrow> cstring list \<Rightarrow> (CliOption list \<times> errno option) option"
where
  "parse_strings mem i state optList [] = Some (optList, None)"
| "parse_strings mem i state optList (s # strings) =
     (if starts_with_hyphen s
      then (case allocOption (mem i) (option_char s) of
              None \<Rightarrow> Some ([], Some ENOMEM)
            | Some newOpt \<Rightarrow> parse_strings mem (i + 1) EXPECTING_ARG (pushOpt optList newOpt) strings)
      else if state = EXPECTING_OPT then parse_strings mem (i + 1) state optList strings
      else (case addArgumentToLastOpt (mem i) optList s of
              None \<Rightarrow> None
            | Some (_, optList) \<Rightarrow> parse_strings mem (i + 1) EXPECTING_OPT optList strings))"

definition parseCli :: "(nat \<Rightarrow> bool) \<Rightarrow> cstring list \<Rightarrow> (CliOption list \<times> errno option) option" where
  "parseCli mem strings = parse_strings mem 0 EXPECTING_OPT [] strings"

text \<open>\<open>printParser\<close>; a missing argument is printed as the C library prints NULL.\<close>

fun printParser :: "CliOption list \<Rightarrow> cstring" where
  "printParser [] = []"
| "printParser (o1 # rest) =
     ''Option '' @ [optchar o1] @ '', argument: '' @ (case argument o1 of Some a \<Rightarrow> a | None \<Rightarrow> ''(null)'') @ LF @ printParser rest"

section \<open>Popping\<close>

lemma pushOpt_append [simp]: "pushOpt os opt = os @ [opt]"
  by (induction os) auto

lemma getLastOpt_snoc [simp]: "getLastOpt (os @ [opt]) = Some opt"
  by (induction os rule: getLastOpt.induct) auto

lemma set_last_snoc [simp]: "set_last (os @ [opt]) a = os @ [opt\<lparr>argument := a\<rparr>]"
  by (induction os rule: getLastOpt.induct) auto

lemma getLastOpt_None [simp]: "getLastOpt os = None \<longleftrightarrow> os = []"
  by (induction os rule: getLastOpt.induct) auto

text \<open>\<open>popOption\<close> takes out the first option of a name and keeps the order of the others; without
  one the list does not change.\<close>

theorem popOption_equivalent:
  "popOption os c =
     (case List.extract (\<lambda>opt. optchar opt = c) os of
        None \<Rightarrow> (None, os)
      | Some (before, opt, after) \<Rightarrow> (Some opt, before @ after))"
  by (induction os c rule: popOption.induct) (auto simp: extract_Cons_code extract_Nil_code split: option.splits prod.splits)

section \<open>Command lines\<close>

text \<open>An option as it may be written: its hyphens, what follows its character, its argument, and strings
  after the argument, which are not used.\<close>

record written =
  hyphens :: nat
  letter :: char
  after_letter :: cstring
  arg_of :: "cstring option"
  unused :: "cstring list"

definition written_ok :: "written \<Rightarrow> bool" where
  "written_ok w \<longleftrightarrow> 0 < hyphens w \<and> letter w \<noteq> CHR ''-'' \<and>
     (case arg_of w of None \<Rightarrow> unused w = [] | Some a \<Rightarrow> \<not> starts_with_hyphen a) \<and>
     (\<forall>s \<in> set (unused w). \<not> starts_with_hyphen s)"

definition write_option :: "written \<Rightarrow> cstring list" where
  "write_option w =
     (replicate (hyphens w) CHR ''-'' @ letter w # after_letter w) #
     (case arg_of w of None \<Rightarrow> [] | Some a \<Rightarrow> [a]) @ unused w"

definition read_option :: "written \<Rightarrow> CliOption" where
  "read_option w = \<lparr>optchar = letter w, argument = arg_of w\<rparr>"

lemma parse_unused:
  "\<forall>s \<in> set us. \<not> starts_with_hyphen s \<Longrightarrow>
     parse_strings mem i EXPECTING_OPT os (us @ strings) = parse_strings mem (i + length us) EXPECTING_OPT os strings"
  by (induction us arbitrary: i) auto

lemma option_char_written: "c \<noteq> CHR ''-'' \<Longrightarrow> option_char (replicate n CHR ''-'' @ c # s) = c"
  by (induction n) (auto simp: option_char_def)

text \<open>An option is read the same in either state.\<close>

lemma parse_written:
  assumes "written_ok w" and "\<forall>i. mem i"
  shows "\<exists>state j. parse_strings mem i st os (write_option w @ strings) = parse_strings mem j state (os @ [read_option w]) strings"
proof -
  obtain n where n: "hyphens w = Suc n" using assms(1) by (auto simp: written_ok_def gr0_conv_Suc)
  let ?s = "replicate (hyphens w) CHR ''-'' @ letter w # after_letter w"
  have s: "starts_with_hyphen ?s" by (simp add: n starts_with_hyphen_def)
  have c: "option_char ?s = letter w" using assms(1) by (intro option_char_written) (simp add: written_ok_def)
  show ?thesis
  proof (cases "arg_of w")
    case None
    then show ?thesis using assms s c
      by (intro exI [of _ EXPECTING_ARG] exI [of _ "i + 1"])
        (simp add: write_option_def written_ok_def allocOption_def read_option_def)
  next
    case (Some a)
    then have a: "\<not> starts_with_hyphen a" "\<forall>s \<in> set (unused w). \<not> starts_with_hyphen s"
      using assms(1) by (auto simp: written_ok_def)
    have "parse_strings mem i st os (write_option w @ strings) =
        parse_strings mem (i + 2) EXPECTING_OPT (os @ [read_option w]) (unused w @ strings)"
      using Some a(1) assms(2) s c
      by (simp add: write_option_def allocOption_def addArgumentToLastOpt_def read_option_def)
    then show ?thesis by (auto simp: parse_unused [OF a(2)])
  qed
qed

lemma parse_all_written:
  assumes "\<forall>w \<in> set ws. written_ok w" and "\<forall>i. mem i"
  shows "parse_strings mem i st os (concat (map write_option ws)) = Some (os @ map read_option ws, None)"
  using assms(1)
proof (induction ws arbitrary: i st os)
  case Nil
  then show ?case by simp
next
  case (Cons w ws)
  then obtain state j where "parse_strings mem i st os (write_option w @ concat (map write_option ws)) =
      parse_strings mem j state (os @ [read_option w]) (concat (map write_option ws))"
    using parse_written [OF _ assms(2)] by (metis list.set_intros(1))
  then show ?case using Cons by simp
qed

lemma parseCli_written:
  assumes "\<forall>s \<in> set lead. \<not> starts_with_hyphen s" and "\<forall>w \<in> set ws. written_ok w" and "\<forall>i. mem i"
  shows "parseCli mem (lead @ concat (map write_option ws)) = Some (map read_option ws, None)"
  using parse_unused [OF assms(1)] parse_all_written [OF assms(2,3)] by (simp add: parseCli_def)

text \<open>C33: Parsing a command line gives back the options that were written on it, in their order and each
  with its argument: further hyphens, further characters of an option and strings in excess are ignored,
  and so is what comes before the first option.\<close>

theorem parseCli_roundtrip:
  assumes "\<forall>s \<in> set lead. \<not> starts_with_hyphen s" and "\<forall>w \<in> set ws. written_ok w" and "\<forall>i. mem i"
  shows "parseCli mem (lead @ concat (map write_option ws)) = Some (map read_option ws, None)"
  by (rule parseCli_written [OF assms])

theorem parseCli_roundtrip_witness:
  "parseCli (\<lambda>_. True) [''./client'', ''-f'', ''sock'', ''more'', ''--print'', ''-r'', ''a,b''] =
     Some ([\<lparr>optchar = CHR ''f'', argument = Some ''sock''\<rparr>, \<lparr>optchar = CHR ''p'', argument = None\<rparr>,
            \<lparr>optchar = CHR ''r'', argument = Some ''a,b''\<rparr>], None)"
  using parseCli_roundtrip [of "[''./client'']"
      "[\<lparr>hyphens = 1, letter = CHR ''f'', after_letter = [], arg_of = Some ''sock'', unused = [''more'']\<rparr>,
        \<lparr>hyphens = 2, letter = CHR ''p'', after_letter = ''rint'', arg_of = None, unused = []\<rparr>,
        \<lparr>hyphens = 1, letter = CHR ''r'', after_letter = [], arg_of = Some ''a,b'', unused = []\<rparr>]" "\<lambda>_. True"]
  by (simp add: written_ok_def starts_with_hyphen_def write_option_def read_option_def numeral_2_eq_2)

end
