(* ===== verification/CStrings.thy ===== *)
theory CStrings
  imports EventLog
begin

text \<open>
  The string functions of the C library that the parser of configuration files and the client share.
\<close>

text \<open>\<open>strtok_r\<close>: the token, if there is one, and what is left for the next call.\<close>

definition strtok_r :: "cstring \<Rightarrow> cstring \<Rightarrow> cstring option \<times> cstring" where
  "strtok_r s delim =
     (case dropWhile (\<lambda>c. c \<in> set delim) s of
        [] \<Rightarrow> (None, [])
      | t \<Rightarrow> (Some (takeWhile (\<lambda>c. c \<notin> set delim) t), drop 1 (dropWhile (\<lambda>c. c \<notin> set delim) t)))"

text \<open>\<open>strncpy\<close> writes exactly \<open>n\<close> bytes.\<close>

definition strncpy :: "buffer \<Rightarrow> cstring \<Rightarrow> nat \<Rightarrow> buffer option" where
  "strncpy dest src n = (if length dest < n then None else Some (take n (src @ calloc n) @ drop n dest))"

text \<open>A loop that calls \<open>strtok_r\<close> until it returns NULL meets these tokens.\<close>

lemma strtok_r_shorter: "strtok_r s ds = (Some t, r) \<Longrightarrow> length r < length s"
proof -
  assume a: "strtok_r s ds = (Some t, r)"
  then obtain x u where d: "dropWhile (\<lambda>c. c \<in> set ds) s = x # u" and r: "r = drop 1 (dropWhile (\<lambda>c. c \<notin> set ds) (x # u))"
    by (auto simp: strtok_r_def split: list.splits)
  have "length (dropWhile (\<lambda>c. c \<notin> set ds) (x # u)) \<le> length (x # u)" by (rule length_dropWhile_le)
  moreover have "length (x # u) \<le> length s" using length_dropWhile_le [of "\<lambda>c. c \<in> set ds" s] d by simp
  ultimately show "length r < length s" unfolding r by simp
qed

function tokens :: "cstring \<Rightarrow> cstring \<Rightarrow> cstring list" where
  "tokens ds s = (case strtok_r s ds of (None, _) \<Rightarrow> [] | (Some t, r) \<Rightarrow> t # tokens ds r)"
  by pat_completeness auto
termination
  by (relation "measure (\<lambda>(ds, s). length s)") (auto dest: strtok_r_shorter [OF sym])

declare tokens.simps [simp del]

lemma token_app:
  assumes "t \<noteq> []" and "set t \<inter> set ds = {}" and "c \<in> set ds"
  shows "strtok_r (t @ c # s) ds = (Some t, s)" and "strtok_r t ds = (Some t, [])"
proof -
  have hd: "dropWhile (\<lambda>c. c \<in> set ds) (t @ u) = t @ u" for u using assms(1,2) by (cases t) auto
  have all: "\<And>x. x \<in> set t \<Longrightarrow> x \<notin> set ds" using assms(2) by auto
  have tw: "takeWhile (\<lambda>c. c \<notin> set ds) (t @ c # s) = t" and dw: "dropWhile (\<lambda>c. c \<notin> set ds) (t @ c # s) = c # s"
    using all assms(3) by (simp_all add: takeWhile_append dropWhile_append)
  obtain x u where "t @ c # s = x # u" by (cases "t @ c # s") auto
  then show "strtok_r (t @ c # s) ds = (Some t, s)" using hd [of "c # s"] tw dw by (simp add: strtok_r_def)
  have "takeWhile (\<lambda>c. c \<notin> set ds) t = t" "dropWhile (\<lambda>c. c \<notin> set ds) t = []" using all by simp_all
  moreover obtain y w where "t = y # w" using assms(1) by (cases t) auto
  ultimately show "strtok_r t ds = (Some t, [])" using hd [of "[]"] by (simp add: strtok_r_def)
qed

text \<open>The tokens of words with a separator between them.\<close>

fun separated :: "char \<Rightarrow> cstring list \<Rightarrow> cstring" where
  "separated c [] = []"
| "separated c [t] = t"
| "separated c (t # ts) = t @ c # separated c ts"

lemma tokens_separated: "\<forall>t \<in> set ts. t \<noteq> [] \<and> c \<notin> set t \<Longrightarrow> tokens [c] (separated c ts) = ts"
proof (induction c ts rule: separated.induct)
  case (1 c)
  then show ?case by (simp add: tokens.simps strtok_r_def)
next
  case (2 c t)
  then have "strtok_r t [c] = (Some t, [])" by (intro token_app(2) [where c = c]) auto
  then show ?case by (simp add: tokens.simps [of _ t] tokens.simps [of _ "[]"] strtok_r_def [of "[]"])
next
  case (3 c t u ts)
  then have "strtok_r (t @ c # separated c (u # ts)) [c] = (Some t, separated c (u # ts))"
    by (intro token_app(1)) auto
  then show ?case using 3 by (simp add: tokens.simps [of _ "t @ _"])
qed

end
