(* ===== verification/Client.thy ===== *)
theory Client
  imports ClientApi CliParser CStrings
begin

text \<open>
  The client program, \<^verbatim>\<open>src/src/client.c\<close>: the commands of the command line are checked and then run, each
  by calls of the client library. \<open>None\<close> is undefined behaviour, as before. What is printed and how long the
  program sleeps between two commands is left out.
\<close>

section \<open>The environment\<close>

text \<open>What the operating system answers: the calls that save files, \<open>realpath\<close>, the directories, and the
  attempts to connect with the time at which they fail. An entry of a directory is a file, a directory that
  can be opened or cannot, or an entry for which \<open>stat\<close> fails.\<close>

datatype fs_node = Plain | No_stat | Closed errno | Dir "(cstring \<times> fs_node) list"

record client_env =
  sys :: os
  realpath :: "cstring \<Rightarrow> cstring option"
  opendir :: "cstring \<Rightarrow> errno + (cstring \<times> fs_node) list"
  attempts :: "(errno option \<times> int) list"
  start_time :: int

definition O_NOFLAG :: int where "O_NOFLAG = 0"
definition MAX_SOCKETPATH_LEN :: nat where "MAX_SOCKETPATH_LEN = 1024"
definition GIVE_UP_AFTER_SEC :: int where "GIVE_UP_AFTER_SEC = 10"

section \<open>Calls for each file of an argument\<close>

text \<open>A refusal of the server (\<open>EBADE\<close>) is ignored; any other error ends the program.\<close>

definition ignored :: "errno + 'a \<Rightarrow> bool" where
  "ignored r = (case r of Inl e \<Rightarrow> e = EBADE | Inr _ \<Rightarrow> True)"

fun MULTIARG_API_WRAPPER ::
  "(cstring \<Rightarrow> client \<Rightarrow> ((errno + int) \<times> client) option) \<Rightarrow> cstring list \<Rightarrow> client \<Rightarrow> (bool \<times> client) option"
where
  "MULTIARG_API_WRAPPER api [] cl = Some (True, cl)"
| "MULTIARG_API_WRAPPER api (currFile # files) cl = do {
     (r, cl) \<leftarrow> api currFile cl;
     if ignored r then MULTIARG_API_WRAPPER api files cl else Some (False, cl)
   }"

text \<open>Sending one file: it is opened, written and closed, each step only after the one before. The result
  is whether the program goes on.\<close>

definition send_file :: "client_env \<Rightarrow> int \<Rightarrow> cstring option \<Rightarrow> cstring \<Rightarrow> client \<Rightarrow> ((errno + unit) \<times> client) option" where
  "send_file env openFlags dirname path cl = do {
     (r, cl) \<leftarrow> openFile path openFlags cl;
     (case r of
        Inl e \<Rightarrow> Some (if e = EBADE then Inr () else Inl e, cl)
      | Inr _ \<Rightarrow> do {
          (r, cl) \<leftarrow> writeFile (sys env) path dirname cl;
          (case r of
             Inl e \<Rightarrow> Some (if e = EBADE then Inr () else Inl e, cl)
           | Inr _ \<Rightarrow> do {
               (r, cl) \<leftarrow> closeFile path cl;
               Some (case r of Inl e \<Rightarrow> if e = EBADE then Inr () else Inl e | Inr _ \<Rightarrow> Inr (), cl)
             })
        })
   }"

fun MULTIARG_API_TRANSACTION_WRAPPER ::
  "client_env \<Rightarrow> cstring option \<Rightarrow> int \<Rightarrow> cstring list \<Rightarrow> client \<Rightarrow> (bool \<times> client) option"
where
  "MULTIARG_API_TRANSACTION_WRAPPER env dirname openFlags [] cl = Some (True, cl)"
| "MULTIARG_API_TRANSACTION_WRAPPER env dirname openFlags (currFile # files) cl =
     (case realpath env currFile of
        None \<Rightarrow> MULTIARG_API_TRANSACTION_WRAPPER env dirname openFlags files cl
      | Some realFilePath \<Rightarrow> do {
          (r, cl) \<leftarrow> send_file env openFlags dirname realFilePath cl;
          (case r of
             Inl e \<Rightarrow> Some (False, cl)
           | Inr _ \<Rightarrow> MULTIARG_API_TRANSACTION_WRAPPER env dirname openFlags files cl)
        })"

text \<open>Reading files; those read are saved under \<open>dirname\<close>. When \<open>saveFileToDisk\<close> has freed the path and
  fails, the path is freed again.\<close>

fun smallr_loop :: "client_env \<Rightarrow> cstring option \<Rightarrow> cstring list \<Rightarrow> client \<Rightarrow> ((errno + unit) \<times> client) option" where
  "smallr_loop env dirname [] cl = Some (Inr (), cl)"
| "smallr_loop env dirname (currFile # files) cl = do {
     (r, cl) \<leftarrow> openFile currFile O_NOFLAG cl;
     (case r of
        Inl _ \<Rightarrow> smallr_loop env dirname files cl
      | Inr _ \<Rightarrow> do {
          (r, cl) \<leftarrow> readFile currFile cl;
          (case r of
             Inl e \<Rightarrow> if e \<noteq> EBADE then Some (Inl e, cl) else smallr_loop env dirname files cl
           | Inr (outBuf, fileSize) \<Rightarrow> do {
               r \<leftarrow> (case dirname of
                   None \<Rightarrow> Some (Inr (disk cl))
                 | Some d \<Rightarrow>
                     let filepathBuf = d @ CHR ''/'' # currFile @ [NUL] in
                     if frees_path (sys env) filepathBuf (disk cl) then None
                     else saveFileToDisk (sys env) filepathBuf (take fileSize outBuf) (disk cl));
               (case r of
                  Inl e \<Rightarrow> Some (Inl e, cl)
                | Inr dk \<Rightarrow> do {
                    (r, cl) \<leftarrow> closeFile currFile (cl\<lparr>disk := dk\<rparr>);
                    (case r of
                       Inl e \<Rightarrow> if e \<noteq> EBADE then Some (Inl e, cl) else smallr_loop env dirname files cl
                     | Inr _ \<Rightarrow> smallr_loop env dirname files cl)
                  })
             })
        })
   }"

definition smallrHandler :: "client_env \<Rightarrow> cstring \<Rightarrow> cstring option \<Rightarrow> client \<Rightarrow> ((errno + unit) \<times> client) option" where
  "smallrHandler env arg dirname cl = smallr_loop env dirname (tokens '','' arg) cl"

section \<open>Sending a directory\<close>

text \<open>
  \<open>visitDirAndWrite\<close> on the entries of the directory \<open>fromDir\<close>. The count is a \<open>size_t\<close>, its result an
  \<open>int\<close>; with \<open>upTo\<close> 0 there is no limit. The path that \<open>realpath\<close> does not give is not initialised.
\<close>

fun visit_loop ::
  "client_env \<Rightarrow> cstring option \<Rightarrow> cstring \<Rightarrow> nat \<Rightarrow> nat \<Rightarrow> (cstring \<times> fs_node) list \<Rightarrow> client \<Rightarrow> ((errno + int) \<times> client) option"
where
  "visit_loop env dirname fromDir upTo fileCount [] cl = Some (Inr (int_of_long (int fileCount)), cl)"
| "visit_loop env dirname fromDir upTo fileCount ((name, node) # entries) cl =
     (if upTo \<noteq> 0 \<and> upTo \<le> fileCount then Some (Inr (int_of_long (int fileCount)), cl)
      else if name = ''.'' \<or> name = ''..'' then visit_loop env dirname fromDir upTo fileCount entries cl
      else let filePathname = fromDir @ CHR ''/'' # name in
        (case node of
           No_stat \<Rightarrow> None
         | Closed e \<Rightarrow> Some (Inl e, cl)
         | Dir es \<Rightarrow>
             (case visit_loop env dirname filePathname (size_sub upTo fileCount) 0 es cl of
                None \<Rightarrow> None
              | Some (Inl e, cl) \<Rightarrow> Some (Inl e, cl)
              | Some (Inr recCount, cl) \<Rightarrow>
                  if recCount = - 1 then Some (Inr (- 1), cl)
                  else visit_loop env dirname fromDir upTo (nat ((int fileCount + recCount) mod 2 ^ 64)) entries cl)
         | Plain \<Rightarrow>
             (case realpath env filePathname of
                None \<Rightarrow> None
              | Some realFilePath \<Rightarrow>
                  (case send_file env (O_CREATE OR O_LOCK) dirname realFilePath cl of
                     None \<Rightarrow> None
                   | Some (Inl e, cl) \<Rightarrow> Some (Inl e, cl)
                   | Some (Inr _, cl) \<Rightarrow> visit_loop env dirname fromDir upTo (size_add fileCount 1) entries cl))))"

definition visitDirAndWrite ::
  "client_env \<Rightarrow> cstring \<Rightarrow> cstring option \<Rightarrow> nat \<Rightarrow> client \<Rightarrow> ((errno + int) \<times> client) option"
where
  "visitDirAndWrite env fromDir dirname upTo cl =
     (case opendir env fromDir of
        Inl e \<Rightarrow> Some (Inl e, cl)
      | Inr es \<Rightarrow> visit_loop env dirname fromDir upTo 0 es cl)"

text \<open>The argument is the directory and the number of files; \<open>isNumber\<close> of NULL is an error.\<close>

definition smallwHandler :: "client_env \<Rightarrow> cstring \<Rightarrow> cstring option \<Rightarrow> client \<Rightarrow> ((errno + int) \<times> client) option" where
  "smallwHandler env arg dirname cl =
     (let (fromDir, save) = strtok_r arg '','';
          (upToArg, save) = (case fromDir of None \<Rightarrow> (None, []) | Some _ \<Rightarrow> strtok_r save '','') in
      (case (fromDir, upToArg) of
         (Some fromDir, Some n) \<Rightarrow>
           let (r, upTo) = isNumber n in
           if r \<noteq> 0 then Some (Inl EINVAL, cl)
           else visitDirAndWrite env fromDir dirname (nat (upTo mod 2 ^ 64)) cl
       | _ \<Rightarrow> Some (Inl EINVAL, cl)))"

section \<open>Commands\<close>

text \<open>How \<open>runCommands\<close> ends: normally, with -1 after a call that failed, with -1 for a wrong option (and
  whether the options were freed), or with \<open>EXIT_FAILURE\<close>.\<close>

datatype cmd_result = Done | Api_error | Option_error bool | Exit_failure

fun result_value :: "cmd_result \<Rightarrow> int" where
  "result_value Done = 0"
| "result_value Api_error = - 1"
| "result_value (Option_error _) = - 1"
| "result_value Exit_failure = 1"

text \<open>The directory given by the next option, if it is \<open>c\<close>; then that option is skipped.\<close>

definition target_dir :: "char \<Rightarrow> CliOption list \<Rightarrow> cmd_result + cstring option \<times> bool" where
  "target_dir c rest =
     (case rest of
        [] \<Rightarrow> Inr (None, False)
      | o2 # _ \<Rightarrow>
          if optchar o2 = c then (case argument o2 of None \<Rightarrow> Inl (Option_error True) | Some d \<Rightarrow> Inr (Some d, True))
          else Inr (None, False))"

definition of_bool_result :: "bool \<times> client \<Rightarrow> cmd_result \<times> client" where
  "of_bool_result = (\<lambda>(ok, cl). (if ok then Done else Exit_failure, cl))"

definition of_sum_result :: "(errno + 'a) \<times> client \<Rightarrow> cmd_result \<times> client" where
  "of_sum_result = (\<lambda>(r, cl). (case r of Inl _ \<Rightarrow> Api_error | Inr _ \<Rightarrow> Done, cl))"

text \<open>Checking one command: the number of its \<open>-R\<close>, and the directory and whether the next option belongs
  to it.\<close>

definition check_command :: "CliOption \<Rightarrow> CliOption list \<Rightarrow> cmd_result + int \<times> cstring option \<times> bool" where
  "check_command o1 rest =
     (let c = optchar o1 in
      if c = CHR ''D'' \<or> c = CHR ''d'' then Inl (Option_error False)
      else if c = CHR ''w'' \<or> c = CHR ''W'' then
        (if argument o1 = None then Inl (Option_error True)
         else (case target_dir CHR ''D'' rest of Inl r \<Rightarrow> Inl r | Inr (d, s) \<Rightarrow> Inr (0, d, s)))
      else if c = CHR ''r'' then
        (if argument o1 = None then Inl (Option_error True)
         else (case target_dir CHR ''d'' rest of Inl r \<Rightarrow> Inl r | Inr (d, s) \<Rightarrow> Inr (0, d, s)))
      else if c = CHR ''R'' then
        (let (err, nArg) = (case argument o1 of None \<Rightarrow> (0, 0) | Some a \<Rightarrow> isNumber a) in
         if err \<noteq> 0 then Inl (Option_error False)
         else (case target_dir CHR ''d'' rest of Inl r \<Rightarrow> Inl r | Inr (d, s) \<Rightarrow> Inr (nArg, d, s)))
      else if c = CHR ''l'' \<or> c = CHR ''u'' \<or> c = CHR ''c'' then
        (if argument o1 = None then Inl (Option_error True) else Inr (0, None, False))
      else Inl (Option_error False))"

text \<open>Running it. \<open>stop\<close> is the byte of the buffer that \<open>removeFile\<close> does not initialise. What
  \<open>readNFiles\<close> returns is not looked at. A \<open>-w\<close> whose number is missing or wrong fails in \<open>smallwHandler\<close> with
  \<open>EINVAL\<close>, so that it counts as a call that failed (\<open>Api_error\<close>) and not as a wrong option.\<close>

definition do_command ::
  "client_env \<Rightarrow> char \<Rightarrow> CliOption \<Rightarrow> int \<Rightarrow> cstring option \<Rightarrow> client \<Rightarrow> (cmd_result \<times> client) option"
where
  "do_command env stop o1 nArg dirname cl =
     (let c = optchar o1; arg = (case argument o1 of Some a \<Rightarrow> a | None \<Rightarrow> []) in
      if c = CHR ''w'' then map_option (\<lambda>(r, cl). (if r = Inr (- 1) then Api_error else fst (of_sum_result (r, cl)), cl))
        (smallwHandler env arg dirname cl)
      else if c = CHR ''W'' then
        map_option of_bool_result (MULTIARG_API_TRANSACTION_WRAPPER env dirname (O_CREATE OR O_LOCK) (tokens '','' arg) cl)
      else if c = CHR ''r'' then map_option of_sum_result (smallrHandler env arg dirname cl)
      else if c = CHR ''R'' then map_option (\<lambda>(r, cl). (Done, cl)) (readNFiles (sys env) (int_of_long nArg) dirname cl)
      else if c = CHR ''l'' then map_option of_bool_result (MULTIARG_API_WRAPPER lockFile (tokens '','' arg) cl)
      else if c = CHR ''u'' then map_option of_bool_result (MULTIARG_API_WRAPPER unlockFile (tokens '','' arg) cl)
      else map_option of_bool_result (MULTIARG_API_WRAPPER (removeFile stop) (tokens '','' arg) cl))"

fun runCommands ::
  "client_env \<Rightarrow> char \<Rightarrow> bool \<Rightarrow> CliOption list \<Rightarrow> client \<Rightarrow> (cmd_result \<times> client) option"
where
  "runCommands env stop validateOnly [] cl = Some (Done, cl)"
| "runCommands env stop validateOnly (o1 # rest) cl =
     (case check_command o1 rest of
        Inl r \<Rightarrow> Some (r, cl)
      | Inr (nArg, dirname, skipNext) \<Rightarrow> do {
          (r, cl) \<leftarrow> (if validateOnly then Some (Done, cl) else do_command env stop o1 nArg dirname cl);
          if r \<noteq> Done then Some (r, cl)
          else runCommands env stop validateOnly (if skipNext then tl rest else rest) cl
        })"

section \<open>main\<close>

definition EXIT_SUCCESS :: int where "EXIT_SUCCESS = 0"
definition EXIT_FAILURE :: int where "EXIT_FAILURE = 1"

text \<open>An option that may be given once. The result says whether \<open>main\<close> fails.\<close>

definition pop_once :: "CliOption list \<Rightarrow> char \<Rightarrow> CliOption option \<times> bool \<times> CliOption list" where
  "pop_once os c =
     (case popOption os c of
        (None, os) \<Rightarrow> (None, False, os)
      | (Some opt, os) \<Rightarrow> (case popOption os c of (again, os) \<Rightarrow> (Some opt, again \<noteq> None, os)))"

text \<open>What is left of the options after the general ones, and the name of the socket; or what \<open>main\<close>
  returns.\<close>

definition general_options :: "CliOption list \<Rightarrow> client \<Rightarrow> int + CliOption list \<times> cstring \<times> client" where
  "general_options os cl =
     (case popOption os CHR ''h'' of
        (Some _, os) \<Rightarrow> Inl EXIT_SUCCESS
      | (None, os) \<Rightarrow>
          (case pop_once os CHR ''f'' of
             (None, _, os) \<Rightarrow> Inl (- 1)
           | (Some f, twice, os) \<Rightarrow>
               (case argument f of
                  None \<Rightarrow> Inl (- 1)
                | Some name \<Rightarrow>
                    if twice then Inl (- 1)
                    else (case pop_once os CHR ''p'' of
                        (p, twice, os) \<Rightarrow>
                          if twice then Inl (- 1)
                          else (case pop_once os CHR ''t'' of
                              (t, twice, os) \<Rightarrow>
                                if (case t of Some opt \<Rightarrow> (case argument opt of Some a \<Rightarrow> fst (isNumber a) \<noteq> 0 | None \<Rightarrow> False) | None \<Rightarrow> False)
                                then Inl (- 1)
                                else if twice then Inl (- 1)
                                else Inr (os, take MAX_SOCKETPATH_LEN name, if p = None then cl else cl\<lparr>PRINTS_ENABLED := True\<rparr>))))))"

text \<open>The value of \<open>main\<close>. The options are freed at the end, which is undefined when \<open>runCommands\<close> has
  freed some of them.\<close>

definition client_main ::
  "client_env \<Rightarrow> (nat \<Rightarrow> bool) \<Rightarrow> char \<Rightarrow> cstring list \<Rightarrow> client \<Rightarrow> (int \<times> client) option"
where
  "client_main env mem stop argv cl = do {
     (cliCommandList, e) \<leftarrow> parseCli mem argv;
     if cliCommandList = [] then Some (EXIT_FAILURE, cl)
     else (case general_options cliCommandList cl of
         Inl r \<Rightarrow> Some (r, cl)
       | Inr (cliCommandList, sockname, cl) \<Rightarrow> do {
           (r, cl) \<leftarrow> runCommands env stop True cliCommandList cl;
           if r = Option_error True then None
           else if result_value r = - 1 then Some (- 1, cl)
           else do {
             (conn, SOCKET_NAME) \<leftarrow> openConnection (attempts env) sockname (start_time env + GIVE_UP_AFTER_SEC) [];
             (case conn of
                Inl e \<Rightarrow> Some (EXIT_FAILURE, cl)
              | Inr _ \<Rightarrow> do {
                  (r, cl) \<leftarrow> runCommands env stop False cliCommandList cl;
                  if r = Option_error True then None
                  else Some (case closeConnection (Some sockname) SOCKET_NAME of
                      Inl e \<Rightarrow> (EXIT_FAILURE, cl)
                    | Inr _ \<Rightarrow> (EXIT_SUCCESS, cl))
                })
           }
         })
   }"

end
