(* ===== verification/ClientProps.thy ===== *)
theory ClientProps
  imports ClientApi ProtocolProps
begin

text \<open>
  The client and the server together: the bytes a function of the client's library sends are the request
  it is meant to send, and what the server answers is what the client takes it for.
\<close>

section \<open>Requests\<close>

text \<open>C38: the two sides of the protocol agree on requests. Whatever a function of the client's library sends
  for a path, content, flags or number within the sizes of the protocol, the server decodes it to the
  request meant, and no byte is left over or missing.\<close>

theorem client_requests_decode:
  assumes "path \<noteq> []" and "NUL \<notin> set path" and "length path < 10 ^ 10" and "length body < 10 ^ 10"
    and "0 \<le> flags" "flags \<le> 3" and "0 \<le> N" "N < 10 ^ 10" and "local cl path = Inr body"
  shows "sends (lockFile path cl) cl (Lock path) \<and> sends (unlockFile path cl) cl (Unlock path) \<and>
     sends (closeFile path cl) cl (CloseFile path) \<and> sends (removeFile stop path cl) cl (Remove path) \<and>
     sends (openFile path flags cl) cl (Open path (Some flags)) \<and> sends (readFile path cl) cl (Read path) \<and>
     sends (writeFile sys path dirname cl) cl (WriteFile path body) \<and>
     (body \<noteq> [] \<longrightarrow> sends (appendToFile sys path body dirname cl) cl (Append path body)) \<and>
     sends (readNFiles sys N dirname cl) cl (ReadN (Some N))"
proof -
  note single = file_request_sent [OF _ _ assms(1-3)] and content = send_content_sent [OF _ _ assms(1-4)]
  have s: "segment (pad10 (length body) @ body @ rest) = Some (body, rest)" for rest by (rule segment_sent [OF assms(4)])
  have "sends (lockFile path cl) cl (Lock path)" "sends (unlockFile path cl) cl (Unlock path)"
    "sends (closeFile path cl) cl (CloseFile path)" "sends (removeFile stop path cl) cl (Remove path)"
    unfolding lockFile_def unlockFile_def closeFile_def removeFile_def
    by (rule single; simp add: decode_file_def request_codes)+
  moreover have "sends (writeFile sys path dirname cl) cl (WriteFile path body)"
    using assms(1,9) by (simp add: writeFile_def) (rule content; simp add: decode_file_def request_codes s)
  moreover have "sends (appendToFile sys path body dirname cl) cl (Append path body)" if "body \<noteq> []"
    using assms(1) that by (simp add: appendToFile_def) (rule content; simp add: decode_file_def request_codes s)
  ultimately show ?thesis
    using openFile_sent [OF assms(1-3,5,6)] readFile_sent [OF assms(1-3)] readNFiles_sent [OF assms(7,8)] by blast
qed

definition demo_client :: "char list \<Rightarrow> client" where
  "demo_client bytes = \<lparr>sent = [], inbox = bytes, disk = \<lparr>made = [], saved = Map.empty\<rparr>,
     local = (\<lambda>_. Inl ENOENT)(''/a'' := Inr ''xx''), PRINTS_ENABLED = False\<rparr>"

theorem client_requests_decode_witness:
  "\<exists>cl'. lockFile ''/a'' (demo_client ''1'') = Some (Inr 0, cl') \<and> decode (sent cl') = Some (Lock ''/a'', [])"
proof -
  have l: "local (demo_client ''1'') ''/a'' = Inr ''xx''" and s0: "sent (demo_client ''1'') = []" by (simp_all add: demo_client_def)
  have "show_nat 1 = ''1''" by code_simp
  then have i: "inbox (write_all b (demo_client ''1'')) = show_nat 1 @ []" for b by (simp add: demo_client_def)
  have len: "length (show_int LOCK_FILE @ pad10 2 @ ''/a'') + 1 = REQ_CODE_LEN + METADATA_SIZE + 2 + 1" by code_simp
  have "\<exists>cl'. lockFile ''/a'' (demo_client ''1'') = Some (Inr 0, cl')"
    using wait_answer [OF i] request_block_exact(1) [OF len]
    by (simp add: lockFile_def file_request_def numeral_2_eq_2)
  then obtain cl' where cl': "lockFile ''/a'' (demo_client ''1'') = Some (Inr 0, cl')" ..
  have "sends (lockFile ''/a'' (demo_client ''1'')) (demo_client ''1'') (Lock ''/a'')"
    using client_requests_decode [OF _ _ _ _ _ _ _ _ l, of 0 0] by simp
  then have "decode (sent cl') = Some (Lock ''/a'', [])"
    using cl' s0 unfolding sends_def by (metis append_Nil append_Nil2)
  then show ?thesis using cl' by blast
qed

section \<open>Files sent to the client\<close>

text \<open>C39: the files that the server sends - the answer to a request for many files, or the files evicted by a
  write, followed by a zero length - arrive: the client reads them all and nothing beyond, returns their
  number, and has saved each under the directory asked for, in their order.\<close>

theorem client_receives_files:
  assumes "list_all (\<lambda>f. transmissible f \<and> a_path f \<noteq> []) fs" and "inbox cl = response fs @ pad10 0 @ rest"
    and "save_all sys dirname fs (disk cl) = Some d"
  shows "storeFiles sys dirname cl = Some (Inr (int (length fs)), cl\<lparr>inbox := rest, disk := d\<rparr>)"
  by (rule storeFiles_all [OF _ assms(2,3)]) (use assms(1) in \<open>simp add: list_all_iff\<close>)

theorem client_receives_files_witness:
  "\<exists>d. storeFiles no_errors (Some ''d'') (demo_client (response [file_a, file_b] @ pad10 0)) =
     Some (Inr 2, demo_client []\<lparr>disk := d\<rparr>) \<and> saved d = [''d//a'' \<mapsto> ''xx'', ''d//b'' \<mapsto> []]"
proof -
  let ?cl = "demo_client (response [file_a, file_b] @ pad10 0)"
  have tr: "list_all (\<lambda>f. transmissible f \<and> a_path f \<noteq> []) [file_a, file_b]" by (simp add: transmissible_def)
  have w: "without ''../'' ''d//a'' = ''d//a''" "without ''../'' ''d//b'' = ''d//b''" by (simp_all add: without.simps)
  obtain d1 where d1: "saveFileToDisk no_errors (''d//a'' @ [NUL]) ''xx'' (disk ?cl) = Some (Inr d1)" "saved d1 = (saved (disk ?cl))(''d//a'' \<mapsto> ''xx'')"
    using saveFileToDisk_ok [of "''d//a''" "CHR ''d''" "''//a''"] w(1) by auto
  obtain d2 where d2: "saveFileToDisk no_errors (''d//b'' @ [NUL]) [] d1 = Some (Inr d2)" "saved d2 = (saved d1)(''d//b'' \<mapsto> [])"
    using saveFileToDisk_ok [of "''d//b''" "CHR ''d''" "''//b''"] w(2) by auto
  have sv: "save_all no_errors (Some ''d'') [file_a, file_b] (disk ?cl) = Some d2"
    using d1(1) d2(1) by simp
  have i: "inbox ?cl = response [file_a, file_b] @ pad10 0 @ []" by (simp add: demo_client_def)
  have "storeFiles no_errors (Some ''d'') ?cl = Some (Inr 2, ?cl\<lparr>inbox := [], disk := d2\<rparr>)"
    using client_receives_files [OF tr i sv] by simp
  then show ?thesis using d1(2) d2(2) by (intro exI [of _ d2]) (simp add: demo_client_def)
qed

section \<open>A read from end to end\<close>

definition sent_to :: "fd \<Rightarrow> action list \<Rightarrow> char list" where
  "sent_to c out = concat (map (\<lambda>a. case a of Send d b \<Rightarrow> if d = c then b else [] | _ \<Rightarrow> []) out)"

text \<open>C40: a read from end to end. When client \<open>c\<close> may read a file, what its \<open>readFile\<close> sends makes the worker
  answer with bytes from which \<open>readFile\<close> returns exactly the content of the file and its length.\<close>

theorem client_reads_file:
  assumes "sim s xs fs" and "fs_ok fs" and "config_ok fs" and "alloc_ok env s" and "caller_ok env c"
    and "a_lookup (f_files fs) path = Some f" and "granted f c"
  shows "\<exists>b s' out. serve env unset s c b = Some (s', out, []) \<and>
     readFile path (cl\<lparr>inbox := sent_to c out @ rest\<rparr>) =
       Some (Inr (a_data f @ [NUL], length (a_data f)), cl\<lparr>sent := sent cl @ b, inbox := rest\<rparr>)"
proof -
  have f: "f \<in> set (f_files fs)" "a_path f = path"
    using assms(6) by (auto simp: a_lookup_def find_Some_iff)
  then have ok: "file_ok f" and tr: "length (a_data f) < 10 ^ 10"
    using assms(2,3) ok_transmissible(1) [OF assms(2,3)] by (auto simp: fs_ok_def transmissible_def)
  then have path: "path \<noteq> []" "NUL \<notin> set path" "length path \<le> PATH_LIMIT" using f(2) by (auto simp: file_ok_def)
  then have len: "length path < 10 ^ 10" by (simp add: PATH_LIMIT_def)
  have c: "0 < c" using assms(5) by (simp add: caller_ok_def)
  let ?d = "a_data f" and ?b = "show_int READ_FILE @ pad10 (length path) @ path"
  let ?out = "[code_msg c 1, Send c (pad10 (length ?d) @ ?d), Pipe (fd_msg c)]"
  obtain fs' where "spec_read env fs path c = (Inr ?d, fs')"
    using path(1) c assms(6,7) by (simp add: spec_read_def bad_input_def)
  then have sp: "spec_serve env unset fs c (Read path) = (fs', ?out)" by (simp add: spec_serve_def)
  have two: "2 \<le> READ_FILE" "READ_FILE \<le> 9" by (simp_all add: READ_FILE_def)
  have dec: "decode ?b = Some (Read path, [])"
    using decode_sent [OF two len path(2), of "[]"] by (simp add: decode_file_def request_codes)
  have "request_fits unset fs (Read path)" using path(3) by (simp add: request_fits_def)
  then obtain s' where sv: "serve env unset s c ?b = Some (s', ?out, [])"
    using serve_request_refines [OF assms(1-5) dec _ sp] by blast
  have "length ?b + 1 = REQ_CODE_LEN + METADATA_SIZE + length path + 1"
    using request_code(1) [of READ_FILE] length_pad10 [OF len] by (simp add: REQ_CODE_LEN_def METADATA_SIZE_def READ_FILE_def)
  note req = request_block_exact(1) [OF this]
  let ?more = "pad10 (length ?d) @ ?d @ rest"
  have out: "sent_to c ?out @ rest = show_nat 1 @ ?more" by (simp add: sent_to_def code_msg_def)
  let ?cl = "write_all ?b (cl\<lparr>inbox := show_nat 1 @ ?more\<rparr>)"
  have w: "wait_for_response NUL ?cl = Some (Inr 0, ?cl\<lparr>inbox := ?more\<rparr>)"
    using wait_answer [of ?cl 1 ?more] by simp
  have "inbox (?cl\<lparr>inbox := ?more\<rparr>) = pad10 (length ?d) @ ?d @ rest" by simp
  note r = read_length [OF this tr, of "calloc METADATA_SIZE"]
  have n: "isNumber (c_string (pad10 (length ?d))) = (0, int (length ?d))"
    using isNumber_pad10 [OF tr] by (simp add: c_string_id [OF NUL_pad10])
  have big: "read_into (calloc (length ?d + 1)) (?cl\<lparr>inbox := ?d @ rest\<rparr>) (length ?d) = (?d @ [NUL], ?cl\<lparr>inbox := rest\<rparr>)"
  proof -
    have "calloc (length ?d + 1) = calloc (length ?d) @ [NUL]" by (simp add: calloc_def replicate_append_same)
    then show ?thesis by (simp add: read_into_def calloc_def del: replicate_Suc)
  qed
  have "readFile path (cl\<lparr>inbox := show_nat 1 @ ?more\<rparr>) = Some (Inr (?d @ [NUL], length ?d), ?cl\<lparr>inbox := rest\<rparr>)"
    using path(1) req w r(1) n big by (simp add: readFile_def calloc_def METADATA_SIZE_def)
  then have "readFile path (cl\<lparr>inbox := sent_to c ?out @ rest\<rparr>) =
      Some (Inr (?d @ [NUL], length ?d), cl\<lparr>sent := sent cl @ ?b, inbox := rest\<rparr>)"
    unfolding out by (simp add: write_all_def)
  then show ?thesis using sv by blast
qed

theorem client_reads_file_witness:
  "\<exists>b s' out cl'. serve example_env 0 (example_store 0) 5 b = Some (s', out, []) \<and>
     readFile ''/a'' (demo_client (sent_to 5 out)) = Some (Inr (''xx'' @ [NUL], 2), cl')"
proof -
  have f: "a_lookup (f_files (example_fs 0)) ''/a'' = Some file_a" by (simp add: a_lookup_def)
  have g: "granted file_a 5" by (simp add: granted_def)
  have cl: "demo_client []\<lparr>inbox := b @ []\<rparr> = demo_client b" for b by (simp add: demo_client_def)
  show ?thesis
    using client_reads_file [OF example_sim0 example_fs_ok example_conf example_alloc example_caller f g,
      where unset = 0 and cl = "demo_client []" and rest = "[]"]
    unfolding cl by (auto simp: numeral_2_eq_2)
qed

end
