(* ===== verification/ClientCommands.thy ===== *)
theory ClientCommands
  imports Client ClientProps
begin

text \<open>
  Properties of the client program: its check of the commands is enough, the requests its commands send,
  and the limit on the files of a directory.
\<close>

section \<open>Checking the commands\<close>

lemma check_command_Inl: "check_command o1 rest = Inl r \<Longrightarrow> \<exists>b. r = Option_error b"
  by (auto simp: check_command_def target_dir_def Let_def split: if_splits list.splits option.splits prod.splits sum.splits)

lemma runCommands_validate:
  "runCommands env stop True os cl = Some (r, cl') \<Longrightarrow> cl' = cl \<and> (r = Done \<or> (\<exists>b. r = Option_error b))"
proof (induction env stop True os cl rule: runCommands.induct)
  case (2 env stop o1 rest cl)
  show ?case
  proof (cases "check_command o1 rest")
    case (Inl e)
    then show ?thesis using 2(2) check_command_Inl [OF Inl] by auto
  next
    case (Inr t)
    then obtain n d s where "check_command o1 rest = Inr (n, d, s)" by (cases t) auto
    then show ?thesis using 2 by simp
  qed
qed simp

lemma validate_total: "\<exists>r. runCommands env stop True os cl = Some (r, cl)"
proof (induction env stop True os cl rule: runCommands.induct)
  case (2 env stop o1 rest cl)
  then show ?case by (auto split: sum.splits)
qed simp

lemma result_no_option_error [simp]:
  "of_sum_result x \<noteq> (Option_error b, cl)" "of_bool_result y \<noteq> (Option_error b, cl)"
  "fst (of_sum_result x) \<noteq> Option_error b"
  by (auto simp: of_sum_result_def of_bool_result_def split: prod.splits sum.splits)

lemma do_command_no_option_error: "do_command env stop o1 n d cl = Some (r, cl') \<Longrightarrow> r \<noteq> Option_error b"
  by (auto simp: do_command_def Let_def split: if_splits)

lemma validated_run:
  assumes "runCommands env' stop' True os cl' = Some (Done, cl')" and "runCommands env stop False os cl = Some (r, cl'')"
  shows "r \<noteq> Option_error b"
  using assms(2,1)
proof (induction env stop False os cl arbitrary: cl'' rule: runCommands.induct)
  case (2 env stop o1 rest cl)
  obtain n d s where c: "check_command o1 rest = Inr (n, d, s)"
    using 2(3) check_command_Inl [of o1 rest] by (cases "check_command o1 rest") auto
  then obtain r1 cl1 where d: "do_command env stop o1 n d cl = Some (r1, cl1)" using 2(2) by (auto split: bind_splits)
  have v: "runCommands env' stop' True (if s then tl rest else rest) cl' = Some (Done, cl')"
    using 2(3) c by (simp split: if_splits)
  show ?case
  proof (cases "r1 = Done")
    case True
    then have "runCommands env stop False (if s then tl rest else rest) cl1 = Some (r, cl'')"
      using 2(2) c d by (simp split: if_splits)
    from 2(1) [OF c refl refl, unfolded if_False, OF d refl _ this v] show ?thesis using True by simp
  next
    case False
    then have "r = r1" using 2(2) c d by simp
    then show ?thesis using do_command_no_option_error [OF d] by simp
  qed
qed simp

text \<open>
  What a well-formed list of commands is, as the usage message has it: \<open>-w\<close>, \<open>-W\<close> and \<open>-r\<close> with an argument,
  \<open>-R\<close> with a number or without, each followed or not by the directory for the files that come back, \<open>-D\<close>
  after the writes and \<open>-d\<close> after the reads; \<open>-l\<close>, \<open>-u\<close> and \<open>-c\<close> with an argument; and nothing else.
\<close>

definition decimal_number :: "cstring \<Rightarrow> bool" where
  "decimal_number s \<longleftrightarrow> (\<exists>ws sign ds. s = ws @ sign @ ds \<and> list_all is_space ws \<and> sign \<in> {[], ''-'', ''+''} \<and>
     ds \<noteq> [] \<and> list_all is_digit ds \<and>
     (if sign = ''-'' then read_digits ds \<le> 2 ^ 63 else read_digits ds < 2 ^ 63))"

inductive one_command :: "CliOption list \<Rightarrow> bool" where
  send: "c \<in> set ''wW'' \<Longrightarrow> one_command [\<lparr>optchar = c, argument = Some a\<rparr>]"
| send_to: "c \<in> set ''wW'' \<Longrightarrow> one_command [\<lparr>optchar = c, argument = Some a\<rparr>, \<lparr>optchar = CHR ''D'', argument = Some d\<rparr>]"
| fetch: "one_command [\<lparr>optchar = CHR ''r'', argument = Some a\<rparr>]"
| fetch_to: "one_command [\<lparr>optchar = CHR ''r'', argument = Some a\<rparr>, \<lparr>optchar = CHR ''d'', argument = Some d\<rparr>]"
| fetch_n: "(\<forall>a. k = Some a \<longrightarrow> decimal_number a) \<Longrightarrow> one_command [\<lparr>optchar = CHR ''R'', argument = k\<rparr>]"
| fetch_n_to: "(\<forall>a. k = Some a \<longrightarrow> decimal_number a) \<Longrightarrow>
    one_command [\<lparr>optchar = CHR ''R'', argument = k\<rparr>, \<lparr>optchar = CHR ''d'', argument = Some d\<rparr>]"
| on_paths: "c \<in> set ''luc'' \<Longrightarrow> one_command [\<lparr>optchar = c, argument = Some a\<rparr>]"

inductive well_formed_commands :: "CliOption list \<Rightarrow> bool" where
  none: "well_formed_commands []"
| more: "one_command os \<Longrightarrow> well_formed_commands rest \<Longrightarrow> well_formed_commands (os @ rest)"

lemma dropWhile_none: "(c = [] \<or> \<not> P (hd c)) \<Longrightarrow> dropWhile P c = c"
  by (cases c) auto

lemma is_digit_plain: "is_digit c \<Longrightarrow> \<not> is_space c \<and> c \<noteq> CHR ''-'' \<and> c \<noteq> CHR ''+''"
  by (auto simp: is_digit_def is_space_def)

lemma strtol_decimal:
  assumes "list_all is_space ws" and "sign \<in> {[], ''-'', ''+''}" and "ds \<noteq> []" and "list_all is_digit ds"
  shows "strtol (ws @ sign @ ds) = (if sign = ''-'' then - int (read_digits ds) else int (read_digits ds), [])"
proof -
  have d: "is_digit (hd ds)" using assms(3,4) by (cases ds) auto
  have "\<not> is_space (hd (sign @ ds))" using assms(2) is_digit_plain [OF d] by (auto simp: is_space_def)
  then have t: "dropWhile is_space (ws @ sign @ ds) = sign @ ds"
    using assms(1,3) dropWhile_append2 [of ws is_space "sign @ ds"] by (simp add: list_all_iff dropWhile_none)
  have "dropWhile is_digit ds = []" using assms(4) by (simp add: list_all_iff)
  then show ?thesis using assms(2,3) d is_digit_plain [OF d] by (auto simp: strtol_def t Let_def)
qed

lemma isNumber_decimal: "fst (isNumber s) = 0 \<longleftrightarrow> decimal_number s"
proof
  assume n: "fst (isNumber s) = 0"
  define t where "t = dropWhile is_space s"
  define sg where "sg = (if t \<noteq> [] \<and> (hd t = CHR ''-'' \<or> hd t = CHR ''+'') then [hd t] else [])"
  define u where "u = (if t \<noteq> [] \<and> (hd t = CHR ''-'' \<or> hd t = CHR ''+'') then tl t else t)"
  have tu: "t = sg @ u" by (auto simp: sg_def u_def)
  have s: "s = takeWhile is_space s @ sg @ u" unfolding tu [symmetric] t_def by simp
  have sp: "list_all is_space (takeWhile is_space s)" by (simp add: list_all_iff) (meson set_takeWhileD)
  have sg: "sg \<in> {[], ''-'', ''+''}" by (auto simp: sg_def)
  have ne: "s \<noteq> []" using n by (auto simp: isNumber_def)
  have st: "strtol s = (if u = [] \<or> \<not> is_digit (hd u) then (0, s)
      else (if t \<noteq> [] \<and> hd t = CHR ''-'' then - int (read_digits u) else int (read_digits u), dropWhile is_digit u))"
    unfolding strtol_def Let_def u_def t_def ..
  have u: "u \<noteq> []" "is_digit (hd u)" "dropWhile is_digit u = []"
    using n ne by (auto simp: isNumber_def st split: if_splits)
  then have ds: "list_all is_digit u" by (simp add: list_all_iff dropWhile_eq_Nil_conv)
  have "strtol s = (if sg = ''-'' then - int (read_digits u) else int (read_digits u), [])"
    using strtol_decimal [OF sp sg u(1) ds] s by simp
  then have "if sg = ''-'' then read_digits u \<le> 2 ^ 63 else read_digits u < 2 ^ 63"
    using n ne by (auto simp: isNumber_def long_max_def split: if_splits)
  then show "decimal_number s" unfolding decimal_number_def using s sp sg u(1) ds by blast
next
  assume "decimal_number s"
  then obtain ws sign ds where s: "s = ws @ sign @ ds" and d: "list_all is_space ws" "sign \<in> {[], ''-'', ''+''}" "ds \<noteq> []"
    "list_all is_digit ds" and b: "if sign = ''-'' then read_digits ds \<le> 2 ^ 63 else read_digits ds < 2 ^ 63"
    unfolding decimal_number_def by blast
  show "fst (isNumber s) = 0"
    using strtol_decimal [OF d] b d(3) by (auto simp: isNumber_def s long_max_def split: if_splits)
qed

text \<open>The check of one command finds exactly the commands at the head of the list.\<close>

definition next_is :: "char \<Rightarrow> CliOption list \<Rightarrow> bool" where
  "next_is c os \<longleftrightarrow> (case os of [] \<Rightarrow> False | o2 # _ \<Rightarrow> optchar o2 = c)"

lemma target_dir_one:
  "target_dir c rest = Inr (d, True) \<longleftrightarrow> (\<exists>a os. d = Some a \<and> rest = \<lparr>optchar = c, argument = Some a\<rparr> # os)"
  "target_dir c rest = Inr (d, False) \<longleftrightarrow> \<not> next_is c rest \<and> d = None"
  by (cases rest; cases "hd rest"; auto simp: target_dir_def next_is_def split: option.splits)+

lemma with_dir:
  assumes "target_dir c rest = Inr (d, skip)" and "one_command [o1]"
    and "\<And>a. one_command [o1, \<lparr>optchar = c, argument = Some a\<rparr>]"
  shows "if skip then \<exists>o2 os. rest = o2 # os \<and> one_command [o1, o2] else one_command [o1]"
  using assms(2,3) target_dir_one(1) [of c rest d] assms(1) by (cases skip) auto

lemma check_command_one:
  assumes "check_command o1 rest = Inr (n, d, skip)"
  shows "if skip then \<exists>o2 os. rest = o2 # os \<and> one_command [o1, o2] else one_command [o1]"
proof -
  obtain c a where o1: "o1 = \<lparr>optchar = c, argument = a\<rparr>" by (cases o1) auto
  consider "c \<in> set ''wW''" | "c = CHR ''r''" | "c = CHR ''R''" | "c \<in> set ''luc''"
    using assms by (fastforce simp: o1 check_command_def Let_def split: if_splits)
  then show ?thesis
  proof cases
    case 1
    then have "a \<noteq> None" "target_dir CHR ''D'' rest = Inr (d, skip)"
      using assms by (auto simp: o1 check_command_def Let_def split: if_splits sum.splits)
    then show ?thesis using 1 by (intro with_dir) (auto simp: o1 intro: one_command.intros)
  next
    case 2
    then have "a \<noteq> None" "target_dir CHR ''d'' rest = Inr (d, skip)"
      using assms by (auto simp: o1 check_command_def Let_def split: if_splits sum.splits)
    then show ?thesis using 2 by (intro with_dir) (auto simp: o1 intro: one_command.intros)
  next
    case 3
    then have "\<forall>s. a = Some s \<longrightarrow> decimal_number s" "target_dir CHR ''d'' rest = Inr (d, skip)"
      using assms by (auto simp: o1 check_command_def Let_def simp flip: isNumber_decimal split: if_splits sum.splits prod.splits option.splits)
    then show ?thesis using 3 by (intro with_dir) (auto simp: o1 intro: one_command.intros)
  next
    case 4
    then have "a \<noteq> None" "\<not> skip" using assms by (auto simp: o1 check_command_def Let_def split: if_splits)
    then show ?thesis using 4 by (auto simp: o1 intro: one_command.intros)
  qed
qed

lemma one_command_check:
  assumes "one_command os" and nxt: "\<not> next_is CHR ''D'' rest" "\<not> next_is CHR ''d'' rest"
  shows "\<exists>o1 os' n d skip. os = o1 # os' \<and> check_command o1 (os' @ rest) = Inr (n, d, skip) \<and>
    (if skip then tl (os' @ rest) else os' @ rest) = rest"
proof -
  have none: "target_dir CHR ''D'' rest = Inr (None, False)" "target_dir CHR ''d'' rest = Inr (None, False)"
    using nxt by (simp_all add: target_dir_one(2))
  have num: "\<exists>n. (case k of None \<Rightarrow> (0, 0) | Some a \<Rightarrow> isNumber a) = (0, n)" if "\<forall>a. k = Some a \<longrightarrow> decimal_number a" for k
    using that isNumber_decimal by (cases k) (auto simp: prod_eq_iff)
  from assms(1) have "(\<exists>o1 n d. os = [o1] \<and> check_command o1 rest = Inr (n, d, False)) \<or>
      (\<exists>o1 o2 n d. os = [o1, o2] \<and> check_command o1 (o2 # rest) = Inr (n, d, True))"
  proof cases
    case (fetch_n k)
    then obtain n where n: "(case k of None \<Rightarrow> (0, 0) | Some a \<Rightarrow> isNumber a) = (0, n)" using num by blast
    have "check_command \<lparr>optchar = CHR ''R'', argument = k\<rparr> rest = Inr (n, None, False)" by (simp add: check_command_def none n)
    then show ?thesis using fetch_n by blast
  next
    case (fetch_n_to k d)
    then obtain n where n: "(case k of None \<Rightarrow> (0, 0) | Some a \<Rightarrow> isNumber a) = (0, n)" using num by blast
    have "check_command \<lparr>optchar = CHR ''R'', argument = k\<rparr> (\<lparr>optchar = CHR ''d'', argument = Some d\<rparr> # rest) = Inr (n, Some d, True)"
      by (simp add: check_command_def target_dir_def n)
    then show ?thesis using fetch_n_to by blast
  qed (auto simp: check_command_def target_dir_def [of _ "_ # _"] none)
  then show ?thesis by fastforce
qed

lemma well_formed_next: "well_formed_commands os \<Longrightarrow> \<not> next_is CHR ''D'' os \<and> \<not> next_is CHR ''d'' os"
  by (induction rule: well_formed_commands.induct) (auto simp: next_is_def elim!: one_command.cases)

lemma validate_well_formed:
  "well_formed_commands os \<Longrightarrow> runCommands env stop True os cl = Some (Done, cl)"
proof (induction rule: well_formed_commands.induct)
  case (more os rest)
  obtain o1 os' n d skip where o: "os = o1 # os'" "check_command o1 (os' @ rest) = Inr (n, d, skip)"
    "(if skip then tl (os' @ rest) else os' @ rest) = rest"
    using one_command_check [OF more(1)] well_formed_next [OF more(2)] by blast
  then show ?case using more(3) by simp
qed simp

lemma well_formed_validate:
  "runCommands env stop True os cl = Some (Done, cl') \<Longrightarrow> well_formed_commands os"
proof (induction env stop True os cl rule: runCommands.induct)
  case (2 env stop o1 rest cl)
  obtain n d skip where c: "check_command o1 rest = Inr (n, d, skip)"
    using 2(2) check_command_Inl [of o1 rest] by (cases "check_command o1 rest") auto
  then have "well_formed_commands (if skip then tl rest else rest)" using 2 by (auto split: if_splits)
  then show ?case using check_command_one [OF c] well_formed_commands.more [of "[o1]" rest] well_formed_commands.more [of "[o1, hd rest]" "tl rest"]
    by (auto split: if_splits)
qed (rule well_formed_commands.none)

text \<open>C34: The client checks its commands before it runs them. The check ends, touches neither the connection
  nor the disk, and passes exactly the well-formed lists of commands: every option is a known one, with its
  argument where it needs one, with a number for \<open>-R\<close>, and \<open>-D\<close> and \<open>-d\<close> only after the writes and the reads;
  on any other list it ends with a wrong option. Running a list that passed, whatever the server and the
  system answer, does not end with a wrong option. What is inside the argument of \<open>-w\<close> is not part of the
  check: a \<open>-w\<close> without a number of files, or with one that is no number, passes it and fails with \<open>EINVAL\<close> when
  it is run, which counts here as a call that failed.\<close>

theorem checked_commands_are_well_formed:
  "(\<exists>r. runCommands env stop True os cl = Some (r, cl) \<and> (r = Done \<longleftrightarrow> well_formed_commands os) \<and>
      (r = Done \<or> (\<exists>b. r = Option_error b))) \<and>
   (well_formed_commands os \<longrightarrow>
      (\<forall>env' stop' cl1 r cl2. runCommands env' stop' False os cl1 = Some (r, cl2) \<longrightarrow> (\<forall>b. r \<noteq> Option_error b)))"
proof -
  obtain r where r: "runCommands env stop True os cl = Some (r, cl)" using validate_total by blast
  then have "r = Done \<or> (\<exists>b. r = Option_error b)" using runCommands_validate by blast
  moreover have "r = Done \<longleftrightarrow> well_formed_commands os"
    using r well_formed_validate validate_well_formed [of os env stop cl] by auto
  ultimately show ?thesis using r validated_run validate_well_formed by metis
qed

definition demo_env :: client_env where
  "demo_env = \<lparr>sys = no_errors, realpath = (\<lambda>p. Some (CHR ''/'' # p)),
     opendir = (\<lambda>p. Inr [(''.'', Plain), (''a'', Plain), (''sub'', Dir [(''a'', Plain)])]), attempts = [(None, 0)], start_time = 0\<rparr>"

definition demo_options :: "CliOption list" where
  "demo_options = [\<lparr>optchar = CHR ''l'', argument = Some '',''\<rparr>, \<lparr>optchar = CHR ''R'', argument = Some ''x''\<rparr>]"

theorem checked_commands_are_well_formed_witness:
  "runCommands demo_env NUL True (take 1 demo_options) (demo_client []) = Some (Done, demo_client []) \<and>
   (\<exists>r cl. runCommands demo_env NUL False (take 1 demo_options) (demo_client []) = Some (r, cl) \<and> r \<noteq> Option_error True) \<and>
   runCommands demo_env NUL True demo_options (demo_client []) = Some (Option_error False, demo_client []) \<and>
   \<not> well_formed_commands demo_options"
proof -
  have w: "well_formed_commands (take 1 demo_options)"
    using well_formed_commands.more [OF one_command.on_paths [of "CHR ''l''" "'',''"] well_formed_commands.none]
    by (simp add: demo_options_def)
  have r: "runCommands demo_env NUL False (take 1 demo_options) (demo_client []) = Some (Done, demo_client [])"
    by (simp add: demo_options_def check_command_def do_command_def of_bool_result_def tokens.simps strtok_r_def)
  have "isNumber ''x'' = (1, 0)" by code_simp
  then have e: "runCommands demo_env NUL True demo_options (demo_client []) = Some (Option_error False, demo_client [])"
    by (simp add: demo_options_def check_command_def)
  show ?thesis
    using w r e checked_commands_are_well_formed [of demo_env NUL "take 1 demo_options" "demo_client []"]
      checked_commands_are_well_formed [of demo_env NUL demo_options "demo_client []"] by auto
qed

text \<open>The usage message allows \<open>-w dirname\<close> alone; the check passes it, and running it fails with \<open>EINVAL\<close>.\<close>

lemma w_needs_a_number:
  assumes "fromDir \<noteq> []" and "CHR '','' \<notin> set fromDir"
  shows "well_formed_commands [\<lparr>optchar = CHR ''w'', argument = Some fromDir\<rparr>]"
    and "smallwHandler env fromDir dirname cl = Some (Inl EINVAL, cl)"
proof -
  show "well_formed_commands [\<lparr>optchar = CHR ''w'', argument = Some fromDir\<rparr>]"
    using well_formed_commands.more [OF one_command.send [of "CHR ''w''" fromDir] well_formed_commands.none] by simp
  have "strtok_r fromDir '','' = (Some fromDir, [])"
  proof -
    obtain a cs where f: "fromDir = a # cs" using assms(1) by (cases fromDir) auto
    have "dropWhile (\<lambda>c. c \<in> set '','') fromDir = fromDir" "takeWhile (\<lambda>c. c \<notin> set '','') fromDir = fromDir"
      "dropWhile (\<lambda>c. c \<notin> set '','') fromDir = []"
      using assms(2) by (auto simp: f takeWhile_eq_all_conv)
    then show ?thesis by (simp only: strtok_r_def) (simp add: f)
  qed
  moreover have "strtok_r [] '','' = (None, [])" by (simp add: strtok_r_def)
  ultimately show "smallwHandler env fromDir dirname cl = Some (Inl EINVAL, cl)" by (simp add: smallwHandler_def)
qed

text \<open>When an option lacks its argument, the check frees the options, and \<open>main\<close> frees them again.\<close>

lemma missing_argument_frees_twice:
  "client_main env (\<lambda>_. True) stop [''./client'', ''-f'', ''sock'', ''-W''] cl = None"
  by (simp add: client_main_def parseCli_def starts_with_hyphen_def option_char_def allocOption_def addArgumentToLastOpt_def
      general_options_def pop_once_def check_command_def)

section \<open>The requests of a command\<close>

lemma file_request_answer:
  assumes "2 \<le> code" "code \<le> 9" and "path \<noteq> []" and "length path < 10 ^ 10"
    and "inbox cl = show_nat k @ rest" and "1 \<le> k" "k \<le> 7"
  shows "file_request NUL code path cl =
    Some (if k = 1 then Inr 0 else Inl EBADE,
          cl\<lparr>sent := sent cl @ show_int code @ pad10 (length path) @ path, inbox := rest\<rparr>)"
proof -
  let ?b = "show_int code @ pad10 (length path) @ path"
  have "length ?b + 1 = REQ_CODE_LEN + METADATA_SIZE + length path + 1"
    using request_code(1) [of code] length_pad10 [OF assms(4)] assms(1,2) by (simp add: REQ_CODE_LEN_def METADATA_SIZE_def)
  note req = request_block_exact(1) [OF this]
  have "inbox (write_all ?b cl) = show_nat k @ rest" using assms(5) by simp
  from wait_answer [OF this assms(6,7)] show ?thesis
    using assms(3) req by (simp add: file_request_def write_all_def)
qed

text \<open>Several requests on one connection.\<close>

fun decode_many :: "nat \<Rightarrow> char list \<Rightarrow> (request list \<times> char list) option" where
  "decode_many 0 b = Some ([], b)"
| "decode_many (Suc n) b =
     (case decode b of
        None \<Rightarrow> None
      | Some (q, b) \<Rightarrow> (case decode_many n b of None \<Rightarrow> None | Some (qs, b) \<Rightarrow> Some (q # qs, b)))"

definition request_name_ok :: "cstring \<Rightarrow> bool" where
  "request_name_ok f \<longleftrightarrow> f \<noteq> [] \<and> NUL \<notin> set f \<and> CHR '','' \<notin> set f \<and> length f < 10 ^ 10"

definition answers_ok :: "nat list \<Rightarrow> bool" where
  "answers_ok ks \<longleftrightarrow> (\<forall>k \<in> set ks. 1 \<le> k \<and> k \<le> 7)"

lemma multiarg_sends:
  assumes "2 \<le> code" "code \<le> 9" and "list_all request_name_ok files" and "answers_ok ks" and "length ks = length files"
    and "inbox cl = concat (map show_nat ks) @ rest" and "\<And>f rest. f \<in> set files \<Longrightarrow> decode_file code f rest = Some (q f, rest)"
  shows "\<exists>b. MULTIARG_API_WRAPPER (file_request NUL code) files cl = Some (True, cl\<lparr>sent := sent cl @ b, inbox := rest\<rparr>) \<and>
    decode_many (length files) b = Some (map q files, [])"
  using assms(3-)
proof (induction files arbitrary: cl ks)
  case Nil
  then show ?case by (intro exI [of _ "[]"]) simp
next
  case (Cons f files)
  then obtain k ks' where ks: "ks = k # ks'" by (cases ks) auto
  have f: "f \<noteq> []" "NUL \<notin> set f" "length f < 10 ^ 10" and k: "1 \<le> k" "k \<le> 7"
    using Cons.prems(1,2) ks by (simp_all add: request_name_ok_def answers_ok_def)
  let ?b = "show_int code @ pad10 (length f) @ f" and ?more = "concat (map show_nat ks') @ rest"
  let ?cl = "cl\<lparr>sent := sent cl @ ?b, inbox := ?more\<rparr>"
  have "inbox cl = show_nat k @ ?more" using Cons.prems(4) ks by simp
  note r = file_request_answer [OF assms(1,2) f(1,3) this k]
  have hyps: "list_all request_name_ok files" "answers_ok ks'" "length ks' = length files"
    using Cons.prems(1-3) ks by (simp_all add: answers_ok_def)
  have "inbox ?cl = ?more" by simp
  from Cons.IH [OF hyps this Cons.prems(5)] obtain b' where
    b': "MULTIARG_API_WRAPPER (file_request NUL code) files ?cl = Some (True, ?cl\<lparr>sent := sent ?cl @ b', inbox := rest\<rparr>)"
    "decode_many (length files) b' = Some (map q files, [])" by auto
  have "decode (?b @ b') = Some (q f, b')"
    using decode_sent [OF assms(1,2) f(3,2), of b'] Cons.prems(5) [of f b'] by simp
  then have "decode_many (length (f # files)) (?b @ b') = Some (map q (f # files), [])" using b'(2) by simp
  moreover have "MULTIARG_API_WRAPPER (file_request NUL code) (f # files) cl =
      Some (True, cl\<lparr>sent := sent cl @ ?b @ b', inbox := rest\<rparr>)"
    using r b'(1) by (simp add: ignored_def)
  ultimately show ?case by blast
qed

definition path_request :: "char \<Rightarrow> cstring \<Rightarrow> request" where
  "path_request c f = (if c = CHR ''l'' then Lock f else if c = CHR ''u'' then Unlock f else Remove f)"

lemma lock_unlock_remove:
  "lockFile = file_request NUL LOCK_FILE" "unlockFile = file_request NUL UNLOCK_FILE"
  "removeFile NUL = file_request NUL REMOVE_FILE"
  by (simp_all add: fun_eq_iff lockFile_def unlockFile_def removeFile_def)

text \<open>C35: What the commands \<open>-l\<close>, \<open>-u\<close> and \<open>-c\<close> ask for. With a list of names separated by commas, the client
  sends one request for each name, in order, and reads one answer for each: the server decodes exactly the
  locks, unlocks or removals of these names, and a refusal of one of them does not stop the others. For \<open>-c\<close>
  this needs the byte of its answer that \<open>removeFile\<close> does not initialise to be 0.\<close>

theorem command_sends_requests:
  assumes "c \<in> set ''luc''" and "list_all request_name_ok files" and "answers_ok ks" and "length ks = length files"
    and "inbox cl = concat (map show_nat ks) @ rest" and "c = CHR ''c'' \<longrightarrow> stop = NUL"
  shows "\<exists>b. runCommands env stop False [\<lparr>optchar = c, argument = Some (separated CHR '','' files)\<rparr>] cl =
      Some (Done, cl\<lparr>sent := sent cl @ b, inbox := rest\<rparr>) \<and>
    decode_many (length files) b = Some (map (path_request c) files, [])"
proof -
  let ?code = "if c = CHR ''l'' then LOCK_FILE else if c = CHR ''u'' then UNLOCK_FILE else REMOVE_FILE"
  have code: "2 \<le> ?code" "?code \<le> 9" by (simp_all add: LOCK_FILE_def UNLOCK_FILE_def REMOVE_FILE_def)
  have "decode_file ?code f rest = Some (path_request c f, rest)" for f rest
    by (simp add: decode_file_def request_codes path_request_def)
  from multiarg_sends [OF code assms(2-5) this] obtain b where
    b: "MULTIARG_API_WRAPPER (file_request NUL ?code) files cl = Some (True, cl\<lparr>sent := sent cl @ b, inbox := rest\<rparr>)"
    "decode_many (length files) b = Some (map (path_request c) files, [])" by blast
  have t: "tokens '','' (separated CHR '','' files) = files"
    using assms(2) by (intro tokens_separated) (simp add: list_all_iff request_name_ok_def)
  let ?o = "\<lparr>optchar = c, argument = Some (separated CHR '','' files)\<rparr>"
  have "c = CHR ''l'' \<or> c = CHR ''u'' \<or> c = CHR ''c''" using assms(1) by auto
  then have "check_command ?o [] = Inr (0, None, False)"
    and "do_command env stop ?o 0 None cl = map_option of_bool_result (MULTIARG_API_WRAPPER (file_request NUL ?code) files cl)"
    using assms(6) by (elim disjE; simp add: check_command_def do_command_def lock_unlock_remove t)+
  then have "runCommands env stop False [?o] cl = Some (Done, cl\<lparr>sent := sent cl @ b, inbox := rest\<rparr>)"
    using b(1) by (simp add: of_bool_result_def)
  then show ?thesis using b(2) by blast
qed

theorem command_sends_requests_witness:
  "\<exists>b. runCommands demo_env NUL False [\<lparr>optchar = CHR ''l'', argument = Some ''/a,/b''\<rparr>] (demo_client ''31'') =
     Some (Done, demo_client []\<lparr>sent := b\<rparr>) \<and> decode_many 2 b = Some ([Lock ''/a'', Lock ''/b''], [])"
proof -
  have l: "list_all request_name_ok [''/a'', ''/b'']" by (simp add: request_name_ok_def)
  have s: "separated CHR '','' [''/a'', ''/b''] = ''/a,/b''" by simp
  have "''31'' = concat (map show_nat [3, 1]) @ []" by code_simp
  then have "inbox (demo_client ''31'') = concat (map show_nat [3, 1]) @ []" by (simp only: demo_client_def client.simps)
  from command_sends_requests [OF _ l _ _ this, of "CHR ''l''" NUL demo_env] show ?thesis
    unfolding s by (auto simp: answers_ok_def path_request_def demo_client_def numeral_2_eq_2)
qed

section \<open>The limit on the files of a directory\<close>

lemma int_of_long_le: "n < 2 ^ 31 \<Longrightarrow> int_of_long (int n) = int n"
  by (rule int_of_long_small) simp_all

text \<open>The files below a directory, in the order in which they are met.\<close>

fun files_below :: "cstring \<Rightarrow> (cstring \<times> fs_node) list \<Rightarrow> cstring list" where
  "files_below fromDir [] = []"
| "files_below fromDir ((name, node) # entries) =
     (if name = ''.'' \<or> name = ''..'' then []
      else let filePathname = fromDir @ CHR ''/'' # name in
        (case node of Dir es \<Rightarrow> files_below filePathname es | _ \<Rightarrow> [filePathname])) @ files_below fromDir entries"

text \<open>One after the other, these files were sent, or refused by the server.\<close>

inductive sends_files :: "client_env \<Rightarrow> cstring option \<Rightarrow> cstring list \<Rightarrow> client \<Rightarrow> client \<Rightarrow> bool" for env dirname where
  no_more: "sends_files env dirname [] cl cl"
| sent: "send_file env (O_CREATE OR O_LOCK) dirname path cl = Some (Inr u, cl1) \<Longrightarrow> sends_files env dirname paths cl1 cl' \<Longrightarrow>
    sends_files env dirname (path # paths) cl cl'"

lemma sends_files_append: "sends_files env d ps cl cl1 \<Longrightarrow> sends_files env d qs cl1 cl2 \<Longrightarrow> sends_files env d (ps @ qs) cl cl2"
  by (induction rule: sends_files.induct) (auto intro: sends_files.intros)

lemma visit_loop_sends:
  assumes "visit_loop env dirname fromDir upTo fileCount es cl = Some (Inr n, cl')" and "0 < upTo" and "upTo < 2 ^ 31"
    and "fileCount \<le> upTo"
  shows "\<exists>paths. sends_files env dirname paths cl cl' \<and> n = int (fileCount + length paths) \<and> fileCount + length paths \<le> upTo \<and>
    map (realpath env) (take (upTo - fileCount) (files_below fromDir es)) = map Some paths"
  using assms
proof (induction env dirname fromDir upTo fileCount es cl arbitrary: n cl' rule: visit_loop.induct)
  case (1 env dirname fromDir upTo fileCount cl)
  then show ?case using int_of_long_le [of fileCount] by (auto intro: sends_files.intros)
next
  case (2 env dirname fromDir upTo fileCount nm node entries cl)
  note step = visit_loop.simps(2) [of env dirname fromDir upTo fileCount nm node entries cl]
  show ?case
  proof (cases "upTo \<le> fileCount")
    case True
    then show ?thesis using 2(5-) int_of_long_le [of fileCount] by (auto simp: step intro: sends_files.intros)
  next
    case False
    then have lt: "fileCount < upTo" "\<not> (upTo \<noteq> 0 \<and> upTo \<le> fileCount)" by simp_all
    then have add: "size_add fileCount 1 = fileCount + 1" using 2(7) by (simp add: size_add_small size_max_def)
    have sub: "size_sub upTo fileCount = upTo - fileCount" using lt 2(7) by (simp add: size_sub_small size_max_def)
    show ?thesis
    proof (cases "nm = ''.'' \<or> nm = ''..''")
      case True
      then show ?thesis using 2(1) [OF lt(2) True] 2(5-) lt(2) by (simp add: step)
    next
      case dots: False
      let ?p = "fromDir @ CHR ''/'' # nm"
      show ?thesis
      proof (cases node)
        case Plain
        obtain q cl1 where q: "realpath env ?p = Some q" "send_file env (O_CREATE OR O_LOCK) dirname q cl = Some (Inr (), cl1)"
          and r: "visit_loop env dirname fromDir upTo (fileCount + 1) entries cl1 = Some (Inr n, cl')"
          using 2(5) lt(2) dots Plain add by (auto simp: step Let_def split: option.splits sum.splits)
        have "\<exists>paths. sends_files env dirname paths cl1 cl' \<and> n = int (fileCount + 1 + length paths) \<and> fileCount + 1 + length paths \<le> upTo \<and>
            map (realpath env) (take (upTo - (fileCount + 1)) (files_below fromDir entries)) = map Some paths"
          using 2(2) [OF lt(2) dots refl Plain q(1) q(2) refl refl, unfolded add, OF r 2(6,7)] lt(1) by simp
        then obtain paths where ps: "sends_files env dirname paths cl1 cl'" "n = int (fileCount + 1 + length paths)"
          "fileCount + 1 + length paths \<le> upTo"
          "map (realpath env) (take (upTo - (fileCount + 1)) (files_below fromDir entries)) = map Some paths" by blast
        have "take (upTo - fileCount) (files_below fromDir ((nm, node) # entries)) =
            ?p # take (upTo - (fileCount + 1)) (files_below fromDir entries)"
          using dots Plain lt(1) by (simp add: take_Cons' Let_def)
        then show ?thesis using ps q sends_files.sent [OF q(2) ps(1)] by (intro exI [of _ "q # paths"]) simp
      next
        case (Dir sub_es)
        obtain m cl1 where v: "visit_loop env dirname ?p (upTo - fileCount) 0 sub_es cl = Some (Inr m, cl1)"
          using 2(5) lt(2) dots Dir sub by (auto simp: step Let_def split: option.splits sum.splits)
        then have v': "visit_loop env dirname ?p (size_sub upTo fileCount) 0 sub_es cl = Some (Inr m, cl1)" by (simp add: sub)
        obtain ps where ps: "sends_files env dirname ps cl cl1" "m = int (length ps)" "length ps \<le> upTo - fileCount"
          "map (realpath env) (take (upTo - fileCount) (files_below ?p sub_es)) = map Some ps"
        proof -
          have "0 < upTo - fileCount" "upTo - fileCount < 2 ^ 31" using lt(1) 2(7) by simp_all
          from 2(3) [OF lt(2) dots refl Dir, unfolded sub, OF v this] show ?thesis using that by auto
        qed
        have md: "(int fileCount + m) mod 2 ^ 64 = int (fileCount + length ps)"
          using lt 2(7) ps(2,3) by (simp add: mod_pos_pos_trivial)
        have ne: "m \<noteq> - 1" using ps(2) by simp
        have r: "visit_loop env dirname fromDir upTo (fileCount + length ps) entries cl1 = Some (Inr n, cl')"
          using 2(5) False dots Dir v md ne sub by (simp add: step Let_def nat_int_add)
        have le: "fileCount + length ps \<le> upTo" using ps(3) lt(1) by simp
        obtain qs where qs: "sends_files env dirname qs cl1 cl'" "n = int (fileCount + length ps + length qs)"
          "fileCount + length ps + length qs \<le> upTo"
          "map (realpath env) (take (upTo - (fileCount + length ps)) (files_below fromDir entries)) = map Some qs"
          using 2(4) [OF lt(2) dots refl Dir v' refl refl ne, unfolded md nat_int, OF r 2(6,7) le] by blast
        have len: "length ps = min (upTo - fileCount) (length (files_below ?p sub_es))"
          using arg_cong [OF ps(4), of length] by simp
        have "map (realpath env) (take (upTo - fileCount) (files_below fromDir ((nm, node) # entries))) =
            map (realpath env) (take (upTo - fileCount) (files_below ?p sub_es)) @
            map (realpath env) (take (upTo - fileCount - length (files_below ?p sub_es)) (files_below fromDir entries))"
          using dots Dir by (simp add: Let_def)
        also have "take (upTo - fileCount - length (files_below ?p sub_es)) (files_below fromDir entries) =
            take (upTo - (fileCount + length ps)) (files_below fromDir entries)"
          using len by (simp add: min_def)
        finally show ?thesis
          using ps(4) qs sends_files_append [OF ps(1) qs(1)] by (intro exI [of _ "ps @ qs"]) simp
      qed (use 2(5) False dots in \<open>simp_all add: step Let_def\<close>)
    qed
  qed
qed

text \<open>C36: \<open>-w dir,n\<close> sends exactly the first \<open>n\<close> files of the directory tree. When the visit of a tree with a
  limit ends normally, the files sent, or refused by the server, one after the other, are the first ones
  of the tree up to the limit, in the order in which they are met and however deep they are, each under its
  real path; the number returned is their number, and at most the limit.\<close>

theorem visit_within_limit:
  assumes "opendir env fromDir = Inr es" and "visitDirAndWrite env fromDir dirname upTo cl = Some (Inr n, cl')"
    and "0 < upTo" and "upTo < 2 ^ 31"
  shows "\<exists>paths. sends_files env dirname paths cl cl' \<and> n = int (length paths) \<and> length paths \<le> upTo \<and>
    map (realpath env) (take upTo (files_below fromDir es)) = map Some paths"
  using visit_loop_sends [OF _ assms(3,4), of env dirname fromDir 0 es cl n cl'] assms(1,2) by (simp add: visitDirAndWrite_def)

text \<open>A refused file counts too: here the server answers the first request of both files with an error.\<close>

lemma refused_open:
  assumes "path \<noteq> []" and "inbox cl = show_nat k @ rest" and "2 \<le> k" "k \<le> 7"
  shows "\<exists>b. send_file env flags dirname path cl = Some (Inr (), cl\<lparr>sent := sent cl @ b, inbox := rest\<rparr>)"
proof -
  let ?b = "request_block (REQ_CODE_LEN + METADATA_SIZE + OPEN_FLAG_LEN + length path + 1)
    (show_int OPEN_FILE @ pad10 (length path) @ path @ show_int flags)"
  have "inbox (write_all ?b cl) = show_nat k @ rest" using assms(2) by simp
  from wait_answer [OF this _ assms(4)] assms(1,3) have "openFile path flags cl =
      Some (Inl EBADE, cl\<lparr>sent := sent cl @ ?b, inbox := rest\<rparr>)"
    by (simp add: openFile_def write_all_def Let_def)
  then show ?thesis by (auto simp: send_file_def)
qed

theorem visit_within_limit_witness:
  "\<exists>cl'. visitDirAndWrite demo_env ''d'' None 2 (demo_client ''77'') = Some (Inr 2, cl') \<and>
     sends_files demo_env None [''/d/a'', ''/d/sub/a''] (demo_client ''77'') cl'"
proof -
  let ?c = "demo_client ''77''"
  have i: "show_nat 7 = ''7''" by code_simp
  have "inbox ?c = show_nat 7 @ ''7''" by (simp add: demo_client_def i)
  then obtain b where 1: "send_file demo_env (O_CREATE OR O_LOCK) None ''/d/a'' ?c = Some (Inr (), ?c\<lparr>sent := sent ?c @ b, inbox := ''7''\<rparr>)"
    using refused_open [of "''/d/a''" ?c 7 "''7''"] by fastforce
  let ?c1 = "?c\<lparr>sent := sent ?c @ b, inbox := ''7''\<rparr>"
  have "inbox ?c1 = show_nat 7 @ []" by (simp add: i)
  then obtain b' where 2: "send_file demo_env (O_CREATE OR O_LOCK) None ''/d/sub/a'' ?c1 = Some (Inr (), ?c1\<lparr>sent := sent ?c1 @ b', inbox := []\<rparr>)"
    using refused_open [of "''/d/sub/a''" ?c1 7 "[]"] by fastforce
  have env: "opendir demo_env ''d'' = Inr [(''.'', Plain), (''a'', Plain), (''sub'', Dir [(''a'', Plain)])]"
    "realpath demo_env ''d/a'' = Some ''/d/a''" "realpath demo_env ''d/sub/a'' = Some ''/d/sub/a''"
    by (simp_all add: demo_env_def)
  have arith: "size_add 0 1 = 1" "size_sub 2 1 = 1" "int_of_long 1 = 1" "int_of_long 2 = 2" "nat ((1 + 1) mod 2 ^ 64) = 2"
    by (simp_all add: size_add_small size_sub_small size_max_def int_of_long_small)
  obtain cl' where v: "visitDirAndWrite demo_env ''d'' None 2 ?c = Some (Inr 2, cl')"
    using 1 2 env arith by (simp add: visitDirAndWrite_def)
  have "files_below ''d'' [(''.'', Plain), (''a'', Plain), (''sub'', Dir [(''a'', Plain)])] = [''d/a'', ''d/sub/a'']" by simp
  then obtain paths where "sends_files demo_env None paths ?c cl'" "map Some paths = [Some ''/d/a'', Some ''/d/sub/a'']"
    using visit_within_limit [OF env(1) v] env(2,3) by (simp only: list.map take_Cons_numeral pred_numeral_simps) auto
  then show ?thesis using v by auto
qed

section \<open>A connection that ends early\<close>

lemma read_into_end: "inbox cl = [] \<Longrightarrow> read_into buf cl n = (buf, cl)"
  by (simp add: read_into_def)

lemma storeFiles_loop_end:
  "storeFiles_loop z dirname buf k cl = Some res \<Longrightarrow> \<not> (dirname = None \<and> inbox cl = [] \<and> 0 < atol (c_string buf))"
  apply (erule storeFiles_loop.raw_induct
    [where P = "\<lambda>z dirname buf k cl res. \<not> (dirname = None \<and> inbox cl = [] \<and> 0 < atol (c_string buf))", rotated])
  subgoal premises step for f z dirname buf k cl res
    using step(2)
    by (auto simp: Let_def read_into_end room_def split: bind_splits if_splits option.splits dest!: step(1))
  done

text \<open>When the server goes away in the middle of its answer, \<open>storeFiles\<close> does not end: at the end of the
  stream \<open>readn\<close> leaves the last length in the buffer, and the loop takes it again and again.\<close>

lemma storeFiles_hangs:
  assumes "inbox cl = pad10 n" and "0 < n" and "n < 10 ^ 10"
  shows "storeFiles z None cl = None"
proof (rule ccontr)
  assume "storeFiles z None cl \<noteq> None"
  then obtain res where r: "storeFiles_loop z None (calloc METADATA_SIZE) 0 cl = Some res" by (auto simp: storeFiles_def)
  have "inbox cl = pad10 n @ []" "length (calloc METADATA_SIZE) = 10" using assms(1) by (simp_all add: METADATA_SIZE_def)
  note b = read_length [OF this(1) assms(3) this(2)]
  have "storeFiles_loop z None (pad10 n) 1 (cl\<lparr>inbox := []\<rparr>) = Some res"
    using r b(1,2) assms(2) by (subst (asm) storeFiles_loop.simps) (simp add: room_def read_into_end)
  from storeFiles_loop_end [OF this] show False using b(2) assms(2) by simp
qed

end
