(* ===== verification/ClientStore.thy ===== *)
theory ClientStore
  imports ClientCommands System
begin

text \<open>
  The client and the server together: sending a file (\<open>-W\<close>, \<open>-w\<close>) opens, writes and closes it, each
  request served by a worker, and leaves it in the store.
\<close>

section \<open>The client's side\<close>

lemma openFile_answer:
  assumes "path \<noteq> []" and "NUL \<notin> set path" and "length path < 10 ^ 10" and "0 \<le> flags" "flags \<le> 3"
  obtains b where "\<And>rest. decode (b @ rest) = Some (Open path (Some flags), rest)"
    and "\<And>cl k rest. inbox cl = show_nat k @ rest \<Longrightarrow> 1 \<le> k \<Longrightarrow> k \<le> 7 \<Longrightarrow>
      openFile path flags cl = Some (if k = 1 then Inr 0 else Inl EBADE, cl\<lparr>sent := sent cl @ b, inbox := rest\<rparr>)"
proof -
  let ?r = "request_block (REQ_CODE_LEN + METADATA_SIZE + OPEN_FLAG_LEN + length path + 1)
    (show_int OPEN_FILE @ pad10 (length path) @ path @ show_int flags)"
  have open_eq: "openFile path flags cl = wait_for_response NUL (write_all ?r cl)" for cl
    using assms(1) by (simp add: openFile_def Let_def)
  have ans: "openFile path flags cl = Some (if k = 1 then Inr 0 else Inl EBADE, cl\<lparr>sent := sent cl @ ?r, inbox := rest\<rparr>)"
    if "inbox cl = show_nat k @ rest" "1 \<le> k" "k \<le> 7" for cl k rest
    using wait_answer [of "write_all ?r cl" k rest] that by (simp add: open_eq) (simp add: write_all_def)
  have "decode (?r @ rest) = Some (Open path (Some flags), rest)" for rest
  proof -
    let ?cl = "\<lparr>sent = [], inbox = show_nat 1 @ [], disk = \<lparr>made = [], saved = Map.empty\<rparr>, local = (\<lambda>_. Inl ENOENT), PRINTS_ENABLED = False\<rparr>"
    have "openFile path flags ?cl = Some (Inr 0, ?cl\<lparr>sent := sent ?cl @ ?r, inbox := []\<rparr>)"
      using ans [of ?cl 1 "[]"] by simp
    moreover have "sends (openFile path flags ?cl) ?cl (Open path (Some flags))" by (rule openFile_sent [OF assms])
    ultimately show ?thesis by (auto simp: sends_def)
  qed
  then show ?thesis using that ans by blast
qed

lemma writeFile_answer:
  assumes "path \<noteq> []" and "NUL \<notin> set path" and "length path < 10 ^ 10" and "length body < 10 ^ 10"
  obtains b where "\<And>rest. decode (b @ rest) = Some (WriteFile path body, rest)"
    and "\<And>(cl :: client) evs rest. local cl path = Inr body \<Longrightarrow> inbox cl = show_nat 1 @ response evs @ pad10 0 @ rest \<Longrightarrow>
      \<forall>f \<in> set evs. transmissible f \<and> a_path f \<noteq> [] \<Longrightarrow>
      writeFile z path None cl = Some (Inr 0, cl\<lparr>sent := sent cl @ b, inbox := rest\<rparr>)"
proof
  let ?b = "show_int WRITE_FILE @ pad10 (length path) @ path @ pad10 (length body) @ body"
  have two: "2 \<le> WRITE_FILE" "WRITE_FILE \<le> 9" by (simp_all add: WRITE_FILE_def)
  have s: "segment (pad10 (length body) @ body @ rest) = Some (body, rest)" for rest by (rule segment_sent [OF assms(4)])
  show "decode (?b @ rest) = Some (WriteFile path body, rest)" for rest
    using decode_sent [OF two assms(3,2), of "pad10 (length body) @ body @ rest"] s by (simp add: decode_file_def request_codes)
  have req: "content_request WRITE_FILE path body = Some ?b"
    using request_code(1) [of WRITE_FILE] length_pad10 [OF assms(3)] length_pad10 [OF assms(4)] two
    by (simp add: content_request_def REQ_CODE_LEN_def METADATA_SIZE_def Let_def)
  fix cl :: client and evs rest
  assume l: "local cl path = Inr body" and i: "inbox cl = show_nat 1 @ response evs @ pad10 0 @ rest"
    and evs: "\<forall>f \<in> set evs. transmissible f \<and> a_path f \<noteq> []"
  let ?cl = "write_all ?b cl\<lparr>inbox := response evs @ pad10 0 @ rest\<rparr>"
  have w: "wait_for_response NUL (write_all ?b cl) = Some (Inr 0, ?cl)"
    using wait_answer [of "write_all ?b cl" 1 "response evs @ pad10 0 @ rest"] i by simp
  have "save_all z None evs d = Some d" for d by (induction evs) simp_all
  then have "storeFiles z None ?cl = Some (Inr (int (length evs)), ?cl\<lparr>inbox := rest\<rparr>)"
    using storeFiles_all [OF evs, of ?cl rest z None "disk ?cl"] by simp
  then show "writeFile z path None cl = Some (Inr 0, cl\<lparr>sent := sent cl @ ?b, inbox := rest\<rparr>)"
    using assms(1) l req w by (simp add: writeFile_def send_content_def) (simp add: write_all_def)
qed

lemma closeFile_answer:
  assumes "path \<noteq> []" and "NUL \<notin> set path" and "length path < 10 ^ 10"
  obtains b where "\<And>rest. decode (b @ rest) = Some (CloseFile path, rest)"
    and "\<And>cl rest. inbox cl = show_nat 1 @ rest \<Longrightarrow>
      closeFile path cl = Some (Inr 0, cl\<lparr>sent := sent cl @ b, inbox := rest\<rparr>)"
proof
  let ?b = "show_int CLOSE_FILE @ pad10 (length path) @ path"
  have two: "2 \<le> CLOSE_FILE" "CLOSE_FILE \<le> 9" by (simp_all add: CLOSE_FILE_def)
  show "decode (?b @ rest) = Some (CloseFile path, rest)" for rest
    using decode_sent [OF two assms(3,2), of rest] by (simp add: decode_file_def request_codes)
  show "closeFile path cl = Some (Inr 0, cl\<lparr>sent := sent cl @ ?b, inbox := rest\<rparr>)" if "inbox cl = show_nat 1 @ rest" for cl rest
    using file_request_answer [OF two assms(1,3) that] by (simp add: closeFile_def)
qed

lemma sends_file:
  assumes "path \<noteq> []" and "NUL \<notin> set path" and "length path < 10 ^ 10" and "length body < 10 ^ 10"
  obtains b1 b2 b3 where "decode b1 = Some (Open path (Some 3), [])" and "decode b2 = Some (WriteFile path body, [])"
    and "decode b3 = Some (CloseFile path, [])"
    and "\<And>(cl :: client) evs rest. local cl path = Inr body \<Longrightarrow> \<forall>f \<in> set evs. transmissible f \<and> a_path f \<noteq> [] \<Longrightarrow>
      inbox cl = show_nat 1 @ (show_nat 1 @ response evs @ pad10 0) @ show_nat 1 @ rest \<Longrightarrow>
      send_file env (O_CREATE OR O_LOCK) None path cl = Some (Inr (), cl\<lparr>sent := sent cl @ b1 @ b2 @ b3, inbox := rest\<rparr>)"
proof -
  obtain b1 where b1: "\<And>rest. decode (b1 @ rest) = Some (Open path (Some 3), rest)"
    and o1: "\<And>cl k rest. inbox cl = show_nat k @ rest \<Longrightarrow> 1 \<le> k \<Longrightarrow> k \<le> 7 \<Longrightarrow>
      openFile path 3 cl = Some (if k = 1 then Inr 0 else Inl EBADE, cl\<lparr>sent := sent cl @ b1, inbox := rest\<rparr>)"
    using openFile_answer [OF assms(1-3), of 3] by auto
  obtain b2 where b2: "\<And>rest. decode (b2 @ rest) = Some (WriteFile path body, rest)"
    and w2: "\<And>(cl :: client) evs rest. local cl path = Inr body \<Longrightarrow> inbox cl = show_nat 1 @ response evs @ pad10 0 @ rest \<Longrightarrow>
      \<forall>f \<in> set evs. transmissible f \<and> a_path f \<noteq> [] \<Longrightarrow>
      writeFile (sys env) path None cl = Some (Inr 0, cl\<lparr>sent := sent cl @ b2, inbox := rest\<rparr>)"
    using writeFile_answer [OF assms] by blast
  obtain b3 where b3: "\<And>rest. decode (b3 @ rest) = Some (CloseFile path, rest)"
    and c3: "\<And>cl rest. inbox cl = show_nat 1 @ rest \<Longrightarrow>
      closeFile path cl = Some (Inr 0, cl\<lparr>sent := sent cl @ b3, inbox := rest\<rparr>)"
    using closeFile_answer [OF assms(1-3)] by blast
  have flags: "O_CREATE OR O_LOCK = 3" by (simp add: O_CREATE_def O_LOCK_def)
  show ?thesis
  proof
    show "decode b1 = Some (Open path (Some 3), [])" "decode b2 = Some (WriteFile path body, [])" "decode b3 = Some (CloseFile path, [])"
      using b1 [of "[]"] b2 [of "[]"] b3 [of "[]"] by simp_all
    fix cl :: client and evs rest
    assume l: "local cl path = Inr body" and evs: "\<forall>f \<in> set evs. transmissible f \<and> a_path f \<noteq> []"
      and i: "inbox cl = show_nat 1 @ (show_nat 1 @ response evs @ pad10 0) @ show_nat 1 @ rest"
    let ?i2 = "show_nat 1 @ response evs @ pad10 0 @ show_nat 1 @ rest"
    let ?c1 = "cl\<lparr>sent := sent cl @ b1, inbox := ?i2\<rparr>"
    let ?c2 = "?c1\<lparr>sent := sent ?c1 @ b2, inbox := show_nat 1 @ rest\<rparr>"
    have 1: "openFile path 3 cl = Some (Inr 0, ?c1)" using o1 [of cl 1 ?i2] i by simp
    have "local ?c1 path = Inr body" "inbox ?c1 = ?i2" using l by simp_all
    note 2 = w2 [OF this evs]
    have "inbox ?c2 = show_nat 1 @ rest" by simp
    note 3 = c3 [OF this]
    show "send_file env (O_CREATE OR O_LOCK) None path cl = Some (Inr (), cl\<lparr>sent := sent cl @ b1 @ b2 @ b3, inbox := rest\<rparr>)"
      unfolding flags using 1 2 3 by (simp add: send_file_def)
  qed
qed

section \<open>The server's side\<close>

lemma sent_to_simps [simp]:
  "sent_to c (xs @ ys) = sent_to c xs @ sent_to c ys" "sent_to c [] = []" "sent_to c (Pipe m # xs) = sent_to c xs"
  "sent_to c (Send d m # xs) = (if d = c then m else []) @ sent_to c xs" "sent_to c (code_msg d k # xs) = (if d = c then show_nat k else []) @ sent_to c xs"
  "sent_to c (end_msg d # xs) = (if d = c then pad10 0 else []) @ sent_to c xs"
  by (simp_all add: sent_to_def code_msg_def end_msg_def)

lemma sent_to_others: "c \<notin> set ns \<Longrightarrow> sent_to c (notify_out ns k) = []"
  by (induction ns) (auto simp: notify_out_def)

lemma sent_to_evicted: "sent_to c (map (\<lambda>f. Send c (serialize f)) evs) = response evs"
  by (induction evs) (simp_all add: response_def)

lemma spec_open_create:
  assumes "path \<noteq> []" and "0 < c" and "a_lookup (f_files fs) path = None" and "length (f_files fs) < f_maxNum fs" and "mem_ok env"
  obtains fs' where "spec_open env fs path 3 [] c = (Inr 0, [], fs')" and "f_files fs' = f_files fs @ [new_file env path True c]"
    and "limits fs' = limits fs"
proof -
  let ?fs = "spec_add (new_file env path True c) (logged env ''OPEN'' path 0 c 0 fs)"
  have "spec_make_room env c fs [] = (fs, [])" using assms(4) by (simp add: spec_make_room_def)
  then have o: "spec_open env fs path 3 [] c = (Inr 0, [], ?fs)"
    using assms by (simp add: spec_open_def IS_SET_def O_CREATE_def O_LOCK_def)
  have "f_files ?fs = f_files fs @ [new_file env path True c]" by (simp add: spec_add_def logged_def)
  then show ?thesis using that o limits_open [OF o] by blast
qed

lemma lookup_snoc: "a_lookup fs (a_path f) = None \<Longrightarrow> a_lookup (fs @ [f]) (a_path f) = Some f"
  by (induction fs) (auto simp: a_lookup_def split: if_splits)

lemma evicted_paths:
  assumes "fs_ok fs" and "contents (a_remove p gs) + contents evs = contents (a_remove p (f_files fs))" and "f \<in> set evs"
  shows "a_path f \<noteq> []"
proof -
  have "(a_path f, a_data f) \<in># contents evs" using assms(3) by (force simp: contents_def)
  then have "(a_path f, a_data f) \<in># contents (a_remove p (f_files fs))" unfolding assms(2) [symmetric] by simp
  then obtain g where "g \<in> set (f_files fs)" "a_path g = a_path f" by (auto simp: contents_def a_remove_def)
  then show ?thesis using assms(1) by (auto simp: fs_ok_def file_ok_def)
qed

text \<open>The three requests one after the other, on the abstract store.\<close>

lemma spec_send_file:
  assumes ok: "fs_ok fs" and conf: "config_ok fs" and c: "0 < c" and mem: "mem_ok env1"
    and path: "path \<noteq> []" "NUL \<notin> set path" "length path \<le> PATH_LIMIT" and new: "a_lookup (f_files fs) path = None"
    and room: "length (f_files fs) < f_maxNum fs" and body: "body \<noteq> [NUL]" "length (rle_spec body) \<le> f_maxSize fs"
    and w: "c \<notin># waiting fs"
  obtains fs1 fs2 fs3 out1 out2 out3 evs f where "spec_serve env1 unset fs c (Open path (Some 3)) = (fs1, out1)"
    and "spec_serve env2 unset fs1 c (WriteFile path body) = (fs2, out2)"
    and "spec_serve env3 unset fs2 c (CloseFile path) = (fs3, out3)"
    and "fs_ok fs1" "config_ok fs1" "fs_ok fs2" "config_ok fs2"
    and "sent_to c out1 = show_nat 1" and "sent_to c out2 = show_nat 1 @ response evs @ pad10 0" and "sent_to c out3 = show_nat 1"
    and "\<forall>f \<in> set evs. transmissible f \<and> a_path f \<noteq> []"
    and "a_lookup (f_files fs3) path = Some f" and "a_data f = body" and "a_lock f = c" and "a_open f = []"
proof -
  have good: "\<not> bad_input path c" using path c by (simp add: bad_input_def)
  obtain fs1 where o: "spec_open env1 fs path 3 [] c = (Inr 0, [], fs1)" and f1: "f_files fs1 = f_files fs @ [new_file env1 path True c]"
    and l1: "limits fs1 = limits fs" using spec_open_create [OF path(1) c new room mem] by blast
  have ok1: "fs_ok fs1" by (rule fs_ok_open [OF ok path(3,2) o])
  have conf1: "config_ok fs1" using conf config_ok_limits [OF l1] by simp
  have max1: "f_maxSize fs1 = f_maxSize fs" using l1 by (simp add: limits_def)
  let ?f = "new_file env1 path True c"
  have sel: "a_path ?f = path" "a_data ?f = []" "a_lock ?f = c" "a_open ?f = [c]" "a_first ?f = c" "a_wait ?f = []"
    by (simp_all add: new_file_def)
  have lk: "a_lookup (f_files fs1) path = Some ?f" using lookup_snoc [of "f_files fs" ?f] new unfolding f1 sel by simp
  have w1: "waiting fs1 = waiting fs" by (simp add: waiting_def f1 sel)
  have first: "spec_first_write fs1 path c" using good lk sel by (simp add: spec_first_write_def)
  have granted: "granted ?f c" using sel by (simp add: granted_def)
  obtain r notify evs fs2 where wr: "spec_write env2 fs1 path body c = (r, notify, evs, fs2)" using prod_cases4 by blast
  have "f_maxSize (upd path (touch env2) fs1) = f_maxSize fs" using max1 by (simp add: upd_def)
  then have "r = Inr 0" using wr good lk granted body(2) sel by (auto simp: spec_write_def Let_def split: prod.splits)
  note wr = wr [unfolded this]
  obtain f' where f': "a_lookup (f_files fs2) path = Some f'" "a_data f' = body" "a_lock f' = c" "a_open f' = [c]"
    and cont: "contents (a_remove path (f_files fs2)) + contents evs = contents (a_remove path (f_files fs1))"
    and wait: "waiting fs2 + mset notify = waiting fs1"
    using spec_write_ok [OF ok1 wr] lk sel by (metis append_Nil option.inject)
  have nn: "c \<notin> set notify"
  proof
    assume "c \<in> set notify"
    then have "c \<in># waiting fs2 + mset notify" by simp
    then show False using w w1 wait by simp
  qed
  have ok2: "fs_ok fs2" by (rule fs_ok_write [OF ok1 _ wr]) (use body(1) fs_okD [OF ok1] in \<open>auto simp: append_eq_Cons_conv file_ok_def\<close>)
  have conf2: "config_ok fs2" using conf1 config_ok_limits [OF limits_write [OF wr]] by simp
  have evs: "\<forall>f \<in> set evs. transmissible f \<and> a_path f \<noteq> []"
    using spec_write_evicted [OF ok1 conf1 wr] evicted_paths [OF ok1 cont] by blast
  let ?g = "\<lambda>f. (touch env3 f)\<lparr>a_open := remove1 c (a_open f), a_first := 0\<rparr>"
  let ?fs3 = "logged env3 ''CLOSE'' path 0 c 0 (upd path ?g fs2)"
  have cl: "spec_close env3 fs2 path c = (Inr 0, ?fs3)" using good f'(1) by (simp add: spec_close_def)
  have "a_lookup (f_files ?fs3) path = Some (?g f')" using f'(1) by (simp add: logged_def upd_def lookup_update touch_def)
  moreover have "a_data (?g f') = body" "a_lock (?g f') = c" "a_open (?g f') = []" using f' by (simp_all add: touch_def)
  moreover have "spec_serve env1 unset fs c (Open path (Some 3)) = (fs1, [code_msg c 1, Pipe (fd_msg c)])"
    using o by (simp add: spec_serve_def notify_out_def)
  moreover have "spec_serve env2 unset fs1 c (WriteFile path body) =
      (fs2, (code_msg c 1 # notify_out notify 2 @ map (\<lambda>f. Send c (serialize f)) evs @ [end_msg c]) @ [Pipe (fd_msg c)])"
    using first wr by (simp add: spec_serve_def spec_append_def)
  moreover have "spec_serve env3 unset fs2 c (CloseFile path) = (?fs3, [code_msg c 1, Pipe (fd_msg c)])"
    using cl by (simp add: spec_serve_def)
  ultimately show ?thesis
    using that ok1 conf1 ok2 conf2 evs sent_to_others [OF nn] by (simp add: sent_to_evicted)
qed

text \<open>C29: Sending a file, from end to end. When the client sends a local file under a name the server does
  not have yet, and it fits, each of the three requests it sends is served by a worker, the answers make
  the client go on to the next one and end without an error - also when the server evicts files and sends
  them along - and the server then holds the file with exactly the content of the local one, still locked
  by this client and no longer open.\<close>

theorem client_sends_file:
  assumes "sim s xs fs" and "fs_ok fs" and "config_ok fs" and "alloc_ok env1 s" and "mem_ok env1"
    and "caller_ok env1 c" and "caller_ok env2 c" and "caller_ok env3 c" and "c \<notin># waiting fs"
    and "path \<noteq> []" and "NUL \<notin> set path" and "length path \<le> PATH_LIMIT" and "a_lookup (f_files fs) path = None"
    and "length (f_files fs) < f_maxNum fs" and "body \<noteq> [NUL]" and "length (rle_spec body) \<le> f_maxSize fs"
    and "length body < 10 ^ 10" and "local cl path = Inr body"
  shows "\<exists>b1 b2 b3 s1 s2 s3 out1 out2 out3 xs3 fs3 f.
    serve env1 unset s c b1 = Some (s1, out1, []) \<and> serve env2 unset s1 c b2 = Some (s2, out2, []) \<and>
    serve env3 unset s2 c b3 = Some (s3, out3, []) \<and>
    send_file cenv (O_CREATE OR O_LOCK) None path (cl\<lparr>inbox := sent_to c out1 @ sent_to c out2 @ sent_to c out3 @ rest\<rparr>) =
      Some (Inr (), cl\<lparr>sent := sent cl @ b1 @ b2 @ b3, inbox := rest\<rparr>) \<and>
    sim s3 xs3 fs3 \<and> a_lookup (f_files fs3) path = Some f \<and> a_data f = body \<and> a_lock f = c \<and> a_open f = []"
proof -
  have len: "length path < 10 ^ 10" using assms(12) by (simp add: PATH_LIMIT_def)
  have c: "0 < c" using assms(6) by (simp add: caller_ok_def)
  obtain b1 b2 b3 where dec: "decode b1 = Some (Open path (Some 3), [])" "decode b2 = Some (WriteFile path body, [])"
      "decode b3 = Some (CloseFile path, [])"
    and send: "\<And>(cl :: client) evs rest. local cl path = Inr body \<Longrightarrow> \<forall>f \<in> set evs. transmissible f \<and> a_path f \<noteq> [] \<Longrightarrow>
      inbox cl = show_nat 1 @ (show_nat 1 @ response evs @ pad10 0) @ show_nat 1 @ rest \<Longrightarrow>
      send_file cenv (O_CREATE OR O_LOCK) None path cl = Some (Inr (), cl\<lparr>sent := sent cl @ b1 @ b2 @ b3, inbox := rest\<rparr>)"
    by (rule sends_file [OF assms(10,11) len assms(17)]) blast
  obtain fs1 fs2 fs3 out1 out2 out3 evs f where
    sp: "spec_serve env1 unset fs c (Open path (Some 3)) = (fs1, out1)" "spec_serve env2 unset fs1 c (WriteFile path body) = (fs2, out2)"
      "spec_serve env3 unset fs2 c (CloseFile path) = (fs3, out3)"
    and ok: "fs_ok fs1" "config_ok fs1" "fs_ok fs2" "config_ok fs2"
    and out: "sent_to c out1 = show_nat 1" "sent_to c out2 = show_nat 1 @ response evs @ pad10 0" "sent_to c out3 = show_nat 1"
    and evs: "\<forall>f \<in> set evs. transmissible f \<and> a_path f \<noteq> []"
    and f: "a_lookup (f_files fs3) path = Some f" "a_data f = body" "a_lock f = c" "a_open f = []"
    by (rule spec_send_file [OF assms(2,3) c assms(5,10-16,9)]) blast
  have fits: "request_fits unset gs (Open path (Some 3))" "request_fits unset gs (WriteFile path body)"
    "request_fits unset gs (CloseFile path)" for gs using assms(12) by (simp_all add: request_fits_def)
  obtain s1 xs1 where s1: "serve env1 unset s c b1 = Some (s1, out1, [])" "sim s1 xs1 fs1"
    using serve_refines [OF assms(1-3) _ _ assms(6) dec(1) fits(1) sp(1)] assms(4) by blast
  obtain s2 xs2 where s2: "serve env2 unset s1 c b2 = Some (s2, out2, [])" "sim s2 xs2 fs2"
    using serve_refines [OF s1(2) ok(1,2) _ _ assms(7) dec(2) fits(2) sp(2)] by blast
  obtain s3 xs3 where s3: "serve env3 unset s2 c b3 = Some (s3, out3, [])" "sim s3 xs3 fs3"
    using serve_refines [OF s2(2) ok(3,4) _ _ assms(8) dec(3) fits(3) sp(3)] by blast
  let ?cl = "cl\<lparr>inbox := sent_to c out1 @ sent_to c out2 @ sent_to c out3 @ rest\<rparr>"
  have "send_file cenv (O_CREATE OR O_LOCK) None path ?cl = Some (Inr (), cl\<lparr>sent := sent cl @ b1 @ b2 @ b3, inbox := rest\<rparr>)"
    using send [of ?cl evs rest] assms(18) evs by (simp add: out)
  then show ?thesis using s1(1) s2(1) s3 f by blast
qed

theorem client_sends_file_witness:
  "\<exists>s b1 b2 b3 s1 s2 s3 out1 out2 out3 cl'. allocStorage True True True 10 1000 0 = Inr s \<and>
     serve example_env 0 s 5 b1 = Some (s1, out1, []) \<and> serve example_env 0 s1 5 b2 = Some (s2, out2, []) \<and>
     serve example_env 0 s2 5 b3 = Some (s3, out3, []) \<and>
     send_file demo_env (O_CREATE OR O_LOCK) None ''/a'' (demo_client (sent_to 5 out1 @ sent_to 5 out2 @ sent_to 5 out3)) = Some (Inr (), cl') \<and>
     (\<exists>xs fs f. sim s3 xs fs \<and> a_lookup (f_files fs) ''/a'' = Some f \<and> a_data f = ''xx'')"
proof -
  obtain s where s: "allocStorage True True True 10 1000 0 = Inr s"
    by (simp add: allocStorage_def icl_hash_create_def)
  obtain fs where fs: "sim s [] fs" "fs_ok fs" "config_ok fs" "f_files fs = []" "limits fs = (10, 1000, 0)"
    by (rule allocStorage_sim [OF s]) simp_all
  have "heap s = Map.empty" using s by (auto simp: allocStorage_def icl_hash_create_def)
  then have al: "alloc_ok example_env s" "mem_ok example_env" by (simp_all add: alloc_ok_def example_env_def)
  have c: "caller_ok example_env 5" by (rule example_caller) simp_all
  have "c \<notin># waiting fs" for c using fs(4) by (simp add: waiting_def)
  moreover have "length ''/a'' \<le> PATH_LIMIT" by (simp add: PATH_LIMIT_def)
  moreover have "a_lookup (f_files fs) ''/a'' = None" "length (f_files fs) < f_maxNum fs" "length (rle_spec ''xx'') \<le> f_maxSize fs"
    using fs(4,5) unfolding example_xx by (simp_all add: a_lookup_def limits_def)
  moreover have "local (demo_client []) ''/a'' = Inr ''xx''" by (simp add: demo_client_def)
  moreover have "demo_client []\<lparr>inbox := i\<rparr> = demo_client i" for i by (simp add: demo_client_def)
  ultimately show ?thesis
    using client_sends_file [OF fs(1-3) al c c c, of "''/a''" "''xx''" "demo_client []" 0 demo_env "[]"] s
    by (simp del: One_nat_def) blast
qed

end
