(* ===== verification/FileParser.thy ===== *)
theory FileParser
  imports CStrings
begin

text \<open>
  The parser of configuration files, \<^verbatim>\<open>src/src/fileparser.c\<close>. A file is its bytes. The pairs of a parser
  are the list \<open>pairs\<close> from \<open>hPtr\<close> on. \<open>None\<close> is an access outside an array, a string function on NULL or on
  an array without a NUL. Which calls of \<open>calloc\<close> succeed is a parameter, by the number of the line.
\<close>

definition MAX_FILENAME_LEN :: nat where "MAX_FILENAME_LEN = 500"
definition MAX_DELIM_LEN :: nat where "MAX_DELIM_LEN = 3"
definition MAX_KEY_LEN :: nat where "MAX_KEY_LEN = 100"
definition MAX_VAL_LEN :: nat where "MAX_VAL_LEN = 500"
definition BUFSIZ :: nat where "BUFSIZ = 8192"

section \<open>The C library\<close>

text \<open>\<open>fgets\<close> reads up to and with the end of the line, but fewer than \<open>BUFSIZ\<close> characters.\<close>

fun read_line :: "nat \<Rightarrow> char list \<Rightarrow> char list \<times> char list" where
  "read_line 0 s = ([], s)"
| "read_line (Suc n) [] = ([], [])"
| "read_line (Suc n) (c # s) =
     (if c = CHR 0x0A then ([c], s) else (case read_line n s of (l, r) \<Rightarrow> (c # l, r)))"

definition fgets :: "nat \<Rightarrow> char list \<Rightarrow> (char list \<times> char list) option" where
  "fgets n s = (if s = [] then None else Some (read_line (n - 1) s))"

text \<open>\<open>buf[strcspn(buf, stop)] = 0\<close>, and the string that is left.\<close>

definition cut_at :: "char \<Rightarrow> buffer \<Rightarrow> cstring option" where
  "cut_at stop buf = (if NUL \<in> set buf \<or> stop \<in> set buf then Some (takeWhile (\<lambda>c. c \<noteq> NUL \<and> c \<noteq> stop) buf) else None)"

definition is_octal :: "char \<Rightarrow> bool" where
  "is_octal c \<longleftrightarrow> is_digit c \<and> digit_value c < 8"

definition hex_value :: "char \<Rightarrow> nat option" where
  "hex_value c =
     (let n = of_char c in
      if is_digit c then Some (n - 48)
      else if 65 \<le> n \<and> n \<le> 70 then Some (n - 55)
      else if 97 \<le> n \<and> n \<le> 102 then Some (n - 87)
      else None)"

definition is_hex :: "char \<Rightarrow> bool" where
  "is_hex c \<longleftrightarrow> hex_value c \<noteq> None"

definition read_base :: "nat \<Rightarrow> cstring \<Rightarrow> nat" where
  "read_base base ds = foldl (\<lambda>n c. base * n + the (hex_value c)) 0 ds"

text \<open>\<open>strtol\<close> in base 0: the prefix of the number gives the base. The number before it is cut to a
  \<open>long\<close>, and what follows it.\<close>

definition strtol0 :: "cstring \<Rightarrow> int \<times> cstring" where
  "strtol0 s =
     (let t = dropWhile is_space s;
          neg = (t \<noteq> [] \<and> hd t = CHR ''-'');
          u = (if t \<noteq> [] \<and> (hd t = CHR ''-'' \<or> hd t = CHR ''+'') then tl t else t);
          signed = (\<lambda>n. if neg then - int n else int n) in
      if 3 \<le> length u \<and> u ! 0 = CHR ''0'' \<and> (u ! 1 = CHR ''x'' \<or> u ! 1 = CHR ''X'') \<and> is_hex (u ! 2)
      then (signed (read_base 16 (takeWhile is_hex (drop 2 u))), dropWhile is_hex (drop 2 u))
      else if u \<noteq> [] \<and> hd u = CHR ''0''
      then (signed (read_base 8 (takeWhile is_octal u)), dropWhile is_octal u)
      else if u \<noteq> [] \<and> is_digit (hd u) then (signed (read_digits u), dropWhile is_digit u)
      else (0, s))"

section \<open>Parsing\<close>

record parser =
  filename :: buffer
  delim :: cstring
  pairs :: "(cstring \<times> cstring) list"
  err :: int

definition push :: "(cstring \<times> cstring) list \<Rightarrow> cstring \<times> cstring \<Rightarrow> (cstring \<times> cstring) list" where
  "push h pair = pair # h"

text \<open>The body of the loop, on one line.\<close>

datatype line_result = Skip | NoMemory | SyntaxError | Pair cstring cstring

definition parse_line :: "cstring \<Rightarrow> bool \<Rightarrow> char list \<Rightarrow> line_result option" where
  "parse_line delims mem buf =
     (if hd buf = CHR 0x0A \<or> hd buf = CHR ''#'' then Some Skip
      else if \<not> mem then Some NoMemory
      else let (token, save) = strtok_r (c_string buf) delims in
        (case token of
           None \<Rightarrow> None
         | Some token \<Rightarrow> do {
             key \<leftarrow> strncpy (calloc (MAX_KEY_LEN + 1)) token (MAX_KEY_LEN + 1);
             key \<leftarrow> poke key MAX_KEY_LEN NUL;
             key \<leftarrow> cut_at CHR '' '' key;
             let (token, save) = strtok_r save delims;
             (case token of
                None \<Rightarrow> Some SyntaxError
              | Some token \<Rightarrow> do {
                  val \<leftarrow> strncpy (calloc (MAX_VAL_LEN + 1)) token (length token);
                  val \<leftarrow> cut_at CHR 0x0A val;
                  Some (Pair key val)
                })
           }))"

lemma read_line_length: "length (snd (read_line n s)) \<le> length s"
  by (induction n s rule: read_line.induct) (auto split: prod.splits)

lemma fgets_shorter:
  assumes "fgets BUFSIZ s = Some (l, s')"
  shows "length s' < length s"
proof (cases s)
  case (Cons c t)
  have "length (snd (read_line 8190 t)) \<le> length t" by (rule read_line_length)
  moreover have "read_line 8191 (c # t) = (if c = CHR 0x0A then ([c], t) else (case read_line 8190 t of (l, r) \<Rightarrow> (c # l, r)))"
    using read_line.simps(3) [of 8190 c t] by simp
  ultimately show ?thesis
    using assms Cons by (auto simp: fgets_def BUFSIZ_def split: if_splits prod.splits)
qed (use assms in \<open>simp add: fgets_def\<close>)

text \<open>The loop: the code's counter \<open>i\<close> is the number of the line, and what is returned is cut to an
  \<open>int\<close>.\<close>

function parse_loop ::
  "cstring \<Rightarrow> (nat \<Rightarrow> bool) \<Rightarrow> nat \<Rightarrow> char list \<Rightarrow> (cstring \<times> cstring) list \<Rightarrow> (int \<times> (cstring \<times> cstring) list) option"
where
  "parse_loop delims mem i s h =
     (case fgets BUFSIZ s of
        None \<Rightarrow> Some (0, h)
      | Some (buf, s) \<Rightarrow>
          (case parse_line delims (mem i) buf of
             None \<Rightarrow> None
           | Some Skip \<Rightarrow> parse_loop delims mem (i + 1) s h
           | Some NoMemory \<Rightarrow> Some (- 3, h)
           | Some SyntaxError \<Rightarrow> Some (int_of_long (int i), h)
           | Some (Pair key val) \<Rightarrow> parse_loop delims mem (i + 1) s (push h (key, val))))"
  by pat_completeness auto
termination
  by (relation "measure (\<lambda>(delims, mem, i, s, h). length s)") (auto dest: fgets_shorter)

declare parse_loop.simps [simp del]

definition parse :: "(nat \<Rightarrow> bool) \<Rightarrow> parser \<Rightarrow> char list \<Rightarrow> (int \<times> parser) option" where
  "parse mem p s = map_option (\<lambda>(e, h). (e, p\<lparr>pairs := h\<rparr>)) (parse_loop (delim p) mem 1 s (pairs p))"

text \<open>\<open>parseFile\<close>: the file is \<open>None\<close> when \<open>fopen\<close> fails. The result is NULL when there is no memory for
  the parser.\<close>

definition parseFile :: "bool \<Rightarrow> (nat \<Rightarrow> bool) \<Rightarrow> cstring \<Rightarrow> char list option \<Rightarrow> cstring \<Rightarrow> parser option option" where
  "parseFile mem_parser mem name contents delims =
     (if \<not> mem_parser then Some None
      else do {
        let block = calloc (MAX_FILENAME_LEN + 1);
        fname \<leftarrow> strncpy block name MAX_FILENAME_LEN;
        del \<leftarrow> strncpy (calloc (MAX_DELIM_LEN + 1)) delims MAX_DELIM_LEN;
        let p = \<lparr>filename = fname, delim = c_string del, pairs = [], err = 0\<rparr>;
        (case contents of
           None \<Rightarrow> Some (Some (p\<lparr>err := - 2\<rparr>))
         | Some s \<Rightarrow> do {
             (e, p) \<leftarrow> parse mem p s;
             Some (Some (p\<lparr>err := e\<rparr>))
           })
      })"

text \<open>-1 is the error of the function itself.\<close>

definition parserTestErr :: "parser option \<Rightarrow> int \<times> errno option" where
  "parserTestErr p = (case p of None \<Rightarrow> (- 1, Some EINVAL) | Some p \<Rightarrow> (err p, None))"

text \<open>What \<open>printErrAsStr\<close> prints, on \<open>stdout\<close> or \<open>stderr\<close>.\<close>

definition printErrAsStr :: "parser option \<Rightarrow> errno + cstring" where
  "printErrAsStr p =
     (case p of
        None \<Rightarrow> Inl EINVAL
      | Some p \<Rightarrow>
          if err p = 0 then Inr (''No error(s) detected.'' @ LF)
          else if err p = - 2 then Inr (''Error opening file.'' @ LF)
          else if err p = - 3 then Inr (''Memory allocation error.'' @ LF)
          else Inr (''Syntax error on line '' @ show_int (err p) @ ''.'' @ LF))"

section \<open>Reading values\<close>

fun find_pair :: "(cstring \<times> cstring) list \<Rightarrow> cstring \<Rightarrow> cstring option" where
  "find_pair [] key = None"
| "find_pair ((k, v) # rest) key = (if key \<noteq> k then find_pair rest key else Some v)"

text \<open>The result is what is returned and the buffer \<open>dest\<close>.\<close>

definition getValueFor :: "parser option \<Rightarrow> cstring \<Rightarrow> buffer option \<Rightarrow> cstring \<Rightarrow> (errno + int \<times> buffer) option" where
  "getValueFor p key dest defaultVal =
     (case (p, dest) of
        (Some p, Some dest) \<Rightarrow>
          let currPtr = find_pair (pairs p) key in do {
            dest \<leftarrow> strncpy dest (case currPtr of Some v \<Rightarrow> v | None \<Rightarrow> defaultVal) MAX_VAL_LEN;
            Some (Inr (if currPtr = None then 0 else 1, dest))
          }
      | _ \<Rightarrow> Some (Inl EINVAL))"

text \<open>The value and \<open>errno\<close> after the call, when it is \<open>e\<close> before.\<close>

definition getLongValueFor :: "errno option \<Rightarrow> parser option \<Rightarrow> cstring \<Rightarrow> int \<Rightarrow> (int \<times> errno option) option" where
  "getLongValueFor e p key defaultVal = do {
     r \<leftarrow> getValueFor p key (Some (calloc MAX_VAL_LEN)) [];
     (case r of
        Inl e \<Rightarrow> Some (- 1, Some e)
      | Inr (res, buf) \<Rightarrow>
          if res = 0 then Some (defaultVal, e)
          else if NUL \<notin> set buf then None
          else let (lval, end_ptr) = strtol0 (c_string buf) in
            if lval < - long_max \<or> long_max \<le> lval then Some (- 1, Some ERANGE)
            else if end_ptr = c_string buf then Some (- 1, Some EINVAL)
            else Some (lval, None))
   }"

text \<open>\<open>destroyParser\<close> frees the pairs one by one, and the parser: the number of blocks freed.\<close>

fun free_pairs :: "(cstring \<times> cstring) list \<Rightarrow> nat" where
  "free_pairs [] = 0"
| "free_pairs (p # ps) = Suc (free_pairs ps)"

definition destroyParser :: "parser option \<Rightarrow> errno + nat" where
  "destroyParser p = (case p of None \<Rightarrow> Inl EINVAL | Some p \<Rightarrow> Inr (free_pairs (pairs p) + 1))"

section \<open>Configuration files\<close>

text \<open>A well-formed file: blank lines, comments, and keys with their values; spaces after a key are
  allowed.\<close>

datatype config_line = Blank | Comment cstring | Entry cstring nat cstring

fun render :: "config_line \<Rightarrow> char list" where
  "render Blank = LF"
| "render (Comment t) = CHR ''#'' # t @ LF"
| "render (Entry k n v) = k @ replicate n CHR '' '' @ CHR ''='' # v @ LF"

fun line_ok :: "config_line \<Rightarrow> bool" where
  "line_ok Blank = True"
| "line_ok (Comment t) \<longleftrightarrow> CHR 0x0A \<notin> set t \<and> length t + 2 < BUFSIZ"
| "line_ok (Entry k n v) \<longleftrightarrow>
     k \<noteq> [] \<and> hd k \<noteq> CHR ''#'' \<and> length k \<le> MAX_KEY_LEN \<and> set k \<inter> {NUL, CHR 0x0A, CHR ''='', CHR '' ''} = {} \<and>
     length v \<le> MAX_VAL_LEN \<and> set v \<inter> {NUL, CHR 0x0A, CHR ''=''} = {} \<and> length k + n + length v + 2 < BUFSIZ"

definition entries :: "config_line list \<Rightarrow> (cstring \<times> cstring) list" where
  "entries ls = concat (map (\<lambda>l. case l of Entry k n v \<Rightarrow> [(k, v)] | _ \<Rightarrow> []) ls)"

lemma read_line_LF: "CHR 0x0A \<notin> set l \<Longrightarrow> length l < n \<Longrightarrow> read_line n (l @ CHR 0x0A # s) = (l @ [CHR 0x0A], s)"
proof (induction l arbitrary: n)
  case Nil
  then show ?case by (cases n) auto
next
  case (Cons c l)
  then show ?case by (cases n) auto
qed

lemma fgets_line: "CHR 0x0A \<notin> set l \<Longrightarrow> length l + 1 < BUFSIZ \<Longrightarrow> fgets BUFSIZ (l @ LF @ s) = Some (l @ LF, s)"
  by (simp add: fgets_def LF_def read_line_LF)

lemma render_line:
  assumes "line_ok l"
  shows "\<exists>t. render l = t @ LF \<and> CHR 0x0A \<notin> set t \<and> length t + 1 < BUFSIZ"
proof (cases l)
  case (Entry k n v)
  let ?t = "k @ replicate n CHR '' '' @ CHR ''='' # v"
  have "CHR 0x0A \<notin> set ?t" using assms Entry by auto
  moreover have "length ?t + 1 < BUFSIZ" using assms Entry by simp
  ultimately show ?thesis using Entry by (intro exI [of _ ?t]) simp
next
  case (Comment t)
  then show ?thesis using assms by (intro exI [of _ "CHR ''#'' # t"]) auto
qed (simp add: BUFSIZ_def)

lemma cut_key:
  assumes "length k \<le> MAX_KEY_LEN" and "NUL \<notin> set k" and "CHR '' '' \<notin> set k"
  shows "do { key \<leftarrow> strncpy (calloc (MAX_KEY_LEN + 1)) (k @ replicate n CHR '' '') (MAX_KEY_LEN + 1);
              key \<leftarrow> poke key MAX_KEY_LEN NUL; cut_at CHR '' '' key } = Some k"
proof -
  let ?b = "take (MAX_KEY_LEN + 1) ((k @ replicate n CHR '' '') @ calloc (MAX_KEY_LEN + 1))"
  have l: "length ?b = MAX_KEY_LEN + 1" by simp
  obtain r where r: "?b = k @ r" "\<forall>c \<in> set r. c = CHR '' '' \<or> c = NUL"
  proof
    show "?b = k @ take (MAX_KEY_LEN + 1 - length k) (replicate n CHR '' '' @ calloc (MAX_KEY_LEN + 1))"
      using assms(1) by simp
    show "\<forall>c \<in> set (take (MAX_KEY_LEN + 1 - length k) (replicate n CHR '' '' @ calloc (MAX_KEY_LEN + 1))). c = CHR '' '' \<or> c = NUL"
      by (auto simp: calloc_def dest!: in_set_takeD)
  qed
  let ?c = "?b[MAX_KEY_LEN := NUL]"
  have "?c = k @ r[MAX_KEY_LEN - length k := NUL]" using r(1) assms(1) by (simp add: list_update_append)
  moreover have "\<forall>c \<in> set (r[MAX_KEY_LEN - length k := NUL]). c = CHR '' '' \<or> c = NUL"
    using r(2) set_update_subset_insert [of r "MAX_KEY_LEN - length k" NUL] by blast
  ultimately obtain r' where c: "?c = k @ r'" "\<forall>c \<in> set r'. c = CHR '' '' \<or> c = NUL" by blast
  have "takeWhile (\<lambda>c. c \<noteq> NUL \<and> c \<noteq> CHR '' '') ?c = k"
  proof -
    have "\<And>x. x \<in> set k \<Longrightarrow> x \<noteq> NUL \<and> x \<noteq> CHR '' ''" using assms(2,3) by auto
    moreover have "takeWhile (\<lambda>c. c \<noteq> NUL \<and> c \<noteq> CHR '' '') r' = []" using c(2) by (cases r') auto
    ultimately show ?thesis unfolding c(1) by (simp add: takeWhile_append2)
  qed
  moreover have "NUL \<in> set ?c" using l by (simp add: set_update_memI)
  ultimately show ?thesis using l by (simp add: strncpy_def poke_def cut_at_def)
qed

lemma cut_value:
  assumes "length v \<le> MAX_VAL_LEN" and "NUL \<notin> set v" and "CHR 0x0A \<notin> set v"
  shows "do { val \<leftarrow> strncpy (calloc (MAX_VAL_LEN + 1)) (v @ LF) (length (v @ LF)); cut_at CHR 0x0A val } = Some v"
proof -
  have "\<And>x. x \<in> set v \<Longrightarrow> x \<noteq> NUL \<and> x \<noteq> CHR 0x0A" using assms(2,3) by auto
  then have "takeWhile (\<lambda>c. c \<noteq> NUL \<and> c \<noteq> CHR 0x0A) (v @ CHR 0x0A # u) = v" for u
    by (simp add: takeWhile_append2)
  then show ?thesis using assms(1) by (simp add: strncpy_def cut_at_def LF_def)
qed

lemma c_string_line: "NUL \<notin> set t \<Longrightarrow> c_string t = t"
  by (induction t) (auto simp: c_string_def)

lemma parse_line_entry:
  assumes "line_ok (Entry k n v)"
  shows "parse_line ''='' True (render (Entry k n v)) = Some (Pair k v)"
proof -
  let ?k = "k @ replicate n CHR '' ''" and ?buf = "render (Entry k n v)"
  have ok: "k \<noteq> []" "hd k \<noteq> CHR ''#''" "length k \<le> MAX_KEY_LEN" "NUL \<notin> set k" "CHR '' '' \<notin> set k" "CHR 0x0A \<notin> set k"
    "CHR ''='' \<notin> set k" "length v \<le> MAX_VAL_LEN" "NUL \<notin> set v" "CHR 0x0A \<notin> set v" "CHR ''='' \<notin> set v"
    using assms by auto
  have "hd k \<noteq> CHR 0x0A" using ok(1,6) hd_in_set by metis
  then have h: "hd ?buf \<noteq> CHR 0x0A" "hd ?buf \<noteq> CHR ''#''" 
    using ok(1,2) by (auto simp: hd_append)
  have "NUL \<notin> set ?buf" using ok by (auto simp: LF_def)
  then have c: "c_string ?buf = ?k @ CHR ''='' # v @ LF" by (simp add: c_string_line)
  have t1: "strtok_r (?k @ CHR ''='' # v @ LF) ''='' = (Some ?k, v @ LF)"
    by (rule token_app(1)) (use ok in auto)
  have t2: "strtok_r (v @ LF) ''='' = (Some (v @ LF), [])"
    by (rule token_app(2) [where c = "CHR ''=''"]) (use ok in \<open>auto simp: LF_def\<close>)
  have a: "strncpy (calloc (MAX_KEY_LEN + 1)) ?k (MAX_KEY_LEN + 1) \<bind> (\<lambda>key. poke key MAX_KEY_LEN NUL \<bind> (\<lambda>key. cut_at CHR '' '' key \<bind> f)) = f k" for f :: "cstring \<Rightarrow> line_result option"
    using arg_cong [OF cut_key [OF ok(3,4,5), of n], of "\<lambda>x. x \<bind> f"] by (simp add: bind_assoc)
  have b: "strncpy (calloc (MAX_VAL_LEN + 1)) (v @ LF) (length (v @ LF)) \<bind> (\<lambda>val. cut_at CHR 0x0A val \<bind> f) = f v" for f :: "cstring \<Rightarrow> line_result option"
    using arg_cong [OF cut_value [OF ok(8-10)], of "\<lambda>x. x \<bind> f"] by (simp add: bind_assoc)
  show ?thesis unfolding parse_line_def c using h
    by (simp only: t1 t2 a b Let_def if_False simp_thms prod.case option.case)
qed

text \<open>A prefix of well-formed lines is read line by line.\<close>

lemma parse_loop_lines:
  assumes "\<forall>l \<in> set ls. line_ok l" and "\<forall>i. mem i"
  shows "parse_loop ''='' mem i (concat (map render ls) @ rest) h = parse_loop ''='' mem (i + length ls) rest (rev (entries ls) @ h)"
  using assms(1)
proof (induction ls arbitrary: i h)
  case Nil
  then show ?case by (simp add: entries_def)
next
  case (Cons l ls)
  obtain t where t: "render l = t @ LF" "CHR 0x0A \<notin> set t" "length t + 1 < BUFSIZ"
    using render_line [of l] Cons.prems by auto
  let ?rest = "concat (map render ls) @ rest"
  have f: "fgets BUFSIZ (render l @ ?rest) = Some (render l, ?rest)"
    using fgets_line [OF t(2,3)] by (simp add: t(1))
  have i: "Suc i + length ls = i + length (l # ls)" by simp
  show ?case
  proof (cases l)
    case (Entry k n v)
    have "parse_line ''='' True (render l) = Some (Pair k v)"
      unfolding Entry by (rule parse_line_entry) (use Cons.prems Entry in simp)
    then have "parse_loop ''='' mem i (render l @ ?rest) h = parse_loop ''='' mem (i + 1) ?rest ((k, v) # h)"
      using assms(2) by (subst parse_loop.simps) (simp add: f push_def del: render.simps)
    then show ?thesis using Cons i Entry by (simp add: entries_def del: render.simps)
  next
    case Blank
    then have "parse_loop ''='' mem i (render l @ ?rest) h = parse_loop ''='' mem (i + 1) ?rest h"
      using f by (subst parse_loop.simps) (simp add: parse_line_def LF_def)
    then show ?thesis using Cons i Blank by (simp add: entries_def del: render.simps)
  next
    case (Comment u)
    then have "parse_loop ''='' mem i (render l @ ?rest) h = parse_loop ''='' mem (i + 1) ?rest h"
      using f by (subst parse_loop.simps) (simp add: parse_line_def)
    then show ?thesis using Cons i Comment by (simp add: entries_def del: render.simps)
  qed
qed

lemma find_pair_map_of: "find_pair h key = map_of h key"
  by (induction h key rule: find_pair.induct) auto

lemma parseFile_parse:
  assumes "parse_loop ''='' mem 1 s [] = Some (e, h)"
  shows "\<exists>p. parseFile True mem name (Some s) ''='' = Some (Some p) \<and> err p = e \<and> pairs p = h"
proof -
  have "c_string (take MAX_DELIM_LEN (''='' @ calloc MAX_DELIM_LEN) @ drop MAX_DELIM_LEN (calloc (MAX_DELIM_LEN + 1))) = ''=''"
    by code_simp
  then show ?thesis using assms
    by (simp add: parseFile_def strncpy_def parse_def MAX_FILENAME_LEN_def)
qed

lemma getValueFor_short:
  assumes "find_pair (pairs p) key = Some v" and "length dest = MAX_VAL_LEN"
  shows "getValueFor (Some p) key (Some dest) d = Some (Inr (1, take MAX_VAL_LEN (v @ calloc MAX_VAL_LEN)))"
  using assms by (simp add: getValueFor_def strncpy_def)

lemma parseFile_lines:
  assumes "\<forall>l \<in> set ls. line_ok l" and "\<forall>i. mem i"
  shows "\<exists>p. parseFile True mem name (Some (concat (map render ls))) ''='' = Some (Some p) \<and> err p = 0 \<and>
    pairs p = rev (entries ls)"
proof (rule parseFile_parse)
  show "parse_loop ''='' mem 1 (concat (map render ls)) [] = Some (0, rev (entries ls))"
    using parse_loop_lines [OF assms, of 1 "[]" "[]"] by (simp add: parse_loop.simps fgets_def)
qed

text \<open>Reading a well-formed configuration file. A file of blank lines, comments and keys with
  values (any spaces after a key) is parsed without error, whatever its number of
  lines; then every key has the value of its last line, which is copied with zeros behind it, and a key that does not occur gets the default.\<close>

theorem parseFile_roundtrip:
  assumes "\<forall>l \<in> set ls. line_ok l" and "\<forall>i. mem i"
  shows "\<exists>p. parseFile True mem name (Some (concat (map render ls))) ''='' = Some (Some p) \<and>
    parserTestErr (Some p) = (0, None) \<and>
    (\<forall>key dflt. getValueFor (Some p) key (Some (calloc MAX_VAL_LEN)) dflt =
       (case map_of (rev (entries ls)) key of
          Some v \<Rightarrow> Some (Inr (1, take MAX_VAL_LEN (v @ calloc MAX_VAL_LEN)))
        | None \<Rightarrow> Some (Inr (0, take MAX_VAL_LEN (dflt @ calloc MAX_VAL_LEN)))))"
proof -
  obtain p where p: "parseFile True mem name (Some (concat (map render ls))) ''='' = Some (Some p)" "err p = 0"
    "pairs p = rev (entries ls)" using parseFile_lines [OF assms] by blast
  then show ?thesis
    by (intro exI [of _ p]) (auto simp: parserTestErr_def getValueFor_def find_pair_map_of strncpy_def split: option.splits)
qed

theorem parseFile_roundtrip_witness:
  "\<exists>p. parseFile True (\<lambda>_. True) ''c'' (Some (''# c'' @ LF @ LF @ ''A = 1'' @ LF @ ''A=2'' @ LF)) ''='' = Some (Some p) \<and>
     getValueFor (Some p) ''A'' (Some (calloc MAX_VAL_LEN)) ''9'' = Some (Inr (1, take MAX_VAL_LEN (''2'' @ calloc MAX_VAL_LEN)))"
proof -
  let ?ls = "[Comment '' c'', Blank, Entry ''A'' 1 '' 1'', Entry ''A'' 0 ''2'']"
  have "\<forall>l \<in> set ?ls. line_ok l" by (simp add: BUFSIZ_def MAX_KEY_LEN_def MAX_VAL_LEN_def)
  moreover have "concat (map render ?ls) = ''# c'' @ LF @ LF @ ''A = 1'' @ LF @ ''A=2'' @ LF" by simp
  moreover have "map_of (rev (entries ?ls)) ''A'' = Some ''2''" by (simp add: entries_def)
  ultimately show ?thesis
    using parseFile_roundtrip [of ?ls "\<lambda>_. True" "''c''"] by (smt (verit) option.simps(5))
qed

section \<open>Syntax errors\<close>

definition bad_line :: "cstring \<Rightarrow> bool" where
  "bad_line t \<longleftrightarrow> t \<noteq> [] \<and> hd t \<noteq> CHR ''#'' \<and> set t \<inter> {NUL, CHR 0x0A, CHR ''=''} = {} \<and> length t + 1 < BUFSIZ"

lemma key_copied: "\<exists>k. (do { key \<leftarrow> strncpy (calloc (MAX_KEY_LEN + 1)) t (MAX_KEY_LEN + 1);
    key \<leftarrow> poke key MAX_KEY_LEN NUL; cut_at CHR '' '' key }) = Some k"
  by (simp add: strncpy_def poke_def cut_at_def set_update_memI)

lemma parse_line_bad:
  assumes "bad_line t"
  shows "parse_line ''='' True (t @ LF) = Some SyntaxError"
proof -
  have ok: "t \<noteq> []" "hd t \<noteq> CHR ''#''" "NUL \<notin> set t" "CHR 0x0A \<notin> set t" "CHR ''='' \<notin> set t"
    using assms by (auto simp: bad_line_def)
  have "hd t \<noteq> CHR 0x0A" using ok(1,4) hd_in_set by metis
  then have h: "hd (t @ LF) \<noteq> CHR 0x0A" "hd (t @ LF) \<noteq> CHR ''#''" using ok(1,2) by (auto simp: hd_append)
  have c: "c_string (t @ LF) = t @ LF" using ok(3) by (intro c_string_line) (auto simp: LF_def)
  have t1: "strtok_r (t @ LF) ''='' = (Some (t @ LF), [])"
    by (rule token_app(2) [where c = "CHR ''=''"]) (use ok in \<open>auto simp: LF_def\<close>)
  obtain k where k: "(do { key \<leftarrow> strncpy (calloc (MAX_KEY_LEN + 1)) (t @ LF) (MAX_KEY_LEN + 1);
    key \<leftarrow> poke key MAX_KEY_LEN NUL; cut_at CHR '' '' key }) = Some k" using key_copied by blast
  have a: "strncpy (calloc (MAX_KEY_LEN + 1)) (t @ LF) (MAX_KEY_LEN + 1) \<bind> (\<lambda>key. poke key MAX_KEY_LEN NUL \<bind> (\<lambda>key. cut_at CHR '' '' key \<bind> f)) = f k" for f :: "cstring \<Rightarrow> line_result option"
    using arg_cong [OF k, of "\<lambda>x. x \<bind> f"] by (simp add: bind_assoc)
  have t2: "strtok_r [] ''='' = (None, [])" by (simp add: strtok_r_def)
  show ?thesis unfolding parse_line_def c using h
    by (simp only: t1 t2 a Let_def if_False simp_thms prod.case option.case)
qed

text \<open>C32: Syntax errors. When the lines before it are well formed, a line without a delimiter is reported
  with its number, and the rest of the file is not read.\<close>

theorem parseFile_syntax_error:
  assumes "\<forall>l \<in> set ls. line_ok l" and "bad_line t" and "\<forall>i. mem i" and "length ls + 1 < 2 ^ 31"
  shows "\<exists>p. parseFile True mem name (Some (concat (map render ls) @ t @ LF @ rest)) ''='' = Some (Some p) \<and>
    parserTestErr (Some p) = (int (length ls) + 1, None) \<and> pairs p = rev (entries ls)"
proof -
  have f: "fgets BUFSIZ (t @ LF @ rest) = Some (t @ LF, rest)"
    using assms(2) by (intro fgets_line) (auto simp: bad_line_def)
  have "int_of_long (int (1 + length ls)) = int (length ls) + 1"
    using assms(4) by (subst int_of_long_small) simp_all
  then have "parse_loop ''='' mem (1 + length ls) (t @ LF @ rest) (rev (entries ls) @ []) = Some (int (length ls) + 1, rev (entries ls))"
    using parse_line_bad [OF assms(2)] assms(3) by (subst parse_loop.simps) (simp add: f)
  then have "parse_loop ''='' mem 1 (concat (map render ls) @ t @ LF @ rest) [] = Some (int (length ls) + 1, rev (entries ls))"
    using parse_loop_lines [OF assms(1,3), of 1 "t @ LF @ rest" "[]"] by simp
  then show ?thesis using parseFile_parse by (fastforce simp: parserTestErr_def)
qed

theorem parseFile_syntax_error_witness:
  "\<exists>p. parseFile True (\<lambda>_. True) ''c'' (Some (''A=1'' @ LF @ ''B 2'' @ LF @ ''C=3'')) ''='' = Some (Some p) \<and>
     parserTestErr (Some p) = (2, None) \<and> pairs p = [(''A'', ''1'')]"
proof -
  let ?ls = "[Entry ''A'' 0 ''1'']"
  have "\<forall>l \<in> set ?ls. line_ok l" "bad_line ''B 2''" by (simp_all add: BUFSIZ_def MAX_KEY_LEN_def MAX_VAL_LEN_def bad_line_def)
  then show ?thesis
    using parseFile_syntax_error [of ?ls "''B 2''" "\<lambda>_. True" "''c''" "''C=3''"] by (simp add: entries_def)
qed

section \<open>Numbers\<close>

lemma show_nat_head: "0 < n \<Longrightarrow> hd (show_nat n) \<noteq> CHR ''0''"
proof (induction n rule: show_nat.induct)
  case (1 n)
  show ?case
  proof (cases "n < 10")
    case True
    then have "digit n \<noteq> digit 0" using digit_value_digit [of n] digit_value_digit [of 0] 1(2) by force
    then show ?thesis using True by (simp add: show_nat.simps [of n] zero_digit)
  next
    case False
    then show ?thesis using 1(1) by (simp add: show_nat.simps [of n])
  qed
qed

lemma strtol0_show_int: "strtol0 (show_int i) = (i, [])"
proof -
  have key: "strtol0 (pre @ show_nat n) = (if pre = [] then int n else - int n, [])" if pre: "pre = [] \<or> pre = ''-''" for pre n
  proof -
    let ?u = "show_nat n"
    have dg: "\<forall>c \<in> set ?u. is_digit c" by (rule digits_show_nat)
    obtain c cs where u: "?u = c # cs" by (cases ?u) auto
    then have c: "is_digit c" using dg by simp
    then have ns: "\<not> is_space c" "c \<noteq> CHR ''-''" "c \<noteq> CHR ''+''" by (auto simp: is_digit_def is_space_def)
    have m: "\<not> is_space CHR ''-''" by (simp add: is_space_def)
    have dw: "dropWhile is_digit ?u = []" and rd: "read_digits ?u = n"
      using dg value_show_nat [of n] by (auto simp: read_digits_def takeWhile_eq_all_conv [THEN iffD2])
    show ?thesis
    proof (cases "n = 0")
      case True
      then have u0: "?u = ''0''" by (simp add: show_nat.simps zero_digit)
      have "strtol0 (pre @ ''0'') = (0, [])" using pre by (elim disjE) (simp, code_simp)+
      then show ?thesis using True u0 by simp
    next
      case False
      then have "c \<noteq> CHR ''0''" using show_nat_head [of n] u by simp
      then show ?thesis using pre ns c m dw rd by (auto simp: strtol0_def u Let_def)
    qed
  qed
  show ?thesis
    using key [of "[]" "nat i"] key [of "''-''" "nat (- i)"] by (auto simp: show_int_def)
qed

lemma getLongValueFor_shown:
  assumes "find_pair (pairs p) key = Some (show_int i)" and "- long_max \<le> i" and "i < long_max"
  shows "getLongValueFor e (Some p) key d = Some (i, None)"
proof -
  have small: "\<bar>i\<bar> < 10 ^ 20" using assms(2,3) by (simp add: long_max_def)
  have len: "length (show_int i) \<le> 21" using length_show_int [OF small] by simp
  let ?buf = "take MAX_VAL_LEN (show_int i @ calloc MAX_VAL_LEN)"
  have "?buf = show_int i @ calloc (MAX_VAL_LEN - length (show_int i))"
    using len by (simp add: MAX_VAL_LEN_def calloc_def)
  moreover have "0 < MAX_VAL_LEN - length (show_int i)" using len by (simp add: MAX_VAL_LEN_def)
  then obtain m where "MAX_VAL_LEN - length (show_int i) = Suc m" using gr0_implies_Suc by blast
  ultimately have b: "?buf = show_int i @ NUL # calloc m" by (simp add: calloc_Suc)
  have "NUL \<notin> set (show_nat n)" for n using bspec [OF digits_show_nat [of n], of NUL] by (auto simp: is_digit_def)
  then have "\<forall>c \<in> set (show_int i). c \<noteq> NUL" by (auto simp: show_int_def)
  then have c: "c_string ?buf = show_int i" unfolding b c_string_def by (simp add: takeWhile_append2)
  have ne: "show_int i \<noteq> []" by (simp add: show_int_def)
  have "getValueFor (Some p) key (Some (calloc MAX_VAL_LEN)) [] = Some (Inr (1, ?buf))"
    by (rule getValueFor_short [OF assms(1)]) simp
  moreover have "NUL \<in> set ?buf" unfolding b by simp
  ultimately show ?thesis
    using c ne assms(2,3) by (simp add: getLongValueFor_def strtol0_show_int)
qed

end
