(* ===== verification/ServerConfig.thy ===== *)
theory ServerConfig
  imports FileParser Manager
begin

text \<open>
  The start of the server, the first part of \<open>main\<close> in \<^verbatim>\<open>src/src/server.c\<close>: the configuration file is
  parsed, each parameter is checked or replaced by its default, and the store, the queue of tasks and the
  sets of the manager are made from them.
\<close>

section \<open>Defaults\<close>

definition DFL_POOLSIZE :: int where "DFL_POOLSIZE = 10"
definition DFL_MAXSTORAGECAP :: int where "DFL_MAXSTORAGECAP = 10000"
definition DFL_MAXFILECOUNT :: int where "DFL_MAXFILECOUNT = 100"
definition DFL_SOCKNAME :: cstring where "DFL_SOCKNAME = ''serversocket.sk''"
definition DFL_LOGFILENAME :: cstring where "DFL_LOGFILENAME = ''logs.json''"
definition DFL_SOCKETBACKLOG :: int where "DFL_SOCKETBACKLOG = 10"
definition DFL_TASKBUFSIZE :: int where "DFL_TASKBUFSIZE = 2048"
definition DFL_LOGBUFSIZE :: int where "DFL_LOGBUFSIZE = 2048"
definition DFL_REPLACEMENTALGO :: int where "DFL_REPLACEMENTALGO = 0"

section \<open>Reading the parameters\<close>

definition GET_LONGVAL_OR_EXIT :: "parser option \<Rightarrow> cstring \<Rightarrow> int \<Rightarrow> (int \<Rightarrow> bool) \<Rightarrow> int option" where
  "GET_LONGVAL_OR_EXIT p k d failcond = do {
     (v, e) \<leftarrow> getLongValueFor None p k d;
     let v = (if v = - 1 \<and> e \<noteq> None then d else v);
     Some (if failcond v then d else v)
   }"

text \<open>\<open>Inl\<close>: the process exits.\<close>

definition GET_VAL_OR_EXIT :: "parser option \<Rightarrow> cstring \<Rightarrow> buffer \<Rightarrow> cstring \<Rightarrow> (errno + buffer) option" where
  "GET_VAL_OR_EXIT p k b d = do {
     r \<leftarrow> getValueFor p k (Some b) d;
     Some (case r of Inl e \<Rightarrow> Inl e | Inr (_, b) \<Rightarrow> Inr b)
   }"

record config =
  maxStorageCap :: int
  maxFileCount :: int
  workerPoolSize :: int
  socketBacklog :: int
  taskBufSize :: int
  logBufSize :: int
  algorithm :: int
  sockname :: buffer
  logfilename :: buffer

text \<open>\<open>b1\<close> and \<open>b2\<close> are the contents of the uninitialised arrays of \<open>BUFSIZ\<close> bytes.\<close>

definition read_config :: "parser option \<Rightarrow> buffer \<Rightarrow> buffer \<Rightarrow> (errno + config) option" where
  "read_config p b1 b2 = do {
     cap \<leftarrow> GET_LONGVAL_OR_EXIT p ''MAXSTORAGECAP'' DFL_MAXSTORAGECAP (\<lambda>v. v \<le> 0);
     count \<leftarrow> GET_LONGVAL_OR_EXIT p ''MAXFILECOUNT'' DFL_MAXFILECOUNT (\<lambda>v. v \<le> 0);
     pool \<leftarrow> GET_LONGVAL_OR_EXIT p ''WORKERPOOLSIZE'' DFL_POOLSIZE (\<lambda>v. v \<le> 0);
     backlog \<leftarrow> GET_LONGVAL_OR_EXIT p ''SOCKETBACKLOG'' DFL_SOCKETBACKLOG (\<lambda>v. v \<le> 0);
     task \<leftarrow> GET_LONGVAL_OR_EXIT p ''TASKBUFSIZE'' DFL_TASKBUFSIZE (\<lambda>v. v \<le> 1);
     log \<leftarrow> GET_LONGVAL_OR_EXIT p ''LOGBUFSIZE'' DFL_LOGBUFSIZE (\<lambda>v. v \<le> 1);
     algo \<leftarrow> GET_LONGVAL_OR_EXIT p ''REPLACEMENTALGO'' DFL_REPLACEMENTALGO (\<lambda>v. v < FIFO_ALGO);
     s \<leftarrow> GET_VAL_OR_EXIT p ''SOCKETFILENAME'' b1 DFL_SOCKNAME;
     (case s of
        Inl e \<Rightarrow> Some (Inl e)
      | Inr s \<Rightarrow> do {
          l \<leftarrow> GET_VAL_OR_EXIT p ''LOGFILENAME'' b2 DFL_LOGFILENAME;
          Some (case l of
              Inl e \<Rightarrow> Inl e
            | Inr l \<Rightarrow> Inr \<lparr>maxStorageCap = cap, maxFileCount = count, workerPoolSize = pool, socketBacklog = backlog,
                taskBufSize = task, logBufSize = log, algorithm = algo, sockname = s, logfilename = l\<rparr>)
        })
   }"

text \<open>The policy is kept in a \<open>short\<close>.\<close>

definition short_of_long :: "int \<Rightarrow> int" where
  "short_of_long x = sint (word_of_int x :: 16 word)"

lemma short_of_long_small: "- (2 ^ 15) \<le> x \<Longrightarrow> x < 2 ^ 15 \<Longrightarrow> short_of_long x = x"
  by (simp add: short_of_long_def sint_uint uint_word_of_int_eq signed_take_bit_take_bit signed_take_bit_int_eq_self)

datatype exit_reason = No_Parser | Bad_File int | Bad_Value errno | No_Store errno

text \<open>
  \<open>main\<close> up to the start of the threads, for a configuration file with the given contents (\<open>None\<close>: it
  cannot be opened). The descriptors of the socket and of the pipe come from the operating system. The
  number of buckets that \<open>allocStorage\<close> asks for is converted to an \<open>int\<close>; where it does not fit the result is
  \<open>None\<close>.
\<close>

definition boot ::
  "bool \<Rightarrow> (nat \<Rightarrow> bool) \<Rightarrow> cstring \<Rightarrow> char list option \<Rightarrow> buffer \<Rightarrow> buffer \<Rightarrow> fd \<Rightarrow> fd \<Rightarrow> (exit_reason + config \<times> system) option"
where
  "boot mem_parser mem name contents b1 b2 sock p = do {
     configParser \<leftarrow> parseFile mem_parser mem name contents ''='';
     if configParser = None then Some (Inl No_Parser)
     else if fst (parserTestErr configParser) \<noteq> 0 then Some (Inl (Bad_File (fst (parserTestErr configParser))))
     else do {
       r \<leftarrow> read_config configParser b1 b2;
       (case r of
           Inl e \<Rightarrow> Some (Inl (Bad_Value e))
         | Inr c \<Rightarrow>
             if 2 ^ 31 \<le> maxFileCount c div 10 + 1 then None
             else (case start_server (nat (maxFileCount c)) (nat (maxStorageCap c)) (short_of_long (algorithm c)) sock p of
                Inl e \<Rightarrow> Some (Inl (No_Store e))
              | Inr st \<Rightarrow> Some (Inr (c, st))))
     }
   }"

section \<open>Every accepted value is in its range\<close>

lemma getLongValueFor_cases:
  assumes "getLongValueFor e p k d = Some (v, e')"
  shows "v = d \<or> v = - 1 \<or> (- long_max \<le> v \<and> v < long_max)"
  using assms by (auto simp: getLongValueFor_def Let_def case_prod_beta split: bind_splits sum.splits if_splits)

lemma GET_LONGVAL_range:
  assumes "GET_LONGVAL_OR_EXIT p k d failcond = Some v" and "\<not> failcond d" and "d < long_max"
  shows "\<not> failcond v \<and> v < long_max"
proof -
  have "- 1 < long_max" by (simp add: long_max_def)
  then show ?thesis
    using assms by (auto simp: GET_LONGVAL_OR_EXIT_def Let_def split: bind_splits if_splits dest: getLongValueFor_cases)
qed

lemma defaults:
  "\<not> DFL_MAXSTORAGECAP \<le> 0" "\<not> DFL_MAXFILECOUNT \<le> 0" "\<not> DFL_POOLSIZE \<le> 0" "\<not> DFL_SOCKETBACKLOG \<le> 0"
  "\<not> DFL_TASKBUFSIZE \<le> 1" "\<not> DFL_LOGBUFSIZE \<le> 1" "\<not> DFL_REPLACEMENTALGO < FIFO_ALGO"
  "DFL_MAXSTORAGECAP < long_max" "DFL_MAXFILECOUNT < long_max" "DFL_POOLSIZE < long_max" "DFL_SOCKETBACKLOG < long_max"
  "DFL_TASKBUFSIZE < long_max" "DFL_LOGBUFSIZE < long_max" "DFL_REPLACEMENTALGO < long_max"
  by (simp_all add: DFL_MAXSTORAGECAP_def DFL_MAXFILECOUNT_def DFL_POOLSIZE_def DFL_SOCKETBACKLOG_def DFL_TASKBUFSIZE_def
      DFL_LOGBUFSIZE_def DFL_REPLACEMENTALGO_def FIFO_ALGO_def long_max_def)

definition parameters_ok :: "config \<Rightarrow> bool" where
  "parameters_ok c \<longleftrightarrow> 0 < maxStorageCap c \<and> 0 < maxFileCount c \<and> 0 < workerPoolSize c \<and> 0 < socketBacklog c \<and>
     1 < taskBufSize c \<and> 1 < logBufSize c \<and> FIFO_ALGO \<le> algorithm c \<and>
     (\<forall>v \<in> {maxStorageCap c, maxFileCount c, workerPoolSize c, socketBacklog c, taskBufSize c, logBufSize c, algorithm c}. v < 2 ^ 63)"

lemma read_parameters_ok:
  assumes "read_config p b1 b2 = Some (Inr c)"
  shows "parameters_ok c"
proof -
  obtain cap count pool backlog task log algo where
    v: "GET_LONGVAL_OR_EXIT p ''MAXSTORAGECAP'' DFL_MAXSTORAGECAP (\<lambda>v. v \<le> 0) = Some cap"
      "GET_LONGVAL_OR_EXIT p ''MAXFILECOUNT'' DFL_MAXFILECOUNT (\<lambda>v. v \<le> 0) = Some count"
      "GET_LONGVAL_OR_EXIT p ''WORKERPOOLSIZE'' DFL_POOLSIZE (\<lambda>v. v \<le> 0) = Some pool"
      "GET_LONGVAL_OR_EXIT p ''SOCKETBACKLOG'' DFL_SOCKETBACKLOG (\<lambda>v. v \<le> 0) = Some backlog"
      "GET_LONGVAL_OR_EXIT p ''TASKBUFSIZE'' DFL_TASKBUFSIZE (\<lambda>v. v \<le> 1) = Some task"
      "GET_LONGVAL_OR_EXIT p ''LOGBUFSIZE'' DFL_LOGBUFSIZE (\<lambda>v. v \<le> 1) = Some log"
      "GET_LONGVAL_OR_EXIT p ''REPLACEMENTALGO'' DFL_REPLACEMENTALGO (\<lambda>v. v < FIFO_ALGO) = Some algo"
    and c: "maxStorageCap c = cap" "maxFileCount c = count" "workerPoolSize c = pool" "socketBacklog c = backlog"
      "taskBufSize c = task" "logBufSize c = log" "algorithm c = algo"
    using assms by (auto simp: read_config_def split: bind_splits sum.splits)
  show ?thesis
    using v [THEN GET_LONGVAL_range] defaults by (simp add: parameters_ok_def c long_max_def)
qed

section \<open>What a configuration file sets\<close>

text \<open>The value of a parameter, when the file gives it the numbers \<open>nums\<close>.\<close>

definition setting :: "(cstring \<rightharpoonup> int) \<Rightarrow> cstring \<Rightarrow> int \<Rightarrow> (int \<Rightarrow> bool) \<Rightarrow> int" where
  "setting nums k d failcond = (case nums k of None \<Rightarrow> d | Some i \<Rightarrow> if failcond i then d else i)"

definition numeric_keys :: "cstring list" where
  "numeric_keys = [''MAXSTORAGECAP'', ''MAXFILECOUNT'', ''WORKERPOOLSIZE'', ''SOCKETBACKLOG'', ''TASKBUFSIZE'', ''LOGBUFSIZE'', ''REPLACEMENTALGO'']"

text \<open>The entries of the file give each numeric parameter a number in the range of \<open>long\<close>, or nothing.\<close>

definition gives :: "(cstring \<times> cstring) list \<Rightarrow> (cstring \<rightharpoonup> int) \<Rightarrow> bool" where
  "gives kvs nums \<longleftrightarrow>
     (\<forall>k \<in> set numeric_keys. map_of (rev kvs) k = map_option show_int (nums k) \<and>
        (\<forall>i. nums k = Some i \<longrightarrow> - long_max \<le> i \<and> i < long_max))"

lemma GET_LONGVAL_setting:
  assumes "find_pair (pairs p) k = map_option show_int (nums k)" and "\<forall>i. nums k = Some i \<longrightarrow> - long_max \<le> i \<and> i < long_max"
  shows "GET_LONGVAL_OR_EXIT (Some p) k d failcond = Some (setting nums k d failcond)"
proof (cases "nums k")
  case None
  then have "getLongValueFor None (Some p) k d = Some (d, None)"
    using assms(1) by (simp add: getLongValueFor_def getValueFor_def strncpy_def)
  then show ?thesis using None by (simp add: GET_LONGVAL_OR_EXIT_def setting_def)
next
  case (Some i)
  then have "find_pair (pairs p) k = Some (show_int i)" using assms(1) by simp
  then have "getLongValueFor None (Some p) k d = Some (i, None)"
    using getLongValueFor_shown assms(2) Some by blast
  then show ?thesis using Some by (simp add: GET_LONGVAL_OR_EXIT_def setting_def)
qed

definition text_setting :: "(cstring \<times> cstring) list \<Rightarrow> cstring \<Rightarrow> cstring \<Rightarrow> buffer \<Rightarrow> buffer" where
  "text_setting kvs k d b =
     take MAX_VAL_LEN ((case map_of (rev kvs) k of Some v \<Rightarrow> v | None \<Rightarrow> d) @ calloc MAX_VAL_LEN) @ drop MAX_VAL_LEN b"

lemma GET_VAL_text_setting:
  assumes "pairs p = rev kvs" and "MAX_VAL_LEN \<le> length b"
  shows "GET_VAL_OR_EXIT (Some p) k b d = Some (Inr (text_setting kvs k d b))"
  using assms by (simp add: GET_VAL_OR_EXIT_def getValueFor_def strncpy_def text_setting_def find_pair_map_of Let_def)

definition config_of :: "(cstring \<times> cstring) list \<Rightarrow> (cstring \<rightharpoonup> int) \<Rightarrow> buffer \<Rightarrow> buffer \<Rightarrow> config" where
  "config_of kvs nums b1 b2 =
     \<lparr>maxStorageCap = setting nums ''MAXSTORAGECAP'' DFL_MAXSTORAGECAP (\<lambda>v. v \<le> 0),
      maxFileCount = setting nums ''MAXFILECOUNT'' DFL_MAXFILECOUNT (\<lambda>v. v \<le> 0),
      workerPoolSize = setting nums ''WORKERPOOLSIZE'' DFL_POOLSIZE (\<lambda>v. v \<le> 0),
      socketBacklog = setting nums ''SOCKETBACKLOG'' DFL_SOCKETBACKLOG (\<lambda>v. v \<le> 0),
      taskBufSize = setting nums ''TASKBUFSIZE'' DFL_TASKBUFSIZE (\<lambda>v. v \<le> 1),
      logBufSize = setting nums ''LOGBUFSIZE'' DFL_LOGBUFSIZE (\<lambda>v. v \<le> 1),
      algorithm = setting nums ''REPLACEMENTALGO'' DFL_REPLACEMENTALGO (\<lambda>v. v < FIFO_ALGO),
      sockname = text_setting kvs ''SOCKETFILENAME'' DFL_SOCKNAME b1,
      logfilename = text_setting kvs ''LOGFILENAME'' DFL_LOGFILENAME b2\<rparr>"

lemma read_config_settings:
  assumes "pairs p = rev kvs" and "gives kvs nums" and "length b1 = BUFSIZ" and "length b2 = BUFSIZ"
  shows "read_config (Some p) b1 b2 = Some (Inr (config_of kvs nums b1 b2))"
proof -
  have n: "GET_LONGVAL_OR_EXIT (Some p) k d f = Some (setting nums k d f)" if "k \<in> set numeric_keys" for k d f
    using GET_LONGVAL_setting [of p k nums] assms(1,2) that by (simp add: gives_def find_pair_map_of)
  have k: "''MAXSTORAGECAP'' \<in> set numeric_keys" "''MAXFILECOUNT'' \<in> set numeric_keys" "''WORKERPOOLSIZE'' \<in> set numeric_keys"
    "''SOCKETBACKLOG'' \<in> set numeric_keys" "''TASKBUFSIZE'' \<in> set numeric_keys" "''LOGBUFSIZE'' \<in> set numeric_keys"
    "''REPLACEMENTALGO'' \<in> set numeric_keys"
    by (simp_all add: numeric_keys_def)
  have b: "MAX_VAL_LEN \<le> length b1" "MAX_VAL_LEN \<le> length b2" using assms(3,4) by (simp_all add: MAX_VAL_LEN_def BUFSIZ_def)
  show ?thesis
    by (simp add: read_config_def n [OF k(1)] n [OF k(2)] n [OF k(3)] n [OF k(4)] n [OF k(5)] n [OF k(6)] n [OF k(7)]
        GET_VAL_text_setting [OF assms(1) b(1)] GET_VAL_text_setting [OF assms(1) b(2)] config_of_def)
qed

lemma start_server_ok: "\<exists>st. start_server maxFiles maxSize algo sock p = Inr st"
  by (simp add: start_server_def allocStorage_def icl_hash_create_def)

lemma boot_settings:
  assumes "\<forall>l \<in> set ls. line_ok l" and "\<forall>i. mem i" and "gives (entries ls) nums"
    and "length b1 = BUFSIZ" and "length b2 = BUFSIZ" and "setting nums ''MAXFILECOUNT'' DFL_MAXFILECOUNT (\<lambda>v. v \<le> 0) < 2 ^ 34"
  shows "\<exists>c st. boot True mem name (Some (concat (map render ls))) b1 b2 sock p = Some (Inr (c, st)) \<and>
    c = config_of (entries ls) nums b1 b2 \<and>
    start_server (nat (maxFileCount c)) (nat (maxStorageCap c)) (short_of_long (algorithm c)) sock p = Inr st"
proof -
  let ?c = "config_of (entries ls) nums b1 b2"
  obtain q where q: "parseFile True mem name (Some (concat (map render ls))) ''='' = Some (Some q)" "err q = 0"
    "pairs q = rev (entries ls)"
    using parseFile_lines [OF assms(1,2)] by blast
  note c = read_config_settings [OF q(3) assms(3-5)]
  have "\<not> 2 ^ 31 \<le> maxFileCount ?c div 10 + 1" using assms(6) by (simp add: config_of_def)
  moreover obtain st where "start_server (nat (maxFileCount ?c)) (nat (maxStorageCap ?c)) (short_of_long (algorithm ?c)) sock p = Inr st"
    using start_server_ok by blast
  ultimately show ?thesis using q(1,2) c by (simp add: boot_def parserTestErr_def)
qed

lemma start_server_store:
  "start_server maxFiles maxSize algo sock p = Inr st \<Longrightarrow>
     maxFileNum (store st) = maxFiles \<and> maxStorageSize (store st) = maxSize \<and> replacementAlgo (store st) = algo"
  by (auto simp: start_server_def allocStorage_def icl_hash_create_def)

text \<open>The three policies fit in a \<open>short\<close>.\<close>

lemma policy_short: "0 \<le> algo \<Longrightarrow> algo \<le> 2 \<Longrightarrow> short_of_long algo = algo"
  by (rule short_of_long_small) simp_all

text \<open>C31: The parameters of the server are read from the configuration file. From a well-formed file every
  numeric parameter gets its last value in the file, read as the number it shows, or the default when it is
  missing or not allowed, and the two names likewise. The store that the server starts with has the limits
  of these parameters, and their policy when its number is at most 2 (a larger number is accepted too and
  cut to a \<open>short\<close>). The number of files is below \<open>2 ^ 34\<close>, so that the number of buckets is an \<open>int\<close>. That a
  parameter is read does not mean that it has an effect: \<open>TASKBUFSIZE\<close>, \<open>LOGBUFSIZE\<close> and \<open>SOCKETBACKLOG\<close> are
  read and not used after that, and the key \<open>LOGBUFFERSIZE\<close> of \<^verbatim>\<open>completeConfig.txt\<close> is not one of the parameters.\<close>

theorem boot_reads_config:
  assumes "\<forall>l \<in> set ls. line_ok l" and "\<forall>i. mem i" and "gives (entries ls) nums"
    and "length b1 = BUFSIZ" and "length b2 = BUFSIZ" and "setting nums ''MAXFILECOUNT'' DFL_MAXFILECOUNT (\<lambda>v. v \<le> 0) < 2 ^ 34"
  shows "\<exists>c st. boot True mem name (Some (concat (map render ls))) b1 b2 sock p = Some (Inr (c, st)) \<and>
    c = config_of (entries ls) nums b1 b2 \<and>
    start_server (nat (maxFileCount c)) (nat (maxStorageCap c)) (short_of_long (algorithm c)) sock p = Inr st \<and>
    maxFileNum (store st) = nat (maxFileCount c) \<and> maxStorageSize (store st) = nat (maxStorageCap c) \<and>
    (algorithm c \<le> 2 \<longrightarrow> replacementAlgo (store st) = algorithm c)"
proof -
  obtain c st where b: "boot True mem name (Some (concat (map render ls))) b1 b2 sock p = Some (Inr (c, st))"
    "c = config_of (entries ls) nums b1 b2"
    "start_server (nat (maxFileCount c)) (nat (maxStorageCap c)) (short_of_long (algorithm c)) sock p = Inr st"
    using boot_settings [OF assms] by blast
  have "0 \<le> algorithm c"
    by (simp add: b(2) config_of_def setting_def FIFO_ALGO_def DFL_REPLACEMENTALGO_def split: option.splits)
  then show ?thesis using b start_server_store [OF b(3)] policy_short [of "algorithm c"] by auto
qed

text \<open>C30: What \<open>main\<close> checks of its configuration. Whatever the file contains, when \<open>main\<close> gets past it the two
  limits, the number of workers and the backlog are positive and the two queue lengths are more than one,
  and the store has the two limits. The policy is not checked like this: its number is not negative as it is
  read, but nothing bounds it from above (\<open>policy_not_limited\<close> has a server that runs with policy 7), and the
  store gets it cut to a \<open>short\<close>. So the last part is only about the numbers 0, 1 and 2, the documented ones:
  there, when the limits also fit, the server starts in an initial state of this development.\<close>

theorem boot_in_range:
  assumes "boot mem_parser mem name contents b1 b2 sock p = Some (Inr (c, st))"
  shows "parameters_ok c \<and>
    maxFileNum (store st) = nat (maxFileCount c) \<and> maxStorageSize (store st) = nat (maxStorageCap c) \<and>
    replacementAlgo (store st) = short_of_long (algorithm c) \<and>
    (algorithm c \<le> 2 \<and> config_limits (nat (maxFileCount c)) (nat (maxStorageCap c)) (algorithm c) sock p \<longrightarrow>
       replacementAlgo (store st) = algorithm c \<and>
       reachable (nat (maxFileCount c)) (nat (maxStorageCap c)) (algorithm c) st)"
proof -
  have c: "read_config q b1 b2 = Some (Inr c) \<Longrightarrow> parameters_ok c" for q by (rule read_parameters_ok)
  have st: "start_server (nat (maxFileCount c)) (nat (maxStorageCap c)) (short_of_long (algorithm c)) sock p = Inr st" and "parameters_ok c"
    using assms c by (auto simp: boot_def split: bind_splits sum.splits if_splits)
  moreover have "short_of_long (algorithm c) = algorithm c \<and> reachable (nat (maxFileCount c)) (nat (maxStorageCap c)) (algorithm c) st"
    if l: "algorithm c \<le> 2" "config_limits (nat (maxFileCount c)) (nat (maxStorageCap c)) (algorithm c) sock p"
  proof -
    have "short_of_long (algorithm c) = algorithm c"
      using l \<open>parameters_ok c\<close> by (intro policy_short) (simp_all add: parameters_ok_def FIFO_ALGO_def)
    then show ?thesis using reachable.init [OF _ l(2)] st by simp
  qed
  ultimately show ?thesis using start_server_store [OF st] by simp
qed

lemma demo_gives: "gives [(''MAXFILECOUNT'', show_int 10), (''REPLACEMENTALGO'', show_int 2)] [''MAXFILECOUNT'' \<mapsto> 10, ''REPLACEMENTALGO'' \<mapsto> 2]"
  by (simp add: gives_def numeric_keys_def long_max_def)

lemma demo_settings:
  "config_of [(''MAXFILECOUNT'', show_int 10), (''REPLACEMENTALGO'', show_int 2)] [''MAXFILECOUNT'' \<mapsto> 10, ''REPLACEMENTALGO'' \<mapsto> 2] b1 b2 =
     \<lparr>maxStorageCap = 10000, maxFileCount = 10, workerPoolSize = 10, socketBacklog = 10, taskBufSize = 2048, logBufSize = 2048,
      algorithm = 2, sockname = take MAX_VAL_LEN (''serversocket.sk'' @ calloc MAX_VAL_LEN) @ drop MAX_VAL_LEN b1,
      logfilename = take MAX_VAL_LEN (''logs.json'' @ calloc MAX_VAL_LEN) @ drop MAX_VAL_LEN b2\<rparr>"
  by (simp add: config_of_def setting_def text_setting_def DFL_MAXSTORAGECAP_def DFL_POOLSIZE_def DFL_SOCKETBACKLOG_def
      DFL_TASKBUFSIZE_def DFL_LOGBUFSIZE_def DFL_SOCKNAME_def DFL_LOGFILENAME_def FIFO_ALGO_def)

lemma demo_lines:
  "\<forall>l \<in> set [Entry ''MAXFILECOUNT'' 0 (show_int 10), Comment '' LFU'', Entry ''REPLACEMENTALGO'' 1 (show_int 2)]. line_ok l"
proof -
  have "show_int 10 = ''10''" "show_int 2 = ''2''" by code_simp+
  then show ?thesis by (simp add: BUFSIZ_def MAX_KEY_LEN_def MAX_VAL_LEN_def)
qed

theorem boot_reads_config_witness:
  "\<exists>c st. boot True (\<lambda>_. True) ''c'' (Some (''MAXFILECOUNT=10'' @ LF @ ''# LFU'' @ LF @ ''REPLACEMENTALGO =2'' @ LF))
       (calloc BUFSIZ) (calloc BUFSIZ) 4 3 = Some (Inr (c, st)) \<and>
     maxFileCount c = 10 \<and> maxStorageCap c = 10000 \<and> algorithm c = 2 \<and> workerPoolSize c = 10"
proof -
  let ?ls = "[Entry ''MAXFILECOUNT'' 0 (show_int 10), Comment '' LFU'', Entry ''REPLACEMENTALGO'' 1 (show_int 2)]"
  let ?nums = "[''MAXFILECOUNT'' \<mapsto> 10, ''REPLACEMENTALGO'' \<mapsto> 2] :: cstring \<rightharpoonup> int"
  have e: "entries ?ls = [(''MAXFILECOUNT'', show_int 10), (''REPLACEMENTALGO'', show_int 2)]" by (simp add: entries_def)
  have r: "concat (map render ?ls) = ''MAXFILECOUNT=10'' @ LF @ ''# LFU'' @ LF @ ''REPLACEMENTALGO =2'' @ LF" by code_simp
  have "setting ?nums ''MAXFILECOUNT'' DFL_MAXFILECOUNT (\<lambda>v. v \<le> 0) < 2 ^ 34" by (simp add: setting_def)
  from boot_reads_config [OF demo_lines _ demo_gives [folded e] _ _ this, of "\<lambda>_. True" "calloc BUFSIZ" "calloc BUFSIZ" "''c''" 4 3]
  show ?thesis unfolding r e demo_settings by (auto simp del: replicate.simps)
qed

theorem boot_in_range_witness:
  "\<exists>c st. boot True (\<lambda>_. True) ''c'' (Some []) (calloc BUFSIZ) (calloc BUFSIZ) 4 3 = Some (Inr (c, st)) \<and>
     parameters_ok c \<and> reachable 100 10000 0 st"
proof -
  have "gives (entries []) (\<lambda>_. None)" by (simp add: gives_def entries_def)
  moreover have "setting (\<lambda>_. None) ''MAXFILECOUNT'' DFL_MAXFILECOUNT (\<lambda>v. v \<le> 0) < 2 ^ 34" by (simp add: setting_def DFL_MAXFILECOUNT_def)
  ultimately obtain c st where b: "boot True (\<lambda>_. True) ''c'' (Some []) (calloc BUFSIZ) (calloc BUFSIZ) 4 3 = Some (Inr (c, st))"
    and c: "c = config_of [] (\<lambda>_. None) (calloc BUFSIZ) (calloc BUFSIZ)"
    using boot_settings [of "[]" "\<lambda>_. True" "\<lambda>_. None" "calloc BUFSIZ" "calloc BUFSIZ" "''c''" 4 3] by (auto simp: entries_def)
  have "nat (maxFileCount c) = 100" "nat (maxStorageCap c) = 10000" "algorithm c = 0"
    by (simp_all add: c config_of_def setting_def DFL_MAXFILECOUNT_def DFL_MAXSTORAGECAP_def DFL_REPLACEMENTALGO_def)
  moreover have "config_limits 100 10000 0 4 3" by (simp add: config_limits_def)
  ultimately show ?thesis using boot_in_range [OF b] b by (intro exI [of _ c] exI [of _ st]) simp
qed

text \<open>The number of the policy has no upper limit: 7 is taken as it is, although there are three policies.\<close>

lemma policy_not_limited:
  assumes "length b1 = BUFSIZ" and "length b2 = BUFSIZ"
  shows "\<exists>c st. boot True (\<lambda>_. True) name (Some (''REPLACEMENTALGO='' @ show_int 7 @ LF)) b1 b2 sock p = Some (Inr (c, st)) \<and>
    algorithm c = 7 \<and> replacementAlgo (store st) = 7"
proof -
  let ?ls = "[Entry ''REPLACEMENTALGO'' 0 (show_int 7)]" and ?nums = "[''REPLACEMENTALGO'' \<mapsto> 7] :: cstring \<rightharpoonup> int"
  have "show_int 7 = ''7''" by code_simp
  then have "\<forall>l \<in> set ?ls. line_ok l" by (simp add: BUFSIZ_def MAX_KEY_LEN_def MAX_VAL_LEN_def)
  moreover have "gives (entries ?ls) ?nums" by (simp add: gives_def entries_def numeric_keys_def long_max_def)
  moreover have "setting ?nums ''MAXFILECOUNT'' DFL_MAXFILECOUNT (\<lambda>v. v \<le> 0) < 2 ^ 34" by (simp add: setting_def DFL_MAXFILECOUNT_def)
  moreover have "concat (map render ?ls) = ''REPLACEMENTALGO='' @ show_int 7 @ LF" by simp
  ultimately obtain c st where b: "boot True (\<lambda>_. True) name (Some (''REPLACEMENTALGO='' @ show_int 7 @ LF)) b1 b2 sock p = Some (Inr (c, st))"
    and c: "c = config_of (entries ?ls) ?nums b1 b2"
    and st: "start_server (nat (maxFileCount c)) (nat (maxStorageCap c)) (short_of_long (algorithm c)) sock p = Inr st"
    using boot_settings [of ?ls "\<lambda>_. True" ?nums b1 b2 name sock p] assms by (smt (verit, ccfv_threshold))
  have "algorithm c = 7" by (simp add: c config_of_def setting_def FIFO_ALGO_def)
  moreover have "replacementAlgo (store st) = short_of_long (algorithm c)"
    using st by (auto simp: start_server_def allocStorage_def icl_hash_create_def)
  ultimately show ?thesis using b by (auto simp: short_of_long_small)
qed

end
