(* ===== verification/Spec2Isabelle.thy ===== *)
theory Spec2Isabelle
  imports BoundedBuffer Shutdown RwProps ClientStore ServerConfig
begin

text \<open>
  A model of the file storage server and its client: a server keeps files in memory within a limit on
  their number and on their (compressed) bytes, evicts files by a replacement policy when there is no
  room, and lets clients open, lock, read, write, append to, unlock, close and remove them over a local
  socket. The sources are in \<^verbatim>\<open>src/src\<close>, with the headers in \<^verbatim>\<open>src/include\<close> and \<^verbatim>\<open>src/utils\<close>.

  \<^bold>\<open>The program.\<close> The main thread of \<^verbatim>\<open>server.c\<close> (the manager) waits in \<open>select\<close> for the listening socket, for
  the clients that no worker holds, and for a pipe. A ready client is taken out of the set and put in a queue
  of tasks (\<^verbatim>\<open>boundedbuffer.c\<close>); a worker takes it, reads one request, calls a handler of the storage
  (\<^verbatim>\<open>filesystemApi.c\<close>), answers, and writes the descriptor to the pipe, which gives it back to the
  manager. A client that asks for a lock that another client holds is not answered and not given back:
  it waits in the list of the file until a handler returns it to the worker of another request to be
  notified. The storage indexes its files with a hash table (\<^verbatim>\<open>icl_hash.c\<close>), compresses them
  (\<^verbatim>\<open>rleCompression.c\<close>), chooses victims with the comparisons of \<^verbatim>\<open>cacheFns.c\<close>, and logs events through a
  second bounded buffer to the thread of \<^verbatim>\<open>log.c\<close>. The client program (\<^verbatim>\<open>client.c\<close>) parses its command
  line (\<^verbatim>\<open>cliParser.c\<close>), checks all the commands and then runs them with the library of \<^verbatim>\<open>clientApi.c\<close>, which
  saves the files it gets back with the helpers of \<^verbatim>\<open>clientInternals.c\<close>. The server is configured by a file
  read by \<^verbatim>\<open>fileparser.c\<close>.

  \<^bold>\<open>Conventions\<close> (theory \<open>Prelude\<close>). A definition has the name of the function or macro it translates. An error
  that the code reports is \<open>Inl errno\<close>; undefined behaviour (an access outside a block, NULL or a freed
  block dereferenced, a block freed twice), a failed \<open>assert\<close> and a call that never returns are \<open>None\<close>, so that
  a theorem with a result \<open>Some\<close> also says that none of these happens. Blocks of memory are lists of
  bytes read and written by \<open>peek\<close> and \<open>poke\<close>; nodes that are shared live in explicit heaps; lists that
  have one owner are lists. \<open>size_t\<close> wraps at \<open>2 ^ 64\<close> (\<open>size_add\<close>, \<open>size_sub\<close>), the hash function and the
  conversions from \<open>long\<close> to \<open>int\<close> have their widths. Whether an allocation succeeds is an argument where the code
  tests it and goes on: for the store and its table, a new file, the buffers of a read of many files, the
  lists and the parsers. It is not where a failure ends the process, for the content in a read of one file (whose
  branch for \<open>ENOMEM\<close> is reached only with an empty file), and for the requests of the client library.

  \<^bold>\<open>Data structures.\<close>
  \<^item> \<open>IclHash\<close>, \<^verbatim>\<open>icl_hash.c\<close>: buckets, chains and counter; under \<open>ht_wf\<close> the table is a finite map. The locale
    \<open>dictionary\<close> is the contract on which the storage relies. Likewise \<open>codec\<close> (compression), \<open>wait_queue\<close> (the
    clients that wait for a lock) and \<open>replacement_policy\<close> (the comparison of files) are interfaces that are interpreted on
    the code's definitions.
  \<^item> \<open>RleCompression\<close>, \<^verbatim>\<open>rleCompression.c\<close>: both loops, index by index; compression computes \<open>rle_spec\<close> inside
    its block and decompression inverts it.
  \<^item> \<open>FdList\<close>: the lists of descriptors of \<^verbatim>\<open>filesystemApi.c\<close>.
  \<^item> \<open>BoundedBuffer\<close>, \<^verbatim>\<open>boundedbuffer.c\<close>: the linked queue refined to a list, and the monitor of any number
    of threads: order is kept, no wakeup is lost.
  \<^item> \<open>Printf\<close>, \<open>CStrings\<close>: what the program uses of \<^verbatim>\<open>printf\<close>, \<open>atol\<close>, \<open>strtok_r\<close> and \<open>strncpy\<close>.
  \<^item> \<open>EventLog\<close>: \<open>logEvent\<close> of \<^verbatim>\<open>filesystemApi.c\<close> with its buffer of 1024 bytes, and \<open>logFlusher\<close> of \<^verbatim>\<open>log.c\<close>.

  \<^bold>\<open>The storage.\<close>
  \<^item> \<open>Storage\<close>: the structures of \<^verbatim>\<open>filesystemApi.h\<close> and the operations below the handlers (allocation,
    lookup, insertion, destruction, choice of a victim). \<open>Handlers\<close>: one definition per handler, with its guards,
    log entries, evictions and output parameters.
  \<^item> \<open>StorageSpec\<close>: the abstract store, a list of files with their contents, owners and waiting clients, and
    \<open>store_rep\<close>, which ties list, hash table, counters and compressed contents together. \<open>HandlersSpec\<close>: what
    each handler does on the abstract store. \<open>Refinement\<close>, \<open>RefinementEvict\<close>, \<open>RefinementWrite\<close>,
    \<open>ReadNFiles\<close>: each handler refines it. \<open>Eviction\<close>: the victim that each policy chooses. \<open>Invariant\<close>: well-formedness
    of the abstract store is kept. \<open>HandlerProps\<close>, \<open>WriteProps\<close>: the handlers' properties, exercised on the store of \<open>Example\<close>.
  \<^item> \<open>RwLock\<close>, \<open>RwProps\<close>: the handlers again, as far as they lock a file: any number of threads interleaved at
    every acquisition of the two mutexes and of the condition variable of a file and of the mutex of the store. Readers
    and writers exclude each other, nothing deadlocks, no wakeup is lost; three interleavings show what is not excluded.

  \<^bold>\<open>The server.\<close>
  \<^item> \<open>Server\<close>: a worker's round, from the bytes that a client sends to the messages written.
    \<open>ServerSpec\<close>: requests as a datatype, \<open>decode\<close>, and the answers on the abstract store. \<open>ServerRefinement\<close>,
    \<open>ServerRequests\<close>: a worker does what \<open>ServerSpec\<close> says. \<open>ProtocolProps\<close>: properties of the protocol.
  \<^item> \<open>Manager\<close>: the manager's three reactions, the queue, the pipe, and \<open>sys_step\<close>, the steps of the manager and of any
    number of workers, with \<open>reachable\<close>. \<open>Clients\<close>, \<open>ServerInvariant\<close>: what a request does to the waiting clients and
    the owners of locks. \<open>System\<close>: the invariant \<open>system_ok\<close> of every reachable state. \<open>Progress\<close>: a worker
    never gets stuck, and a run of the server that the theorems below are exercised on. \<open>Shutdown\<close>: the
    termination messages, and the workers until the last one has ended, with what fits in the two queues.
  \<^item> \<open>FileParser\<close>, \<open>ServerConfig\<close>: configuration files and the start of \<open>main\<close>. The parameters are those that
    the file gives, and pass the checks that \<open>main\<close> makes.

  \<^bold>\<open>The client.\<close>
  \<^item> \<open>ClientInternals\<close>, \<open>ClientApi\<close>: the helpers and the library, over the bytes sent and received.
    \<open>CliParser\<close>, \<open>Client\<close>: the command line and the program.
  \<^item> \<open>ClientProps\<close>, \<open>ClientCommands\<close>, \<open>ClientStore\<close>: the bytes that the library sends are decoded by the server to
    the requests meant, its answers are understood, the check of the command line passes exactly the well-formed commands, a
    command sends the requests or the files it stands for, and a file that is sent is in the store afterwards.

  \<^bold>\<open>Bounds.\<close> Only what the formats of the code require is assumed: names of at most \<open>PATH_LIMIT\<close> = 700 characters
  (a log entry is built by \<open>sprintf\<close> in 1024 bytes, and overflows with some 800; \<open>format_event_overflow\<close>), lengths
  below \<open>10 ^ 10\<close> (ten digits in the protocol), sizes in memory below \<open>2 ^ 60\<close> so that the products and sums of the code do not
  wrap, descriptors below \<open>2 ^ 31\<close> (for the whole server below \<open>FD_SETSIZE\<close> = 1024,
  with at most \<open>10 ^ 9\<close> files and \<open>3 * 10 ^ 9\<close> bytes, so that every answer has a length of ten digits), times and reference counts that fit an \<open>int\<close> for the comparison of victims. Loops
  that follow pointers use \<open>partial_function (option)\<close>, so that \<open>Some\<close> means that they return; the functions of the server and the
  client terminate by structural recursion or a measure. No fuel is used.

  \<^bold>\<open>Where the code falls short\<close> is stated by theorems of its own, beside the properties that hold: for example
  \<open>RLEdecompress_single_NUL\<close>, \<open>readNFiles_overflow\<close>, \<open>icl_hash_update_insert_overcounts\<close>,
  \<open>writer_assertion_can_fail\<close>, \<open>lock_can_be_granted_twice\<close>, \<open>policy_not_limited\<close>,
  \<open>idle_server_misses_signal\<close>, \<open>strremove_leaves_dots\<close>, \<open>missing_argument_frees_twice\<close>, \<open>w_needs_a_number\<close>, \<open>storeFiles_hangs\<close>. The
  properties exclude these cases, and say so.

  \<^bold>\<open>Idealised.\<close> The worker takes the argument of a read of many files with one plain \<open>read\<close>, which is taken to
  get all the bytes that are there. A log entry is put in its queue at once (\<open>logEvent\<close>): while the flusher runs a full
  queue only delays its caller; what happens behind the message that ends the flusher is part of \<open>Shutdown\<close>. In
  \<open>HandlersSpec\<close> a well-formed store has no file whose whole content is a single NUL byte, the one content that
  cannot be decompressed; the requests of the whole server do not write such a content.

  \<^bold>\<open>Not modelled.\<close> The installation of the signal handler and the creation of threads; what is
  printed on the terminal; sleeping. The macros of
  \<^verbatim>\<open>scerrhand.h\<close> end the process when a system call on a socket, a mutex or a pipe fails; the steps of the model are those in
  which these calls succeed. \<open>realpath\<close>, the directories, \<open>connect\<close>, \<open>mkdir\<close> and \<open>fopen\<close> are parameters of
  the client. In \<open>Manager\<close> a handler runs as one step; the finer interleavings on one file are those of \<open>RwLock\<close>, which
  leaves out the rest of the store. The shell scripts, the tests and the build files are not part of the model.
\<close>

section \<open>The server as a whole\<close>

text \<open>C1: no client is lost or duplicated. In every reachable state of the server, a descriptor that is
  connected is in exactly one place - watched by \<open>select\<close>, in the queue of tasks, held by a worker, on
  its way back through the pipe, or waiting for the lock of one file - and one that is not connected is
  nowhere.\<close>

theorem no_client_lost:
  assumes "reachable maxFiles maxSize algo st"
  shows "\<exists>xs fs. sim (store st) xs fs \<and> (\<forall>c. count (places st fs) c = of_bool (c \<in> connected st))"
  using reachable_ok [OF assms] system_ok_places(2) by (metis system_ok_def)

theorem no_client_lost_witness:
  "\<exists>st xs fs. reachable 10 1000 0 st \<and> sim (store st) xs fs \<and> connected st = {5, 6} \<and> count (places st fs) 6 = 1"
proof -
  obtain s where r: "reachable 10 1000 0 (demo_state 4 {} s [5] [])" using demo_locked by blast
  show ?thesis using no_client_lost [OF r] r by (metis demo_sel(4) insertCI of_bool_eq(2))
qed

text \<open>C17: the manager's bookkeeping. In every reachable state \<open>clientCount\<close> is the number of
  connected clients plus the news of departures still in the pipe, the maximum is not below it, and
  \<open>select\<close> is called with a bound \<open>fd_num\<close> that covers the listening socket, the pipe and every watched
  client, all of them connected: the decrement of \<open>fd_num\<close> by one never hides a descriptor. No client is in
  the queue of tasks twice, and the queue has room, so that the manager never waits for a worker.\<close>

theorem manager_bookkeeping:
  assumes "reachable maxFiles maxSize algo st"
  shows "clientCount (mgr st) = int (card (connected st) + departures (pipe st)) \<and>
     clientCount (mgr st) \<le> maxSimultaneousClients (mgr st) \<and>
     {fd_socket (mgr st), pipe_in (mgr st)} \<subseteq> setsave (mgr st) \<and> setsave (mgr st) \<subseteq> {1..fd_num (mgr st)} \<and>
     setsave (mgr st) - {fd_socket (mgr st), pipe_in (mgr st)} \<subseteq> connected st \<and>
     distinct (taskBuffer st) \<and> length (taskBuffer st) < MAX_TASKS"
proof -
  obtain xs fs where ok: "system_ok maxFiles maxSize algo st xs fs" using reachable_ok [OF assms] by blast
  have fin: "finite (watched (mgr st))" using ok by (simp add: system_ok_def manager_ok_def Let_def watched_def)
  have "watched (mgr st) \<subseteq> connected st"
    using system_ok_places(1) [OF ok] fin by (auto simp: places_def)
  then show ?thesis using ok taskBuffer_room [OF ok] by (fastforce simp: system_ok_def manager_ok_def Let_def watched_def)
qed

theorem manager_bookkeeping_witness:
  "\<exists>st. reachable 10 1000 0 st \<and> working st = [5] \<and> clientCount (mgr st) = 2 \<and> setsave (mgr st) \<subseteq> {1..fd_num (mgr st)}"
proof -
  obtain s where r: "reachable 10 1000 0 (demo_state 4 {} s [5] [])" using demo_locked by blast
  show ?thesis using manager_bookkeeping [OF r] r by (intro exI [of _ "demo_state 4 {} s [5] []"]) (simp add: departures_def)
qed

text \<open>C3: capacity. In every reachable state the store holds at most the configured number of files and of
  bytes; \<open>currFileNum\<close>, \<open>currStorageSize\<close> and \<open>nentries\<close> of the hash table count what is on the linked
  list, and no file is left with an active reader or writer.\<close>

theorem store_within_limits:
  assumes "reachable maxFiles maxSize algo st"
  shows "\<exists>xs. store_rep (store st) xs \<and> currFileNum (store st) = length xs \<and> length xs \<le> maxFiles \<and>
     nentries (dictStore (store st)) = int (length xs) \<and>
     currStorageSize (store st) = sum_list (map (\<lambda>a. contentSize (node_at (store st) a)) xs) \<and>
     currStorageSize (store st) \<le> maxSize \<and> list_all (\<lambda>a. quiet (node_at (store st) a)) xs"
proof -
  obtain xs fs where ok: "system_ok maxFiles maxSize algo st xs fs" using reachable_ok [OF assms] by blast
  then have rep: "store_rep (store st) xs" and q: "\<forall>a \<in> set xs. quiet (node_at (store st) a)"
    and lim: "limits fs = (maxFiles, maxSize, algo)" and abs: "abs_store (store st) xs = fs"
    by (simp_all add: system_ok_def sim_busy_def)
  have m: "maxFileNum (store st) = maxFiles" "maxStorageSize (store st) = maxSize"
    using lim abs by (auto simp: limits_def abs_store_def)
  have size: "csize (abs_file (node_at (store st) a)) = contentSize (node_at (store st) a)" if "a \<in> set xs" for a
    using rep that by (simp add: store_rep_def node_ok_def content_ok_def csize_def)
  have "total_size (abs_files (store st) xs) = sum_list (map (\<lambda>a. contentSize (node_at (store st) a)) xs)"
    by (simp add: total_size_def abs_files_def size cong: map_cong)
  moreover have "nentries (dictStore (store st)) = int (length xs)"
    using rep ht_nentries(2) [of "dictStore (store st)"]
      distinct_card [of "map (\<lambda>a. pathname (node_at (store st) a)) xs"]
    by (simp add: store_rep_def dict_rep_def dom_map_of_conv_image_fst image_image)
  ultimately show ?thesis using rep q m
    by (intro exI [of _ xs]) (simp add: store_rep_def count_rep_def list_all_iff)
qed

theorem store_within_limits_witness:
  "\<exists>st. reachable 10 1000 0 st \<and> working st = [5] \<and> currFileNum (store st) \<le> 10 \<and> currStorageSize (store st) \<le> 1000 \<and>
     nentries (dictStore (store st)) = int (currFileNum (store st))"
proof -
  obtain s where r: "reachable 10 1000 0 (demo_state 4 {} s [5] [])" using demo_locked by blast
  show ?thesis using store_within_limits [OF r] r by (intro exI [of _ "demo_state 4 {} s [5] []"]) auto
qed

text \<open>C4: locks. In every reachable state a file is locked by a connected client or by nobody; who waits for
  a lock waits for one lock only, on a file that is locked, is connected, and is neither watched by
  the manager nor in the queue of tasks nor held by a worker.\<close>

theorem locks_belong_to_clients:
  assumes "reachable maxFiles maxSize algo st"
  shows "\<exists>xs. store_rep (store st) xs \<and> distinct (concat (map (\<lambda>a. pendingLocks (node_at (store st) a)) xs)) \<and>
     list_all (\<lambda>a. let n = node_at (store st) a in
       (lockedBy n = 0 \<or> lockedBy n \<in> connected st) \<and> (pendingLocks n = [] \<or> lockedBy n \<noteq> 0) \<and>
       set (pendingLocks n) \<subseteq> connected st - setsave (mgr st) - set (taskBuffer st) - set (working st)) xs"
proof -
  obtain xs fs where ok: "system_ok maxFiles maxSize algo st xs fs" using reachable_ok [OF assms] by blast
  then have rep: "store_rep (store st) xs" and abs: "abs_store (store st) xs = fs" and fs: "fs_ok fs"
    and own: "owners fs \<subseteq> connected st"
    by (simp_all add: system_ok_def sim_busy_def)
  let ?ws = "concat (map (\<lambda>a. pendingLocks (node_at (store st) a)) xs)"
  have files: "f_files fs = map (\<lambda>a. abs_file (node_at (store st) a)) xs"
    using abs by (auto simp: abs_store_def abs_files_def)
  have w: "waiting fs = mset ?ws" by (simp add: waiting_def files comp_def)
  have once: "count (waiting fs) c \<le> 1" for c
    using system_ok_places(2) [OF ok, of c] by (cases "c \<in> connected st") (simp_all add: places_def)
  then have "distinct ?ws" unfolding w by (metis count_mset_0_iff distinct_count_atmost_1 le_antisym le_zero_eq linorder_not_less less_one)
  have fin: "finite (setsave (mgr st))" and m: "\<forall>c \<in> connected st. c \<noteq> fd_socket (mgr st) \<and> c \<noteq> pipe_in (mgr st)"
    using ok by (auto simp: system_ok_def manager_ok_def Let_def)
  have away: "c \<in> connected st - setsave (mgr st) - set (taskBuffer st) - set (working st)" if a: "a \<in> set xs" "c \<in> set (pendingLocks (node_at (store st) a))" for a c
  proof -
    have that: "c \<in> set ?ws" using a by auto
    have "c \<in> connected st" using waiting_connected [OF ok, of c] that by (simp add: w)
    then have "count (places st fs) c = 1" using system_ok_places(2) [OF ok, of c] by simp
    moreover have "0 < count (waiting fs) c" using that by (simp add: w)
    ultimately have "count (mset_set (watched (mgr st))) c = 0" "count (mset (taskBuffer st)) c = 0" "count (mset (working st)) c = 0"
      unfolding places_def count_union by linarith+
    then show ?thesis using \<open>c \<in> connected st\<close> fin m by (auto simp: watched_def count_eq_zero_iff)
  qed
  have node: "file_ok (abs_file (node_at (store st) a))" "lockedBy (node_at (store st) a) \<noteq> 0 \<longrightarrow> lockedBy (node_at (store st) a) \<in> connected st"
    if "a \<in> set xs" for a
  proof -
    show "file_ok (abs_file (node_at (store st) a))" using that fs by (simp add: fs_ok_def files)
    have "lockedBy (node_at (store st) a) \<in> insert 0 (owners fs)" using that by (force simp: owners_def files)
    then show "lockedBy (node_at (store st) a) \<noteq> 0 \<longrightarrow> lockedBy (node_at (store st) a) \<in> connected st" using own by blast
  qed
  have "list_all (\<lambda>a. let n = node_at (store st) a in
       (lockedBy n = 0 \<or> lockedBy n \<in> connected st) \<and> (pendingLocks n = [] \<or> lockedBy n \<noteq> 0) \<and>
       set (pendingLocks n) \<subseteq> connected st - setsave (mgr st) - set (taskBuffer st) - set (working st)) xs"
    unfolding list_all_iff Let_def
    by (intro ballI conjI subsetI away) (use node in \<open>auto simp: file_ok_def\<close>)
  then show ?thesis using rep \<open>distinct ?ws\<close> by blast
qed

theorem locks_belong_to_clients_witness:
  "\<exists>st xs. reachable 10 1000 0 st \<and> store_rep (store st) xs \<and> map (\<lambda>a. pendingLocks (node_at (store st) a)) xs = [[6]] \<and>
     6 \<in> connected st - setsave (mgr st) - set (working st)"
proof -
  obtain s xs fs where r: "reachable 10 1000 0 (demo_state 4 {} s [5] [])" and sim: "sim s xs fs"
    and f: "f_files fs = [demo_file [6]]" using demo_locked by blast
  obtain ys where ys: "store_rep s ys" and all: "list_all (\<lambda>a. let n = node_at s a in
       (lockedBy n = 0 \<or> lockedBy n \<in> {5, 6}) \<and> (pendingLocks n = [] \<or> lockedBy n \<noteq> 0) \<and>
       set (pendingLocks n) \<subseteq> {5, 6} - setsave (mgr (demo_state 4 {} s [5] [])) - {5}) ys"
    using locks_belong_to_clients [OF r] by auto
  have "ys = xs" using ys sim dll_unique by (auto simp: sim_busy_def store_rep_def list_rep_def)
  moreover have "map (\<lambda>a. pendingLocks (node_at s a)) xs = map a_wait (f_files fs)"
    using sim_counts(7) [OF sim] by (simp add: abs_files_def)
  ultimately have w: "map (\<lambda>a. pendingLocks (node_at s a)) ys = [[6]]" by (simp add: f demo_file_def)
  then obtain a where "ys = [a]" "pendingLocks (node_at s a) = [6]" by auto
  then show ?thesis using r ys w all by (intro exI [of _ "demo_state 4 {} s [5] []"] exI [of _ ys]) auto
qed

text \<open>C13: every request is served, except a read of many files that overflows the handler's buffer. In a
  reachable state a worker that holds a client, on any bytes that decode to a proper request (one whose
  path is within the limit and without NUL, and whose content, if it has one, is not a single NUL byte) and with the
  memory it asks for, finishes without a fault; the client then goes back to the manager unless it left or
  has to wait for a lock, it waits exactly if the file is locked by another, and it stays connected unless
  it left. The exception is a fault of the code: a read of many files for which the doubling of the buffer
  is not enough (C12) makes the worker write outside it, and then there is no next state.\<close>

theorem worker_always_serves:
  assumes "reachable maxFiles maxSize algo st" and "c \<in> set (working st)" and "env_ok env (store st)"
    and "decode inp = Some (r, rest)" and "proper r" and "sim (store st) xs fs"
  shows "if readable unset fs r then
     \<exists>st' out. worker_serve env unset c inp st = Some (st', out, rest) \<and> sys_step st st' \<and>
       (c \<in># returned (pipe st') \<longleftrightarrow> r \<noteq> Exit \<and> \<not> queued fs c r) \<and> (c \<in> connected st' \<longleftrightarrow> r \<noteq> Exit) \<and>
       (\<exists>xs' fs'. sim (store st') xs' fs' \<and> (c \<in># waiting fs' \<longleftrightarrow> queued fs c r))
   else worker_serve env unset c inp st = None"
proof (cases "readable unset fs r")
  case False
  have "system_ok maxFiles maxSize algo st xs fs" by (rule reachable_sim [OF assms(1,6)])
  then have "serve env unset (store st) c inp = None"
    using served_readable [OF _ assms(3,2,4)] False by (cases "serve env unset (store st) c inp") blast+
  then show ?thesis using False by (simp add: worker_serve_def)
next
  case True
  have ok: "system_ok maxFiles maxSize algo st xs fs" by (rule reachable_sim [OF assms(1,6)])
  obtain fs' out where sp: "spec_serve env unset fs c r = (fs', out)" by fastforce
  obtain xs' st' s' where w: "worker_serve env unset c inp st = Some (st', out, rest)" and step: "sys_step st st'"
    and st': "st' = st\<lparr>store := s', working := remove1 c (working st), pipe := pipe st @ pipe_msgs out,
              connected := connected st - closed out\<rparr>"
    and ok': "system_ok maxFiles maxSize algo st' xs' fs'"
    using work_step [OF assms(1) ok assms(2-5) True sp] by blast
  note c = working_client [OF ok assms(2)]
  have fs: "fs_ok fs" and mem: "mem_ok env" using ok assms(3) by (simp_all add: system_ok_def env_ok_def)
  have "served c (r = Exit) fs fs' out"
    using spec_serve_served [OF fs mem assms(5) c(2,3) _ sp] waiting_connected [OF ok] by blast
  then have cl: "closed out = (if r = Exit then {c} else {})"
    and wt: "waiting fs' + returned (pipe_msgs out) = waiting fs + (if r = Exit then {#} else {#c#})"
    by (simp_all add: served_def)
  have con: "c \<in> connected st' \<longleftrightarrow> r \<noteq> Exit" using cl c(1) by (simp add: st')
  have p: "c \<notin># returned (pipe st)"
  proof -
    have "count (places st fs) c = 1" using system_ok_places(2) [OF ok, of c] c(1) by simp
    moreover have "0 < count (mset (working st)) c" using assms(2) by (metis count_greater_zero_iff set_mset_mset)
    ultimately have "count (returned (pipe st)) c = 0" unfolding places_def count_union by linarith
    then show ?thesis by (simp add: count_eq_zero_iff)
  qed
  have sum: "count (waiting fs') c + count (returned (pipe_msgs out)) c = (if r = Exit then 0 else 1)"
    using arg_cong [OF wt, of "\<lambda>M. count M c"] c(3) by (simp add: not_in_iff split: if_splits)
  have mem: "c \<in># M \<longleftrightarrow> 0 < count M c" for M by simp
  have q: "c \<in># returned (pipe_msgs out) \<longleftrightarrow> r \<noteq> Exit \<and> \<not> queued fs c r"
    using spec_serve_returned [OF c(2) sp] sum
    unfolding mem by (cases "r = Exit") (auto simp: queued_def simp del: count_greater_zero_iff)
  have ret: "returned (pipe st') = returned (pipe st) + returned (pipe_msgs out)" by (simp add: st' returned_def)
  have "c \<in># returned (pipe st') \<longleftrightarrow> r \<noteq> Exit \<and> \<not> queued fs c r"
    using q p by (simp add: ret)
  moreover have "c \<in># waiting fs' \<longleftrightarrow> queued fs c r"
    using q sum unfolding mem by (cases "r = Exit") (auto simp: queued_def simp del: count_greater_zero_iff)
  moreover have "sim (store st') xs' fs'" using ok' by (simp add: system_ok_def)
  ultimately show ?thesis using w step con True by auto
qed

theorem worker_always_serves_witness:
  "\<exists>st st' out. reachable 10 1000 0 st \<and> working st = [5] \<and>
     worker_serve (env_at 2) 0 5 (''6'' @ ''0000000002'' @ ''/a'') st = Some (st', out, []) \<and> 5 \<in># returned (pipe st')"
proof -
  obtain s xs fs where r: "reachable 10 1000 0 (demo_state 4 {} s [5] [])" and sim: "sim s xs fs"
    and f: "f_files fs = [demo_file [6]]" and env: "env_ok (env_at 2) s" using demo_locked by blast
  have "proper (Lock ''/a'')" by (simp add: proper_def PATH_LIMIT_def)
  moreover have "\<not> queued fs 5 (Lock ''/a'')" by (simp add: queued_def f a_lookup_def demo_file_def new_file_def)
  ultimately obtain st' out where "worker_serve (env_at 2) 0 5 (''6'' @ ''0000000002'' @ ''/a'') (demo_state 4 {} s [5] []) = Some (st', out, [])"
    and "5 \<in># returned (pipe st')"
    using worker_always_serves [OF r _ _ demo_lock_decode, of 5 "env_at 2" xs fs 0] sim env by auto
  then show ?thesis using r by (metis demo_sel(2))
qed

text \<open>C14: a departing client never strands the clients behind it. When the client that holds the lock of a
  file leaves, the client that has waited longest gets the lock and the answer OK and is given back to the
  manager; the others stay in line in their order, and the file keeps its name and content.\<close>

theorem exit_hands_locks_over:
  assumes "reachable maxFiles maxSize algo st" and "c \<in> set (working st)" and "env_ok env (store st)"
    and "sim (store st) xs fs" and "f \<in> set (f_files fs)" and "a_lock f = c" and "a_wait f = w # ws"
  shows "\<exists>st' out xs' fs'. worker_serve env unset c [] st = Some (st', out, []) \<and> sim (store st') xs' fs' \<and>
     c \<notin> connected st' \<and> Send w (show_nat 1) \<in> set out \<and> w \<in># returned (pipe st') \<and>
     (\<exists>f' \<in> set (f_files fs'). a_path f' = a_path f \<and> a_data f' = a_data f \<and> a_lock f' = w \<and> a_wait f' = ws)"
proof -
  have ok: "system_ok maxFiles maxSize algo st xs fs" by (rule reachable_sim [OF assms(1,4)])
  note c = working_client [OF ok assms(2)]
  have w: "w \<in># waiting fs" unfolding waiting_iff using assms(5,7) by (intro bexI [of _ f]) simp_all
  have cw: "w \<noteq> c" "c \<notin> set ws" using c(3) assms(5,7) by (auto simp: waiting_iff)
  have wc: "client_fd w" using waiting_connected [OF ok w] by simp
  let ?notify = "concat (map (exit_notify c) (f_files fs))" and ?fs' = "fs\<lparr>f_files := map (exit_file c) (f_files fs)\<rparr>"
  let ?out = "Close c # notify_out ?notify 1 @ [Pipe CLIENT_LEFT_MSG]"
  have sp: "spec_serve env unset fs c Exit = (?fs', ?out)"
    using c(4) by (simp add: spec_serve_def spec_exit_def)
  have n: "w \<in> set ?notify" using assms(5-7) by (auto simp: exit_notify_def intro!: bexI [of _ f])
  then have out: "Send w (show_nat 1) \<in> set ?out" "fd_msg w \<in> set (pipe_msgs ?out)"
    by (auto simp: notify_out_def code_msg_def, auto simp: pipe_msgs_set)
  have "msg_fd (fd_msg w) = w" "w \<noteq> 0" using wc msg_fd_fd_msg [of w] by (simp_all add: client_fd_def)
  with out(2) have ret: "w \<in># returned (pipe_msgs ?out)" by (force simp: returned_def)
  have ex: "readable unset fs Exit" for unset by simp
  have pr: "proper Exit" by (simp add: proper_def)
  obtain s' xs' st' where "worker_serve env unset c [] st = Some (st', ?out, [])"
    and st': "st' = st\<lparr>store := s', working := remove1 c (working st), pipe := pipe st @ pipe_msgs ?out,
              connected := connected st - closed ?out\<rparr>" and "system_ok maxFiles maxSize algo st' xs' ?fs'"
    using work_step [OF assms(1) ok assms(2,3) decode_exit pr ex sp] by blast
  moreover have "w \<in># returned (pipe st')" using ret by (simp add: st' returned_def)
  moreover have "c \<notin> connected st'" by (simp add: st' closed_def)
  moreover have "a_path (exit_file c f) = a_path f \<and> a_data (exit_file c f) = a_data f \<and>
      a_lock (exit_file c f) = w \<and> a_wait (exit_file c f) = ws"
    using assms(6,7) cw by (simp add: exit_file_def hand_over_def remove1_idem)
  then have "\<exists>f' \<in> set (f_files ?fs'). a_path f' = a_path f \<and> a_data f' = a_data f \<and> a_lock f' = w \<and> a_wait f' = ws"
    using assms(5) by (intro bexI [of _ "exit_file c f"]) simp_all
  ultimately show ?thesis using out(1) unfolding system_ok_def by blast
qed

theorem exit_hands_locks_over_witness:
  "\<exists>st st' out xs' fs'. reachable 10 1000 0 st \<and> worker_serve (env_at 2) 0 5 [] st = Some (st', out, []) \<and>
     sim (store st') xs' fs' \<and> Send 6 (show_nat 1) \<in> set out \<and> (\<exists>f' \<in> set (f_files fs'). a_path f' = ''/a'' \<and> a_lock f' = 6)"
proof -
  obtain s xs fs where r: "reachable 10 1000 0 (demo_state 4 {} s [5] [])" and sim: "sim s xs fs"
    and f: "f_files fs = [demo_file [6]]" and env: "env_ok (env_at 2) s" using demo_locked by blast
  have "a_lock (demo_file [6]) = 5" "a_wait (demo_file [6]) = 6 # []" "a_path (demo_file [6]) = ''/a''"
    by (simp_all add: demo_file_def new_file_def)
  then show ?thesis
    using exit_hands_locks_over [OF r, of 5 "env_at 2" xs fs "demo_file [6]" 6 "[]" 0] sim env f r
    by (simp del: readable.simps) metis
qed

text \<open>C16: the soft exit. When the manager decides, on a message from the pipe or on a signal that interrupts
  \<open>select\<close>, that the server stops, it was asked to, no client is connected, queued, served or waiting, nothing is left in the pipe, and no file is
  locked.\<close>

theorem soft_exit_only_when_idle:
  assumes "reachable maxFiles maxSize algo st" and "env_ok env (store st)"
    and "manager_pipe env st = Some (st', True) \<or> select_interrupted (mgr st) \<and> st' = st"
  shows "softExit (mgr st') \<and> connected st' = {} \<and> taskBuffer st' = [] \<and> working st' = [] \<and> pipe st' = [] \<and>
     setsave (mgr st') = {fd_socket (mgr st'), pipe_in (mgr st')} \<and>
     (\<exists>xs. store_rep (store st') xs \<and> list_all (\<lambda>a. lockedBy (node_at (store st') a) = 0 \<and> pendingLocks (node_at (store st') a) = []) xs)"
proof -
  have stop: "softExit (mgr st')" "clientCount (mgr st') = 0"
    using assms(3) by (auto simp: select_interrupted_def dest: manager_pipe_stops)
  have "reachable maxFiles maxSize algo st'"
    using assms sys_step.message [OF _ assms(2)] reachable.step by blast
  then obtain xs fs where ok: "system_ok maxFiles maxSize algo st' xs fs" using reachable_ok by blast
  then have fin: "finite (watched (mgr st'))" "finite (connected st')"
    and sock: "{fd_socket (mgr st'), pipe_in (mgr st')} \<subseteq> setsave (mgr st')"
    and cnt: "int (card (connected st') + departures (pipe st')) = clientCount (mgr st')"
    by (auto simp: system_ok_def manager_ok_def Let_def watched_def)
  have con: "connected st' = {}" and dep: "departures (pipe st') = 0"
    using cnt fin(2) unfolding stop(2) of_nat_eq_0_iff add_is_0 by simp_all
  have "places st' fs = {#}" using ok con by (simp add: system_ok_def)
  then have e: "watched (mgr st') = {}" "taskBuffer st' = []" "working st' = []" "returned (pipe st') = {#}" "waiting fs = {#}"
    using fin by (auto simp: places_def mset_set_empty_iff)
  have "map msg_fd (pipe st') = []"
    using dep e(4) by (cases "pipe st'") (auto simp: departures_def returned_def split: if_splits)
  moreover have "owners fs = {}" using ok con by (simp add: system_ok_def)
  moreover have rep: "store_rep (store st') xs" "abs_store (store st') xs = fs"
    using ok by (simp_all add: system_ok_def sim_busy_def)
  ultimately have "list_all (\<lambda>a. lockedBy (node_at (store st') a) = 0 \<and> pendingLocks (node_at (store st') a) = []) xs"
    using e(5) by (auto simp: list_all_iff owners_def waiting_def abs_store_def abs_files_def image_subset_iff)
  then show ?thesis using stop con e(1-3) rep(1) sock \<open>map msg_fd (pipe st') = []\<close> by (auto simp: watched_def)
qed

theorem soft_exit_only_when_idle_witness:
  "\<exists>st st'. reachable 10 1000 0 st \<and> manager_pipe (env_at 9) st = Some (st', True) \<and> connected st' = {} \<and> working st' = []"
proof -
  obtain st st' where r: "reachable 10 1000 0 st" and env: "env_ok (env_at 9) (store st)"
    and p: "manager_pipe (env_at 9) st = Some (st', True)" using demo_stopping by blast
  show ?thesis using soft_exit_only_when_idle [OF r env] r p by blast
qed

end
